(* ===== verification/Prelude.thy ===== *)
theory Prelude imports Main "HOL-Library.AList" "HOL-Library.Multiset" begin

text \<open>
  Shared vocabulary of the development: fallible computations as sums, the fold that stops at
  the first error, array operations of the language (\<open>toSpliced\<close>, \<open>indexOf\<close>, indexing that may
  answer \<open>undefined\<close>), lossless JSON values, safe integers, and the interface of a reader that
  follows an append-only log. Insertion-ordered maps of the language (\<open>Map\<close>) are the
  association lists of HOL-Library.AList: \<open>AList.update\<close> overwrites in place and appends a new
  key at the end, as \<open>Map.prototype.set\<close> does.
\<close>

named_theorems fold_simps \<open>equations that push a fold through the end of a log\<close>
named_theorems inv_intros \<open>preservation facts of the component invariants\<close>

section \<open>Fallible computations\<close>

definition bindE :: "'e + 'a \<Rightarrow> ('a \<Rightarrow> 'e + 'b) \<Rightarrow> 'e + 'b" where
  "bindE m k = (case m of Inl e \<Rightarrow> Inl e | Inr x \<Rightarrow> k x)"

definition checkE :: "bool \<Rightarrow> 'e \<Rightarrow> 'e + unit" where
  "checkE ok e = (if ok then Inr () else Inl e)"

lemma bindE_simps [simp]:
  "bindE (Inl e) k = Inl e"
  "bindE (Inr x) k = k x"
  by (simp_all add: bindE_def)

lemma bindE_eq_Inr [simp]: "bindE m k = Inr y \<longleftrightarrow> (\<exists>x. m = Inr x \<and> k x = Inr y)"
  by (cases m) simp_all

lemma Inr_eq_bindE [simp]: "Inr y = bindE m k \<longleftrightarrow> (\<exists>x. m = Inr x \<and> k x = Inr y)"
  by (cases m) auto

lemma bindE_eq_Inl: "bindE m k = Inl e \<longleftrightarrow> m = Inl e \<or> (\<exists>x. m = Inr x \<and> k x = Inl e)"
  by (cases m) auto

lemma bindE_assoc: "bindE (bindE m k) h = bindE m (\<lambda>x. bindE (k x) h)"
  by (cases m) simp_all

lemma bindE_Inr_right [simp]: "bindE m Inr = m"
  by (cases m) simp_all

lemma checkE_simps [simp]:
  "checkE True e = Inr ()"
  "checkE False e = Inl e"
  by (simp_all add: checkE_def)

lemma checkE_eq_Inr [simp]: "checkE ok e = Inr u \<longleftrightarrow> ok"
  by (simp add: checkE_def)

lemma bindE_checkE: "bindE (checkE ok e) k = (if ok then k () else Inl e)"
  by simp

definition bindO :: "'a option \<Rightarrow> ('a \<Rightarrow> 'b option) \<Rightarrow> 'b option" where
  \<comment> \<open>optional chaining\<close>
  "bindO m k = (case m of None \<Rightarrow> None | Some x \<Rightarrow> k x)"

lemma bindO_simps [simp]:
  "bindO None k = None"
  "bindO (Some x) k = k x"
  by (simp_all add: bindO_def)

lemma bindO_eq_Some: "bindO m k = Some y \<longleftrightarrow> (\<exists>x. m = Some x \<and> k x = Some y)"
  by (cases m) simp_all

fun foldE :: "('s \<Rightarrow> 'a \<Rightarrow> 'e + 's) \<Rightarrow> 's \<Rightarrow> 'a list \<Rightarrow> 'e + 's" where
  "foldE f s [] = Inr s"
| "foldE f s (x # xs) = bindE (f s x) (\<lambda>s'. foldE f s' xs)"

lemma foldE_append [fold_simps]:
  "foldE f s (xs @ ys) = bindE (foldE f s xs) (\<lambda>s'. foldE f s' ys)"
  by (induction xs arbitrary: s) (simp_all add: bindE_assoc)

lemma foldE_snoc [fold_simps]: "foldE f s (xs @ [x]) = bindE (foldE f s xs) (\<lambda>s'. f s' x)"
  by (simp add: foldE_append)

lemma foldE_cong:
  assumes "\<And>s x. x \<in> set xs \<Longrightarrow> f s x = g s x"
  shows "foldE f s xs = foldE g s xs"
proof -
  have *: "foldE f s xs = foldE g s xs" if "\<And>s x. x \<in> set xs \<Longrightarrow> f s x = g s x" for s xs
    using that by (induction xs arbitrary: s) (auto simp: bindE_def split: sum.splits)
  show ?thesis by (rule *[OF assms])
qed

lemma foldE_total: "foldE (\<lambda>s x. Inr (f s x)) s xs = Inr (foldl f s xs)"
  by (induction xs arbitrary: s) simp_all

lemma foldE_invariant:
  assumes "foldE f s xs = Inr t" and "P s"
    and "\<And>s x s'. x \<in> set xs \<Longrightarrow> P s \<Longrightarrow> f s x = Inr s' \<Longrightarrow> P s'"
  shows "P t"
  using assms by (induction xs arbitrary: s) auto

lemma foldE_prefix:
  assumes "foldE f s (xs @ ys) = Inr t"
  obtains u where "foldE f s xs = Inr u" and "foldE f u ys = Inr t"
  using assms by (auto simp: foldE_append)

section \<open>Arrays\<close>

definition nth_opt :: "'a list \<Rightarrow> nat \<Rightarrow> 'a option" where
  \<comment> \<open>\<open>xs[i]\<close>: \<open>undefined\<close> past the end\<close>
  "nth_opt xs i = (if i < length xs then Some (xs ! i) else None)"

definition last_opt :: "'a list \<Rightarrow> 'a option" where
  \<comment> \<open>\<open>xs.at(-1)\<close>\<close>
  "last_opt xs = (if xs = [] then None else Some (last xs))"

definition to_spliced :: "nat \<Rightarrow> nat \<Rightarrow> 'a list \<Rightarrow> 'a list \<Rightarrow> 'a list" where
  \<comment> \<open>\<open>xs.toSpliced(start, n, ...ins)\<close> for a start inside the array\<close>
  "to_spliced start n ins xs = take start xs @ ins @ drop (start + n) xs"

fun index_of :: "'a \<Rightarrow> 'a list \<Rightarrow> nat option" where
  \<comment> \<open>\<open>xs.indexOf(x)\<close>, with None for \<open>-1\<close>\<close>
  "index_of x [] = None"
| "index_of x (y # ys) = (if x = y then Some 0 else map_option Suc (index_of x ys))"

lemma nth_opt_simps [simp]:
  "i < length xs \<Longrightarrow> nth_opt xs i = Some (xs ! i)"
  "\<not> i < length xs \<Longrightarrow> nth_opt xs i = None"
  by (simp_all add: nth_opt_def)

lemma nth_opt_eq_Some: "nth_opt xs i = Some x \<longleftrightarrow> i < length xs \<and> xs ! i = x"
  by (auto simp: nth_opt_def)

lemma nth_opt_append1 [simp]: "i < length xs \<Longrightarrow> nth_opt (xs @ ys) i = nth_opt xs i"
  by (simp add: nth_opt_def nth_append)

lemma nth_opt_take [simp]: "i < n \<Longrightarrow> nth_opt (take n xs) i = nth_opt xs i"
  by (simp add: nth_opt_def)

lemma last_opt_simps [simp]:
  "last_opt [] = None"
  "last_opt (xs @ [x]) = Some x"
  by (simp_all add: last_opt_def)

lemma last_opt_Cons: "last_opt (x # xs) = Some (last (x # xs))"
  by (simp add: last_opt_def)

lemma last_opt_eq_None [simp]: "last_opt xs = None \<longleftrightarrow> xs = []"
  by (simp add: last_opt_def)

lemma last_opt_eq_Some: "last_opt xs = Some x \<longleftrightarrow> (\<exists>ys. xs = ys @ [x])"
  by (cases xs rule: rev_cases) auto

lemma index_of_None [simp]: "index_of x xs = None \<longleftrightarrow> x \<notin> set xs"
  by (induction xs) auto

lemma index_of_Some: "index_of x xs = Some i \<Longrightarrow> i < length xs \<and> xs ! i = x"
  by (induction xs arbitrary: i) (auto split: if_splits)

lemma index_of_nth:
  assumes "distinct xs" and "i < length xs"
  shows "index_of (xs ! i) xs = Some i"
  using assms
proof (induction xs arbitrary: i)
  case (Cons y ys)
  then show ?case by (cases i) auto
qed simp

lemma find_SomeD: "List.find P xs = Some x \<Longrightarrow> x \<in> set xs \<and> P x"
  by (metis find_Some_iff nth_mem)

lemma length_to_spliced:
  "start + n \<le> length xs \<Longrightarrow>
   length (to_spliced start n ins xs) = length xs - n + length ins"
  by (simp add: to_spliced_def)

lemma set_to_spliced_subset: "set (to_spliced start n ins xs) \<subseteq> set xs \<union> set ins"
  by (auto simp: to_spliced_def dest: in_set_takeD in_set_dropD)

lemma mset_to_spliced:
  assumes "start + n \<le> length xs"
  shows "mset (to_spliced start n ins xs) + mset (take n (drop start xs)) = mset xs + mset ins"
proof -
  have "mset xs = mset (take start xs @ take n (drop start xs) @ drop (start + n) xs)"
    by (metis append_take_drop_id drop_drop add.commute)
  then show ?thesis by (simp add: to_spliced_def)
qed

section \<open>Insertion-ordered maps\<close>

lemma map_of_map_entry_None: "map_of (AList.map_entry k f xs) k = None \<longleftrightarrow> map_of xs k = None"
  by (induction xs) auto

lemma map_fst_map_entry [simp]: "map fst (AList.map_entry k f xs) = map fst xs"
  by (induction xs) auto

lemma map_fst_update_new: "map_of xs k = None \<Longrightarrow> map fst (AList.update k v xs) = map fst xs @ [k]"
  by (induction xs) (auto split: if_splits)

lemma delete_notin: "k \<notin> fst ` set p \<Longrightarrow> AList.delete k p = p"
  by (induction p) (auto simp: AList.delete_eq)

lemma map_of_map_entry:
  "map_of (AList.map_entry k f xs) j = (if j = k then map_option f (map_of xs j) else map_of xs j)"
  by (induction xs) auto

lemma set_update_subset: "set (AList.update k v p) \<subseteq> insert (k, v) (set p)"
  by (induction p) auto

lemma set_map_entry: "set (AList.map_entry k f p) \<subseteq> {(j, c). (j, c) \<in> set p} \<union> {(k, f c) | c. (k, c) \<in> set p}"
  by (induction p) auto

lemma set_delete_subset: "set (AList.delete k p) \<subseteq> set p"
  by (auto simp: AList.delete_eq)

lemma list_all_update:
  "list_all P m \<Longrightarrow> P (k, v) \<Longrightarrow> list_all P (AList.update k v m)"
  using set_update_subset[of k v m] by (auto simp: list_all_iff)

section \<open>Mapping a fallible function, selection, decimal numerals\<close>

fun mapE :: "('a \<Rightarrow> 'e + 'b) \<Rightarrow> 'a list \<Rightarrow> 'e + 'b list" where
  "mapE f [] = Inr []"
| "mapE f (x # xs) = bindE (f x) (\<lambda>y. bindE (mapE f xs) (\<lambda>ys. Inr (y # ys)))"

lemma mapE_length: "mapE f xs = Inr ys \<Longrightarrow> length ys = length xs"
  by (induction xs arbitrary: ys) auto

lemma mapE_total: "mapE (\<lambda>x. Inr (f x)) xs = Inr (map f xs)"
  by (induction xs) simp_all

lemma mapE_cong: "(\<And>x. x \<in> set xs \<Longrightarrow> f x = g x) \<Longrightarrow> mapE f xs = mapE g xs"
  by (induction xs) (auto simp: bindE_def split: sum.splits)

lemma mapE_Inl: "mapE f xs = Inl e \<Longrightarrow> \<exists>x \<in> set xs. f x = Inl e"
  by (induction xs) (auto simp: bindE_eq_Inl)

lemma mapE_set: "mapE f xs = Inr ys \<Longrightarrow> y \<in> set ys \<Longrightarrow> \<exists>x \<in> set xs. f x = Inr y"
  by (induction xs arbitrary: ys) auto

lemma mapE_append: "mapE f (xs @ ys) = bindE (mapE f xs) (\<lambda>us. bindE (mapE f ys) (\<lambda>vs. Inr (us @ vs)))"
  by (induction xs) (auto simp: bindE_def split: sum.splits)

lemma set_map_filter [simp]: "y \<in> set (List.map_filter f xs) \<longleftrightarrow> (\<exists>x \<in> set xs. f x = Some y)"
  by (induction xs) (auto simp: List.map_filter_simps split: option.splits)

fun select :: "bool list \<Rightarrow> 'a list \<Rightarrow> 'a list" where
  \<comment> \<open>\<open>xs.filter((_, position) => keep[position])\<close>\<close>
  "select (k # ks) (x # xs) = (if k then x # select ks xs else select ks xs)"
| "select _ _ = []"

lemma select_map_filter: "select (map P xs) xs = filter P xs"
  by (induction xs) simp_all

lemma select_all: "length ks = length ys \<Longrightarrow> length (select ks ys) = length ys \<Longrightarrow> select ks ys = ys"
proof (induction ks ys rule: select.induct)
  case (1 k ks x xs)
  have "length (select ks xs) \<le> length xs" by (induction ks xs rule: select.induct) auto
  with 1 show ?case by (auto split: if_splits)
qed auto

lemma length_select: "length ks = length xs \<Longrightarrow> length (select ks xs) = length (filter id ks)"
  by (induction ks xs rule: select.induct) simp_all

fun dec_nat :: "nat \<Rightarrow> string" where
  "dec_nat n = (if n < 10 then [char_of (48 + n)] else dec_nat (n div 10) @ [char_of (48 + n mod 10)])"

declare dec_nat.simps [simp del]

definition dec_int :: "int \<Rightarrow> string" where
  "dec_int n = (if n < 0 then CHR 0x2D # dec_nat (nat (- n)) else dec_nat (nat n))"

section \<open>Safe integers and JSON\<close>

definition max_safe :: int where
  "max_safe = 9007199254740991"

definition safe_int :: "int \<Rightarrow> bool" where
  "safe_int n \<longleftrightarrow> - max_safe \<le> n \<and> n \<le> max_safe"

text \<open>
  A number is an integer, negative zero, or a number with a fractional part; only whether it is
  a safe integer, and which one, is ever read, so a fractional number carries its decimal text.
\<close>

datatype json =
    JNull
  | JBool bool
  | JInt int
  | JNegZero
  | JFrac string
  | JStr string
  | JArr "json list"
  | JObj "(string \<times> json) list"

fun is_record :: "json \<Rightarrow> bool" where
  "is_record (JObj _) = True"
| "is_record _ = False"

fun fld :: "json \<Rightarrow> string \<Rightarrow> json option" where
  \<comment> \<open>\<open>v[key]\<close> of a record: None is \<open>undefined\<close>\<close>
  "fld (JObj kvs) k = map_of kvs k"
| "fld _ k = None"

fun obj_keys :: "json \<Rightarrow> string list" where
  \<comment> \<open>\<open>Object.keys\<close>\<close>
  "obj_keys (JObj kvs) = remdups (map fst kvs)"
| "obj_keys _ = []"

fun is_safe_integer :: "json \<Rightarrow> bool" where
  "is_safe_integer (JInt n) = safe_int n"
| "is_safe_integer JNegZero = True"
| "is_safe_integer _ = False"

fun is_event_seq :: "json \<Rightarrow> bool" where
  \<comment> \<open>a non-negative safe integer other than negative zero\<close>
  "is_event_seq (JInt n) = (0 \<le> n \<and> safe_int n)"
| "is_event_seq _ = False"

fun seq_of :: "json \<Rightarrow> nat" where
  "seq_of (JInt n) = nat n"
| "seq_of _ = 0"

definition seq_json :: "nat \<Rightarrow> json" where
  "seq_json n = JInt (int n)"

lemma is_event_seq_seq_json [simp]: "is_event_seq (seq_json n) \<longleftrightarrow> int n \<le> max_safe"
  by (simp add: seq_json_def safe_int_def max_safe_def)

lemma seq_of_seq_json [simp]: "seq_of (seq_json n) = n"
  by (simp add: seq_json_def)

lemma is_event_seqD: "is_event_seq v \<Longrightarrow> v = seq_json (seq_of v)"
  by (cases v) (simp_all add: seq_json_def)

lemma inj_on_seq_of: "inj_on seq_of (Collect is_event_seq)"
  by (rule inj_onI) (metis is_event_seqD mem_Collect_eq)

section \<open>Readers of an append-only log\<close>

text \<open>
  A cached fold with a cursor, extended by the events it has not seen. \<open>synced\<close> says that the
  cached state is the fold of the prefix before the cursor; appending keeps it, and catching up
  gives the fold of the whole log.
\<close>

definition catch_up :: "('s \<Rightarrow> 'ev \<Rightarrow> 'e + 's) \<Rightarrow> 'ev list \<Rightarrow> 's \<times> nat \<Rightarrow> 'e + 's \<times> nat" where
  "catch_up step log c = bindE (foldE step (fst c) (drop (snd c) log)) (\<lambda>s. Inr (s, length log))"

definition synced :: "('s \<Rightarrow> 'ev \<Rightarrow> 'e + 's) \<Rightarrow> 's \<Rightarrow> 'ev list \<Rightarrow> 's \<times> nat \<Rightarrow> bool" where
  "synced step init log c \<longleftrightarrow> snd c \<le> length log \<and> foldE step init (take (snd c) log) = Inr (fst c)"

lemma synced_init: "synced step init log (init, 0)"
  by (simp add: synced_def)

lemma synced_append: "synced step init log c \<Longrightarrow> synced step init (log @ xs) c"
  by (simp add: synced_def)

lemma catch_up_synced:
  assumes "synced step init log c"
  shows "catch_up step log c = bindE (foldE step init log) (\<lambda>s. Inr (s, length log))"
proof -
  have "foldE step init log = foldE step init (take (snd c) log @ drop (snd c) log)" by simp
  also have "\<dots> = foldE step (fst c) (drop (snd c) log)"
    using assms unfolding foldE_append synced_def by simp
  finally show ?thesis by (simp add: catch_up_def)
qed

lemma synced_catch_up:
  "synced step init log c \<Longrightarrow> catch_up step log c = Inr c' \<Longrightarrow> synced step init log c'"
  by (auto simp: catch_up_synced) (simp add: synced_def)

end
