(* ===== verification/LlmTypes.thy ===== *)
theory LlmTypes imports Prelude begin

text \<open>
  The provider-neutral message and streaming vocabulary of \<open>packages/llm/llm/src/types.ts\<close>,
  \<open>message.ts\<close> and \<open>call-config.ts\<close>, as records and datatypes. Fields the code treats as opaque
  (attachment references, replay data, sources of producers declared elsewhere) are JSON values.
  Strings are lists of characters: the code modelled here reads them through equality, length,
  emptiness and white space only.
\<close>

section \<open>Content blocks and messages\<close>

datatype content_block =
    TextBlock string
  | ReasoningBlock string
  | ImageBlock json bool            \<comment> \<open>attachment, \<open>offloaded\<close>\<close>
  | FileBlock json
  | ToolCallBlock string string string   \<comment> \<open>id, name, raw argument text\<close>
  | ToolAdditionBlock string "json option"  \<comment> \<open>tool name, the reserved inline \<open>tool\<close>\<close>
  | ToolRemovalBlock string

fun block_type :: "content_block \<Rightarrow> string" where
  "block_type (TextBlock _) = ''text''"
| "block_type (ReasoningBlock _) = ''reasoning''"
| "block_type (ImageBlock _ _) = ''image''"
| "block_type (FileBlock _) = ''file''"
| "block_type (ToolCallBlock _ _ _) = ''tool-call''"
| "block_type (ToolAdditionBlock _ _) = ''tool-addition''"
| "block_type (ToolRemovalBlock _) = ''tool-removal''"

fun is_tool_call :: "content_block \<Rightarrow> bool" where
  "is_tool_call (ToolCallBlock _ _ _) = True"
| "is_tool_call _ = False"

lemma block_type_tool_call [simp]: "block_type b = ''tool-call'' \<longleftrightarrow> is_tool_call b"
  by (cases b) simp_all

datatype message_source =
    UserSource
  | ModelSource string string "json option"  \<comment> \<open>provider, model, replay state\<close>
  | ToolSource string                         \<comment> \<open>call id\<close>
  | SystemPromptSource
  | OtherSource string json                   \<comment> \<open>kind and fields of a producer's own source\<close>

datatype role = System | Developer | User | Assistant | Tool

record message =
  msg_id :: string
  msg_role :: role
  msg_content :: "content_block list"
  msg_source :: message_source
  msg_tool_call_id :: "string option"
  msg_is_error :: "bool option"

definition create_tool_result_message ::
  "string \<Rightarrow> string \<Rightarrow> content_block list \<Rightarrow> bool \<Rightarrow> message" where
  \<comment> \<open>the fresh identity is an argument\<close>
  "create_tool_result_message mid callId content isError =
     \<lparr>msg_id = mid, msg_role = Tool, msg_content = content, msg_source = ToolSource callId,
      msg_tool_call_id = Some callId, msg_is_error = Some isError\<rparr>"

definition create_assistant_message ::
  "string \<Rightarrow> content_block list \<Rightarrow> string \<Rightarrow> string \<Rightarrow> json option \<Rightarrow> message" where
  "create_assistant_message mid content provider model replayState =
     \<lparr>msg_id = mid, msg_role = Assistant, msg_content = content,
      msg_source = ModelSource provider model replayState,
      msg_tool_call_id = None, msg_is_error = None\<rparr>"

definition create_system_message :: "string \<Rightarrow> string \<Rightarrow> message" where
  "create_system_message mid txt =
     \<lparr>msg_id = mid, msg_role = System,
      msg_content = (if length txt = 0 then [] else [TextBlock txt]),
      msg_source = SystemPromptSource, msg_tool_call_id = None, msg_is_error = None\<rparr>"

section \<open>Failures, usage and stream chunks\<close>

record llm_failure =
  failure_message :: string
  failure_code :: string
  failure_status :: "int option"
  failure_retry_after_ms :: "int option"
  failure_request_id :: "string option"
  failure_offload_images :: "int option"

datatype finish_reason =
    Stop
  | ToolCalls
  | MaxTokens
  | Aborted llm_failure
  | Errored llm_failure

record token_usage =
  input_tokens :: int
  output_tokens :: int
  total_tokens :: "int option"
  cache_read_tokens :: "int option"
  cache_write_tokens :: "int option"
  reasoning_tokens :: "int option"

record replay_envelope =
  envelope_response :: json
  envelope_blocks :: "json list option"

datatype stream_chunk =
    BlockStart int string
  | TextDelta int string
  | ReasoningDelta int string
  | ToolCallDelta int string "string option" string  \<comment> \<open>index, id, name, argument fragment\<close>
  | BlockEnd int content_block
  | UsageChunk token_usage
  | FinishChunk finish_reason "replay_envelope option"

section \<open>Tool schemas and call configuration\<close>

text \<open>
  The surface validator reads a schema's description, parameters and \<open>deferLoading\<close> as values of
  unknown shape, so they are JSON here.
\<close>

record tool_schema =
  ts_name :: string
  ts_description :: json
  ts_parameters :: json
  ts_defer_loading :: "json option"

record tool_update_entry =
  tu_message_id :: string
  tu_additions :: "tool_schema list"

record tool_history =
  th_tools :: "tool_schema list"
  th_updates :: "tool_update_entry list"

record call_config =
  cc_provider :: string
  cc_model :: string
  cc_reasoning_effort :: "string option"
  cc_temperature :: "json option"
  cc_max_tokens :: "int option"
  cc_stop :: "string list option"

record adapter_defaults =
  ad_reasoning_effort :: bool
  ad_max_tokens :: bool

definition call_config_equals :: "call_config \<Rightarrow> call_config \<Rightarrow> bool" where
  "call_config_equals a b =
     (if cc_provider a \<noteq> cc_provider b \<or> cc_model a \<noteq> cc_model b
         \<or> cc_reasoning_effort a \<noteq> cc_reasoning_effort b
         \<or> cc_temperature a \<noteq> cc_temperature b
         \<or> cc_max_tokens a \<noteq> cc_max_tokens b then False
      else case (cc_stop a, cc_stop b) of
        (Some xs, Some ys) \<Rightarrow> length xs = length ys \<and> list_all (\<lambda>(x, y). x = y) (zip xs ys)
      | (s, t) \<Rightarrow> s = None \<and> t = None)"

lemma list_all_zip_eq: "length xs = length ys \<Longrightarrow> list_all (\<lambda>(x, y). x = y) (zip xs ys) \<longleftrightarrow> xs = ys"
  by (induction xs ys rule: list_induct2) auto

lemma call_config_equals_iff: "call_config_equals a b \<longleftrightarrow> a = (b :: call_config)"
  by (cases a; cases b) (auto simp: call_config_equals_def list_all_zip_eq split: option.splits)

end
