(* ===== verification/AssistantStream.thy ===== *)
theory AssistantStream imports LlmTypes begin

text \<open>
  The compact representation of one model-stream attempt
  (\<open>packages/llm/llm/src/assistant-stream.ts\<close>) and the assembler that turns stream chunks into
  message blocks (\<open>packages/llm/llm/src/assembler.ts\<close>). The accumulator packs consecutive deltas
  of one block into runs; expanding the snapshot gives back the timed chunks, every record-level
  reader agrees with the chunk-level predicate it stands for, and assembling the compact records
  reaches the same assembler state as pushing the chunks one by one.
\<close>

section \<open>The block assembler\<close>

record partial_block =
  pb_block_type :: string
  pb_text :: string
  pb_tool_call_id :: "string option"
  pb_tool_call_name :: "string option"
  pb_arguments :: string
  pb_block :: "content_block option"

record block_assembler =
  ba_partials :: "(int \<times> partial_block) list"
  ba_order :: "int list"
  ba_usage :: "token_usage option"
  ba_finish :: "finish_reason option"
  ba_replay :: "replay_envelope option"

definition new_assembler :: block_assembler where
  "new_assembler = \<lparr>ba_partials = [], ba_order = [], ba_usage = None, ba_finish = None, ba_replay = None\<rparr>"

definition new_partial :: "string \<Rightarrow> partial_block" where
  "new_partial bt = \<lparr>pb_block_type = bt, pb_text = [], pb_tool_call_id = None,
     pb_tool_call_name = None, pb_arguments = [], pb_block = None\<rparr>"

definition ensure :: "int \<Rightarrow> string \<Rightarrow> block_assembler \<Rightarrow> block_assembler" where
  "ensure i bt a =
     (case map_of (ba_partials a) i of
        Some _ \<Rightarrow> a
      | None \<Rightarrow> a\<lparr>ba_partials := AList.update i (new_partial bt) (ba_partials a),
                  ba_order := ba_order a @ [i]\<rparr>)"

definition on_open :: "(partial_block \<Rightarrow> partial_block) \<Rightarrow> partial_block \<Rightarrow> partial_block" where
  \<comment> \<open>a partial closed by \<open>block-end\<close> ignores stragglers\<close>
  "on_open f p = (if pb_block p \<noteq> None then p else f p)"

definition modify_partial ::
  "int \<Rightarrow> string \<Rightarrow> (partial_block \<Rightarrow> partial_block) \<Rightarrow> block_assembler \<Rightarrow> block_assembler" where
  "modify_partial i bt f a =
     (let a' = ensure i bt a in a'\<lparr>ba_partials := AList.map_entry i (on_open f) (ba_partials a')\<rparr>)"

fun ba_push :: "stream_chunk \<Rightarrow> block_assembler \<Rightarrow> block_assembler" where
  "ba_push (BlockStart i bt) a = ensure i bt a"
| "ba_push (TextDelta i t) a = modify_partial i ''text'' (\<lambda>p. p\<lparr>pb_text := pb_text p @ t\<rparr>) a"
| "ba_push (ReasoningDelta i t) a =
     modify_partial i ''reasoning'' (\<lambda>p. p\<lparr>pb_text := pb_text p @ t\<rparr>) a"
| "ba_push (ToolCallDelta i cid nm args) a =
     modify_partial i ''tool-call''
       (\<lambda>p. p\<lparr>pb_tool_call_id := Some cid,
              pb_tool_call_name := (case nm of
                  Some n \<Rightarrow> if n \<noteq> [] then Some n else pb_tool_call_name p
                | None \<Rightarrow> pb_tool_call_name p),
              pb_arguments := pb_arguments p @ args\<rparr>) a"
| "ba_push (BlockEnd i b) a = modify_partial i (block_type b) (\<lambda>p. p\<lparr>pb_block := Some b\<rparr>) a"
| "ba_push (UsageChunk u) a = a\<lparr>ba_usage := Some u\<rparr>"
| "ba_push (FinishChunk r e) a = a\<lparr>ba_finish := Some r, ba_replay := e\<rparr>"

datatype assembler_error = IncompleteBlock string | NoPartial int

definition assemble :: "partial_block \<Rightarrow> int \<Rightarrow> assembler_error + content_block" where
  "assemble p i =
     (case pb_block p of
        Some b \<Rightarrow> Inr b
      | None \<Rightarrow>
          if pb_block_type p = ''text'' then Inr (TextBlock (pb_text p))
          else if pb_block_type p = ''reasoning'' then Inr (ReasoningBlock (pb_text p))
          else if pb_block_type p = ''tool-call'' then
            Inr (ToolCallBlock
                   (case pb_tool_call_id p of Some c \<Rightarrow> c | None \<Rightarrow> ''call-'' @ dec_int i)
                   (case pb_tool_call_name p of Some n \<Rightarrow> n | None \<Rightarrow> [])
                   (pb_arguments p))
          else Inl (IncompleteBlock (pb_block_type p)))"

definition must_get :: "block_assembler \<Rightarrow> int \<Rightarrow> assembler_error + partial_block" where
  "must_get a i = (case map_of (ba_partials a) i of None \<Rightarrow> Inl (NoPartial i) | Some p \<Rightarrow> Inr p)"

definition finish :: "block_assembler \<Rightarrow> finish_reason" where
  "finish a = (case ba_finish a of None \<Rightarrow> Stop | Some r \<Rightarrow> r)"

definition assembled ::
  "block_assembler \<Rightarrow> assembler_error + content_block list \<times> replay_envelope option" where
  "assembled a =
     bindE (mapE (\<lambda>i. bindE (must_get a i) (\<lambda>p. assemble p i)) (ba_order a)) (\<lambda>all.
       let kept = (if finish a = MaxTokens then Some (map (\<lambda>b. \<not> is_tool_call b) all) else None);
           blocks = (case kept of None \<Rightarrow> all | Some ks \<Rightarrow> select ks all)
       in Inr (blocks,
            case ba_replay a of
              None \<Rightarrow> None
            | Some env \<Rightarrow>
                (case envelope_blocks env of
                   None \<Rightarrow> Some env
                 | Some ebs \<Rightarrow>
                     if length ebs \<noteq> length all then None
                     else (case kept of
                         None \<Rightarrow> Some env
                       | Some ks \<Rightarrow>
                           if length blocks = length all then Some env
                           else Some \<lparr>envelope_response = envelope_response env,
                                      envelope_blocks = Some (select ks ebs)\<rparr>))))"

definition blocks :: "block_assembler \<Rightarrow> assembler_error + content_block list" where
  "blocks a = bindE (assembled a) (\<lambda>r. Inr (fst r))"

definition replay_state :: "block_assembler \<Rightarrow> assembler_error + replay_envelope option" where
  "replay_state a = bindE (assembled a) (\<lambda>r. Inr (snd r))"

definition js_space :: "char \<Rightarrow> bool" where
  \<comment> \<open>the white space of \<open>trim\<close> and of \<open>\s\<close>, among 8-bit code units\<close>
  "js_space c = (let n = of_char c :: nat in (9 \<le> n \<and> n \<le> 13) \<or> n = 32 \<or> n = 160)"

definition has_non_whitespace :: "string \<Rightarrow> bool" where
  "has_non_whitespace t = list_ex (\<lambda>c. \<not> js_space c) t"

fun keep_prose :: "content_block option \<Rightarrow> content_block option" where
  \<comment> \<open>the predicate of the final \<open>filter\<close>\<close>
  "keep_prose (Some (TextBlock t)) = (if has_non_whitespace t then Some (TextBlock t) else None)"
| "keep_prose (Some (ReasoningBlock t)) = (if has_non_whitespace t then Some (ReasoningBlock t) else None)"
| "keep_prose _ = None"

definition interrupted_blocks :: "block_assembler \<Rightarrow> assembler_error + content_block list" where
  "interrupted_blocks a =
     bindE (mapE (\<lambda>i. bindE (must_get a i) (\<lambda>p.
              let ty = (case pb_block p of Some b \<Rightarrow> block_type b | None \<Rightarrow> pb_block_type p)
              in if ty \<noteq> ''text'' \<and> ty \<noteq> ''reasoning'' then Inr None
                 else bindE (assemble p i) (\<lambda>b. Inr (Some b)))) (ba_order a))
       (\<lambda>bs. Inr (List.map_filter keep_prose bs))"

definition assembler_message ::
  "string \<Rightarrow> string \<Rightarrow> string \<Rightarrow> json option \<Rightarrow> block_assembler \<Rightarrow> assembler_error + message" where
  "assembler_message mid provider model replayState a =
     bindE (blocks a) (\<lambda>bs. Inr (create_assistant_message mid bs provider model replayState))"

section \<open>Compact records and the accumulator\<close>

datatype run_kind = TextRun | ReasoningRun

datatype stream_record =
    DeltaRun run_kind int int "int list" "string list"  \<comment> \<open>\<open>time0\<close>, index, \<open>dt\<close>, texts\<close>
  | ToolRun int int "int list" string "string option" "string list"  \<comment> \<open>\<open>time0\<close>, index, \<open>dt\<close>, id, name, args\<close>
  | RawChunk int stream_chunk

datatype mutable_record =
    MDelta run_kind int int "int list" "string list" int  \<comment> \<open>with the last member's time\<close>
  | MTool int int "int list" string "string option" "string list" int
  | MRaw int stream_chunk

type_synonym timed_chunk = "int \<times> stream_chunk"

datatype stream_error =
    UnsafeTime int
  | UnsafeIndex int
  | NoMembers
  | UnsafeGap
  | GapCount
  | UnsafeMemberTime
  | EmptyCallId
  | EmptyCallName

definition safe_index :: "int \<Rightarrow> bool" where
  "safe_index i \<longleftrightarrow> 0 \<le> i \<and> safe_int i"

definition safe_gap :: "int \<Rightarrow> int \<Rightarrow> int option" where
  \<comment> \<open>of two safe integers; the difference of doubles is exact precisely when it is safe\<close>
  "safe_gap previous next = (if safe_int (next - previous) then Some (next - previous) else None)"

definition push_delta ::
  "run_kind \<Rightarrow> mutable_record list \<Rightarrow> int \<Rightarrow> int \<Rightarrow> string \<Rightarrow> stream_error + mutable_record list" where
  "push_delta k rs time i t =
     (if \<not> safe_index i then Inl (UnsafeIndex i)
      else Inr (case last_opt rs of
          Some (MDelta k' t0 i' dt ts lastTime) \<Rightarrow>
            (case safe_gap lastTime time of
               Some gap \<Rightarrow>
                 if k' = k \<and> i' = i
                 then butlast rs @ [MDelta k t0 i (dt @ [gap]) (ts @ [t]) time]
                 else rs @ [MDelta k time i [] [t] time]
             | None \<Rightarrow> rs @ [MDelta k time i [] [t] time])
        | _ \<Rightarrow> rs @ [MDelta k time i [] [t] time]))"

definition push_tool ::
  "mutable_record list \<Rightarrow> int \<Rightarrow> int \<Rightarrow> string \<Rightarrow> string option \<Rightarrow> string
     \<Rightarrow> stream_error + mutable_record list" where
  "push_tool rs time i cid nm arg =
     (if \<not> safe_index i then Inl (UnsafeIndex i)
      else if length cid = 0 \<or> nm = Some [] then Inr (rs @ [MRaw time (ToolCallDelta i cid nm arg)])
      else Inr (case last_opt rs of
          Some (MTool t0 i' dt cid' nm' args lastTime) \<Rightarrow>
            (case safe_gap lastTime time of
               Some gap \<Rightarrow>
                 if i' = i \<and> cid' = cid \<and> nm' = nm
                 then butlast rs @ [MTool t0 i (dt @ [gap]) cid nm (args @ [arg]) time]
                 else rs @ [MTool time i [] cid nm [arg] time]
             | None \<Rightarrow> rs @ [MTool time i [] cid nm [arg] time])
        | _ \<Rightarrow> rs @ [MTool time i [] cid nm [arg] time]))"

fun acc_push :: "mutable_record list \<Rightarrow> timed_chunk \<Rightarrow> stream_error + mutable_record list" where
  "acc_push rs (time, chunk) =
     (if \<not> safe_int time then Inl (UnsafeTime time)
      else case chunk of
        TextDelta i t \<Rightarrow> push_delta TextRun rs time i t
      | ReasoningDelta i t \<Rightarrow> push_delta ReasoningRun rs time i t
      | ToolCallDelta i cid nm arg \<Rightarrow> push_tool rs time i cid nm arg
      | _ \<Rightarrow> Inr (rs @ [MRaw time chunk]))"

fun durable :: "mutable_record \<Rightarrow> stream_record" where
  "durable (MDelta k t0 i dt ts _) = DeltaRun k t0 i dt ts"
| "durable (MTool t0 i dt cid nm args _) = ToolRun t0 i dt cid nm args"
| "durable (MRaw t c) = RawChunk t c"

definition snapshot :: "mutable_record list \<Rightarrow> stream_record list" where
  "snapshot rs = map durable rs"

section \<open>Validation and expansion\<close>

fun member_times_safe :: "int \<Rightarrow> int list \<Rightarrow> bool" where
  "member_times_safe t [] = True"
| "member_times_safe t (d # ds) = (safe_int (t + d) \<and> member_times_safe (t + d) ds)"

definition validate_run :: "int \<Rightarrow> int \<Rightarrow> int list \<Rightarrow> nat \<Rightarrow> stream_error + unit" where
  "validate_run t0 i dt members =
     (if \<not> safe_int t0 then Inl (UnsafeTime t0)
      else if \<not> safe_index i then Inl (UnsafeIndex i)
      else if \<not> list_all safe_int dt then Inl UnsafeGap
      else if int (length dt) \<noteq> int members - 1 then Inl GapCount
      else if \<not> member_times_safe t0 dt then Inl UnsafeMemberTime
      else Inr ())"

fun validate_record :: "stream_record \<Rightarrow> stream_error + unit" where
  "validate_record (DeltaRun k t0 i dt ts) =
     (if length ts = 0 then Inl NoMembers else validate_run t0 i dt (length ts))"
| "validate_record (ToolRun t0 i dt cid nm args) =
     (if length args = 0 then Inl NoMembers
      else if length cid = 0 then Inl EmptyCallId
      else if nm = Some [] then Inl EmptyCallName
      else validate_run t0 i dt (length args))"
| "validate_record (RawChunk t c) = (if \<not> safe_int t then Inl (UnsafeTime t) else Inr ())"

fun expand_members :: "('a \<Rightarrow> stream_chunk) \<Rightarrow> int \<Rightarrow> int list \<Rightarrow> 'a list \<Rightarrow> timed_chunk list" where
  "expand_members mk t dt [] = []"
| "expand_members mk t [] (m # ms) = (t, mk m) # expand_members mk t [] ms"
| "expand_members mk t (d # ds) (m # ms) = (t, mk m) # expand_members mk (t + d) ds ms"

fun delta_chunk :: "run_kind \<Rightarrow> int \<Rightarrow> string \<Rightarrow> stream_chunk" where
  "delta_chunk TextRun i t = TextDelta i t"
| "delta_chunk ReasoningRun i t = ReasoningDelta i t"

fun record_chunks :: "stream_record \<Rightarrow> timed_chunk list" where
  "record_chunks (DeltaRun k t0 i dt ts) = expand_members (delta_chunk k i) t0 dt ts"
| "record_chunks (ToolRun t0 i dt cid nm args) = expand_members (ToolCallDelta i cid nm) t0 dt args"
| "record_chunks (RawChunk t c) = [(t, c)]"

definition expand_assistant_stream :: "stream_record list \<Rightarrow> stream_error + timed_chunk list" where
  "expand_assistant_stream stream =
     foldE (\<lambda>cs r. bindE (validate_record r) (\<lambda>_. Inr (cs @ record_chunks r))) [] stream"

section \<open>Record-level readers\<close>

fun block_is_visible :: "content_block \<Rightarrow> bool" where
  "block_is_visible (ToolCallBlock _ _ _) = False"
| "block_is_visible (TextBlock t) = has_non_whitespace t"
| "block_is_visible (ReasoningBlock t) = has_non_whitespace t"
| "block_is_visible _ = True"

fun is_token_delta :: "stream_chunk \<Rightarrow> bool" where
  "is_token_delta (TextDelta _ t) = (t \<noteq> [])"
| "is_token_delta (ReasoningDelta _ t) = (t \<noteq> [])"
| "is_token_delta (ToolCallDelta _ _ nm arg) = (arg \<noteq> [] \<or> nm \<noteq> None)"
| "is_token_delta _ = False"

fun is_visible_chunk :: "stream_chunk \<Rightarrow> bool" where
  "is_visible_chunk (TextDelta _ t) = has_non_whitespace t"
| "is_visible_chunk (ReasoningDelta _ t) = has_non_whitespace t"
| "is_visible_chunk (BlockStart _ bt) = (bt \<noteq> ''text'' \<and> bt \<noteq> ''reasoning'' \<and> bt \<noteq> ''tool-call'')"
| "is_visible_chunk (BlockEnd _ b) = block_is_visible b"
| "is_visible_chunk _ = False"

fun chunk_has_visible_text :: "stream_chunk \<Rightarrow> bool" where
  "chunk_has_visible_text (TextDelta _ t) = has_non_whitespace t"
| "chunk_has_visible_text (BlockEnd _ (TextBlock t)) = has_non_whitespace t"
| "chunk_has_visible_text _ = False"

fun first_member_time :: "(string \<Rightarrow> bool) \<Rightarrow> int \<Rightarrow> int list \<Rightarrow> string list \<Rightarrow> int option" where
  "first_member_time P t dt [] = None"
| "first_member_time P t [] (m # ms) = (if P m then Some t else first_member_time P t [] ms)"
| "first_member_time P t (d # ds) (m # ms) =
     (if P m then Some t else first_member_time P (t + d) ds ms)"

fun run_first_token_time :: "stream_record \<Rightarrow> int option" where
  \<comment> \<open>of a packed run; a raw chunk is not one\<close>
  "run_first_token_time (ToolRun t0 i dt cid nm args) =
     (if nm \<noteq> None then Some t0 else first_member_time (\<lambda>f. f \<noteq> []) t0 dt args)"
| "run_first_token_time (DeltaRun k t0 i dt ts) = first_member_time (\<lambda>f. f \<noteq> []) t0 dt ts"
| "run_first_token_time (RawChunk t c) = None"

fun run_first_visible_time :: "stream_record \<Rightarrow> int option" where
  "run_first_visible_time (ToolRun t0 i dt cid nm args) = None"
| "run_first_visible_time (DeltaRun k t0 i dt ts) = first_member_time has_non_whitespace t0 dt ts"
| "run_first_visible_time (RawChunk t c) = None"

fun assistant_stream_first_token_time :: "stream_record list \<Rightarrow> int option" where
  "assistant_stream_first_token_time [] = None"
| "assistant_stream_first_token_time (r # rs) =
     (case (case r of RawChunk t c \<Rightarrow> if is_token_delta c then Some t else None
                    | _ \<Rightarrow> run_first_token_time r) of
        Some t \<Rightarrow> Some t
      | None \<Rightarrow> assistant_stream_first_token_time rs)"

definition assistant_stream_has_visible_content :: "stream_record list \<Rightarrow> bool" where
  "assistant_stream_has_visible_content stream =
     list_ex (\<lambda>r. case r of RawChunk t c \<Rightarrow> is_visible_chunk c
                           | _ \<Rightarrow> run_first_visible_time r \<noteq> None) stream"

definition assistant_stream_has_visible_text :: "stream_record list \<Rightarrow> bool" where
  "assistant_stream_has_visible_text stream =
     list_ex (\<lambda>r. case r of DeltaRun TextRun t0 i dt ts \<Rightarrow> list_ex has_non_whitespace ts
                           | RawChunk t c \<Rightarrow> chunk_has_visible_text c
                           | _ \<Rightarrow> False) stream"

fun chunk_type :: "stream_chunk \<Rightarrow> string" where
  "chunk_type (BlockStart _ _) = ''block-start''"
| "chunk_type (TextDelta _ _) = ''text-delta''"
| "chunk_type (ReasoningDelta _ _) = ''reasoning-delta''"
| "chunk_type (ToolCallDelta _ _ _ _) = ''tool-call-delta''"
| "chunk_type (BlockEnd _ _) = ''block-end''"
| "chunk_type (UsageChunk _) = ''usage''"
| "chunk_type (FinishChunk _ _) = ''finish''"

definition last_assistant_stream_chunk :: "stream_record list \<Rightarrow> string \<Rightarrow> stream_chunk option" where
  "last_assistant_stream_chunk stream ty =
     (case List.find (\<lambda>r. case r of RawChunk t c \<Rightarrow> chunk_type c = ty | _ \<Rightarrow> False) (rev stream) of
        Some (RawChunk t c) \<Rightarrow> Some c
      | _ \<Rightarrow> None)"

definition assistant_stream_chunks :: "stream_record list \<Rightarrow> string \<Rightarrow> stream_chunk list" where
  "assistant_stream_chunks stream ty =
     List.map_filter (\<lambda>r. case r of RawChunk t c \<Rightarrow> if chunk_type c = ty then Some c else None
                                  | _ \<Rightarrow> None) stream"

definition join_assistant_stream_text :: "stream_record list \<Rightarrow> string" where
  "join_assistant_stream_text stream =
     concat (map (\<lambda>r. case r of DeltaRun TextRun t0 i dt ts \<Rightarrow> concat ts
                               | RawChunk t (TextDelta i x) \<Rightarrow> x
                               | _ \<Rightarrow> []) stream)"

fun assemble_record :: "stream_record \<Rightarrow> block_assembler \<Rightarrow> block_assembler" where
  "assemble_record (RawChunk t c) a = ba_push c a"
| "assemble_record (DeltaRun k t0 i dt ts) a = ba_push (delta_chunk k i (concat ts)) a"
| "assemble_record (ToolRun t0 i dt cid nm args) a = ba_push (ToolCallDelta i cid nm (concat args)) a"

definition assemble_assistant_stream :: "stream_record list \<Rightarrow> block_assembler \<Rightarrow> block_assembler" where
  "assemble_assistant_stream stream a = foldl (\<lambda>a r. assemble_record r a) a stream"

section \<open>Lossless compaction\<close>

lemma expand_members_snoc:
  "length ms = Suc (length dt) \<Longrightarrow>
   expand_members mk t (dt @ [g]) (ms @ [m]) =
     expand_members mk t dt ms @ [(t + sum_list dt + g, mk m)]"
proof (induction dt arbitrary: t ms)
  case Nil
  then show ?case by (cases ms) auto
next
  case (Cons d dt)
  then show ?case by (cases ms) (auto simp: algebra_simps)
qed

lemma member_times_safe_snoc:
  "member_times_safe t (ds @ [d]) \<longleftrightarrow> member_times_safe t ds \<and> safe_int (t + sum_list ds + d)"
  by (induction ds arbitrary: t) (auto simp: algebra_simps)

lemma expand_assistant_stream_eq:
  "expand_assistant_stream stream = Inr cs \<longleftrightarrow>
   list_all (\<lambda>r. validate_record r = Inr ()) stream \<and> cs = concat (map record_chunks stream)"
  unfolding expand_assistant_stream_def
proof (induction stream arbitrary: cs rule: rev_induct)
  case (snoc r rs)
  then show ?case by (auto simp: foldE_append)
qed auto

fun mutable_ok :: "mutable_record \<Rightarrow> bool" where
  "mutable_ok (MDelta k t0 i dt ts lastTime) =
     (lastTime = t0 + sum_list dt \<and> validate_record (DeltaRun k t0 i dt ts) = Inr ())"
| "mutable_ok (MTool t0 i dt cid nm args lastTime) =
     (lastTime = t0 + sum_list dt \<and> validate_record (ToolRun t0 i dt cid nm args) = Inr ())"
| "mutable_ok (MRaw t c) = safe_int t"

lemma mutable_ok_valid: "mutable_ok r \<Longrightarrow> validate_record (durable r) = Inr ()"
  by (cases r) auto

lemma validate_run_eq_Inr:
  "validate_run t0 i dt n = Inr u \<longleftrightarrow> safe_int t0 \<and> safe_index i \<and> list_all safe_int dt
     \<and> n = Suc (length dt) \<and> member_times_safe t0 dt"
  by (auto simp: validate_run_def)

lemma snoc_cases: "last_opt rs = Some r \<Longrightarrow> rs = butlast rs @ [r]"
  by (auto simp: last_opt_eq_Some)

lemma list_all_last: "last_opt rs = Some r \<Longrightarrow> list_all P rs \<longleftrightarrow> list_all P (butlast rs) \<and> P r"
  by (auto simp: last_opt_eq_Some)

lemma push_delta_step:
  assumes "push_delta k rs time i t = Inr rs'" and "safe_int time" and "list_all mutable_ok rs"
  shows "list_all mutable_ok rs' \<and>
         concat (map record_chunks (snapshot rs')) =
           concat (map record_chunks (snapshot rs)) @ [(time, delta_chunk k i t)]"
proof (cases "\<exists>t0 dt ts lt. last_opt rs = Some (MDelta k t0 i dt ts lt) \<and> safe_int (time - lt)")
  case True
  then obtain t0 dt ts lt where l: "last_opt rs = Some (MDelta k t0 i dt ts lt)"
    and g: "safe_int (time - lt)" by blast
  note rs = snoc_cases[OF l]
  have ok: "mutable_ok (MDelta k t0 i dt ts lt)" and ok': "list_all mutable_ok (butlast rs)"
    using assms(3) list_all_last[OF l] by auto
  then have len: "length ts = Suc (length dt)" by (auto simp: validate_run_eq_Inr split: if_splits)
  have rs': "rs' = butlast rs @ [MDelta k t0 i (dt @ [time - lt]) (ts @ [t]) time]"
    using assms(1) l g by (auto simp: push_delta_def safe_gap_def split: if_splits)
  have "concat (map record_chunks (snapshot rs)) =
        concat (map record_chunks (snapshot (butlast rs))) @ expand_members (delta_chunk k i) t0 dt ts"
    by (subst rs) (simp add: snapshot_def)
  moreover have "list_all mutable_ok rs'"
    using ok ok' g assms(2) unfolding rs' by (auto simp: validate_run_eq_Inr member_times_safe_snoc split: if_splits)
  ultimately show ?thesis
    using ok by (simp add: rs' snapshot_def expand_members_snoc[OF len])
next
  case False
  then have "rs' = rs @ [MDelta k time i [] [t] time]" and "safe_index i"
    using assms(1) by (auto simp: push_delta_def safe_gap_def
        split: if_splits option.splits mutable_record.splits)
  then show ?thesis using assms(2,3) by (simp add: snapshot_def validate_run_def)
qed

lemma push_tool_step:
  assumes "push_tool rs time i cid nm arg = Inr rs'" and "safe_int time" and "list_all mutable_ok rs"
  shows "list_all mutable_ok rs' \<and>
         concat (map record_chunks (snapshot rs')) =
           concat (map record_chunks (snapshot rs)) @ [(time, ToolCallDelta i cid nm arg)]"
proof -
  have i: "safe_index i" using assms(1) by (auto simp: push_tool_def split: if_splits)
  consider (raw) "cid = [] \<or> nm = Some []"
    | (join) t0 dt args lt where "cid \<noteq> []" "nm \<noteq> Some []"
        "last_opt rs = Some (MTool t0 i dt cid nm args lt)" "safe_int (time - lt)"
    | (new) "cid \<noteq> []" "nm \<noteq> Some []"
        "rs' = rs @ [MTool time i [] cid nm [arg] time]"
    using assms(1) i by (fastforce simp: push_tool_def safe_gap_def
        split: if_splits option.splits mutable_record.splits)
  then show ?thesis
  proof cases
    case raw
    then have "rs' = rs @ [MRaw time (ToolCallDelta i cid nm arg)]"
      using assms(1) i by (auto simp: push_tool_def)
    then show ?thesis using assms(2,3) by (simp add: snapshot_def)
  next
    case join
    note rs = snoc_cases[OF join(3)]
    have ok: "mutable_ok (MTool t0 i dt cid nm args lt)" and ok': "list_all mutable_ok (butlast rs)"
      using assms(3) list_all_last[OF join(3)] by auto
    then have len: "length args = Suc (length dt)" by (auto simp: validate_run_eq_Inr split: if_splits)
    have rs': "rs' = butlast rs @ [MTool t0 i (dt @ [time - lt]) cid nm (args @ [arg]) time]"
      using assms(1) join i by (auto simp: push_tool_def safe_gap_def)
    have "concat (map record_chunks (snapshot rs)) =
        concat (map record_chunks (snapshot (butlast rs))) @ expand_members (ToolCallDelta i cid nm) t0 dt args"
      by (subst rs) (simp add: snapshot_def)
    moreover have "list_all mutable_ok rs'"
      using ok ok' join assms(2) unfolding rs'
      by (auto simp: validate_run_eq_Inr member_times_safe_snoc split: if_splits)
    ultimately show ?thesis
      using ok by (simp add: rs' snapshot_def expand_members_snoc[OF len])
  next
    case new
    then show ?thesis using assms(2,3) i by (simp add: snapshot_def validate_run_def)
  qed
qed

lemma acc_push_step:
  assumes "acc_push rs tc = Inr rs'" and "list_all mutable_ok rs"
  shows "list_all mutable_ok rs' \<and>
         concat (map record_chunks (snapshot rs')) = concat (map record_chunks (snapshot rs)) @ [tc]"
proof -
  obtain time chunk where tc: "tc = (time, chunk)" by fastforce
  have safe: "safe_int time" using assms(1) tc by (auto split: if_splits)
  show ?thesis
  proof (cases chunk)
    case (TextDelta i t)
    then show ?thesis using push_delta_step[of TextRun rs time i t rs'] assms tc safe by auto
  next
    case (ReasoningDelta i t)
    then show ?thesis using push_delta_step[of ReasoningRun rs time i t rs'] assms tc safe by auto
  next
    case (ToolCallDelta i cid nm arg)
    then show ?thesis using push_tool_step[of rs time i cid nm arg rs'] assms tc safe by auto
  qed (use assms tc safe in \<open>auto simp: snapshot_def\<close>)
qed

lemma accumulate_expand:
  assumes "foldE acc_push rs cs = Inr rs'" and "list_all mutable_ok rs"
  shows "list_all mutable_ok rs' \<and>
         concat (map record_chunks (snapshot rs')) = concat (map record_chunks (snapshot rs)) @ cs"
  using assms
proof (induction cs arbitrary: rs)
  case (Cons c cs)
  then obtain rs1 where 1: "acc_push rs c = Inr rs1" "foldE acc_push rs1 cs = Inr rs'" by auto
  from acc_push_step[OF 1(1) Cons.prems(2)] Cons.IH[OF 1(2)] show ?case by simp
qed simp

text \<open>C12: what the accumulator records, expansion gives back, chunk for chunk and time for time.\<close>

theorem expand_snapshot_roundtrip:
  assumes "foldE acc_push [] cs = Inr rs"
  shows "expand_assistant_stream (snapshot rs) = Inr cs"
proof -
  have "list_all mutable_ok rs" and "concat (map record_chunks (snapshot rs)) = cs"
    using accumulate_expand[OF assms] by (auto simp: snapshot_def)
  then show ?thesis
    by (auto simp: expand_assistant_stream_eq snapshot_def list_all_iff dest: mutable_ok_valid)
qed

definition ex_chunks :: "timed_chunk list" where
  "ex_chunks =
     [(10, BlockStart 0 ''text''), (12, TextDelta 0 []), (13, TextDelta 0 ''hi''),
      (15, ToolCallDelta 1 ''c1'' (Some ''ls'') ''{''), (15, ToolCallDelta 1 ''c1'' (Some ''ls'') ''}''),
      (16, ToolCallDelta 1 [] None ''x''), (17, FinishChunk Stop None)]"

definition ex_records :: "mutable_record list" where
  "ex_records =
     [MRaw 10 (BlockStart 0 ''text''), MDelta TextRun 12 0 [1] [[], ''hi''] 13,
      MTool 15 1 [0] ''c1'' (Some ''ls'') [''{'', ''}''] 15,
      MRaw 16 (ToolCallDelta 1 [] None ''x''), MRaw 17 (FinishChunk Stop None)]"

lemma ex_accumulate: "foldE acc_push [] ex_chunks = Inr ex_records"
  by (simp add: ex_chunks_def ex_records_def push_delta_def push_tool_def safe_index_def
      safe_int_def max_safe_def safe_gap_def last_opt_def)

theorem expand_snapshot_roundtrip_witness:
  "length (snapshot ex_records) = 5 \<and> expand_assistant_stream (snapshot ex_records) = Inr ex_chunks"
  using expand_snapshot_roundtrip[OF ex_accumulate] by (simp add: snapshot_def ex_records_def)

lemma ex_expand: "expand_assistant_stream (snapshot ex_records) = Inr ex_chunks"
  by (simp add: expand_assistant_stream_def ex_records_def ex_chunks_def snapshot_def
      validate_run_def safe_index_def safe_int_def max_safe_def)

section \<open>Record-level readers agree with the chunks\<close>

fun find_time :: "(stream_chunk \<Rightarrow> bool) \<Rightarrow> timed_chunk list \<Rightarrow> int option" where
  "find_time P [] = None"
| "find_time P ((t, c) # cs) = (if P c then Some t else find_time P cs)"

lemma find_time_append:
  "find_time P (xs @ ys) = (case find_time P xs of None \<Rightarrow> find_time P ys | Some t \<Rightarrow> Some t)"
  by (induction xs) auto

lemma find_time_eq_None: "find_time P cs = None \<longleftrightarrow> \<not> list_ex (\<lambda>(t, c). P c) cs"
  by (induction P cs rule: find_time.induct) auto

lemma find_time_members:
  "find_time P (expand_members mk t dt ms) = first_member_time (\<lambda>m. P (mk m)) t dt ms"
  by (induction mk t dt ms rule: expand_members.induct) auto

lemma first_member_time_cong:
  "(\<And>m. m \<in> set ms \<Longrightarrow> P m = Q m) \<Longrightarrow> first_member_time P t dt ms = first_member_time Q t dt ms"
  by (induction P t dt ms rule: first_member_time.induct) auto

lemma first_member_time_eq_None: "first_member_time P t dt ms = None \<longleftrightarrow> (\<forall>m \<in> set ms. \<not> P m)"
  by (induction P t dt ms rule: first_member_time.induct) auto

lemma first_member_time_hd:
  "ms \<noteq> [] \<Longrightarrow> (\<And>m. P m) \<Longrightarrow> first_member_time P t dt ms = Some t"
  by (cases "(P, t, dt, ms)" rule: first_member_time.cases) auto

lemma delta_chunk_readers [simp]:
  "is_token_delta (delta_chunk k i t) \<longleftrightarrow> t \<noteq> []"
  "is_visible_chunk (delta_chunk k i t) \<longleftrightarrow> has_non_whitespace t"
  "chunk_has_visible_text (delta_chunk k i t) \<longleftrightarrow> k = TextRun \<and> has_non_whitespace t"
  by (cases k; simp)+

lemma record_token_time:
  assumes "validate_record r = Inr ()"
  shows "find_time is_token_delta (record_chunks r) =
         (case r of RawChunk t c \<Rightarrow> if is_token_delta c then Some t else None
                    | _ \<Rightarrow> run_first_token_time r)"
proof (cases r)
  case (ToolRun t0 i dt cid nm args)
  then have "args \<noteq> []" using assms by auto
  then show ?thesis using ToolRun
    by (cases nm) (auto simp: find_time_members intro: first_member_time_hd)
qed (auto simp: find_time_members)

lemma record_visible_time:
  "find_time is_visible_chunk (record_chunks r) =
     (case r of RawChunk t c \<Rightarrow> if is_visible_chunk c then Some t else None
                | _ \<Rightarrow> run_first_visible_time r)"
  by (cases r) (auto simp: find_time_members first_member_time_eq_None)

lemma list_ex_strings: "list_ex P (xs :: string list) \<longleftrightarrow> (\<exists>x \<in> set xs. P x)"
  by (rule list_ex_iff)

lemma list_ex_expand_members:
  "list_ex (\<lambda>(t, c). P c) (expand_members mk t dt ms) \<longleftrightarrow> (\<exists>m \<in> set ms. P (mk m))"
  by (induction mk t dt ms rule: expand_members.induct) auto

text \<open>The first-token time read from the compact records is the time of the first chunk, in
  expanded order, that carries a token: the readers may stop at a record without unpacking it.\<close>

theorem first_token_time_correct:
  assumes "expand_assistant_stream stream = Inr cs"
  shows "assistant_stream_first_token_time stream = find_time is_token_delta cs"
proof -
  have "list_all (\<lambda>r. validate_record r = Inr ()) stream" and cs: "cs = concat (map record_chunks stream)"
    using assms by (simp_all add: expand_assistant_stream_eq)
  then show ?thesis unfolding cs
    by (induction stream) (simp_all add: find_time_append record_token_time split: option.splits)
qed

theorem first_token_time_correct_witness:
  "assistant_stream_first_token_time (snapshot ex_records) = find_time is_token_delta ex_chunks
   \<and> find_time is_token_delta ex_chunks = Some 13"
  using first_token_time_correct[OF ex_expand] by (simp add: ex_chunks_def)

text \<open>the visibility readers of a valid compact stream answer what a scan of its expanded
  chunks answers, for any visible content and for visible text.\<close>

theorem visibility_readers_correct:
  assumes "expand_assistant_stream stream = Inr cs"
  shows "assistant_stream_has_visible_content stream = list_ex (\<lambda>(t, c). is_visible_chunk c) cs
       \<and> assistant_stream_has_visible_text stream = list_ex (\<lambda>(t, c). chunk_has_visible_text c) cs"
proof -
  have cs: "cs = concat (map record_chunks stream)"
    using assms by (simp add: expand_assistant_stream_eq)
  have content: "(case r of RawChunk t c \<Rightarrow> is_visible_chunk c | _ \<Rightarrow> run_first_visible_time r \<noteq> None)
        \<longleftrightarrow> list_ex (\<lambda>(t, c). is_visible_chunk c) (record_chunks r)" for r
    by (cases r) (auto simp: first_member_time_eq_None list_ex_expand_members)
  have vtext: "(case r of DeltaRun TextRun t0 i dt ts \<Rightarrow> list_ex has_non_whitespace ts
                 | RawChunk t c \<Rightarrow> chunk_has_visible_text c | _ \<Rightarrow> False)
        \<longleftrightarrow> list_ex (\<lambda>(t, c). chunk_has_visible_text c) (record_chunks r)" for r
    by (cases r) (auto simp: list_ex_expand_members list_ex_strings split: run_kind.splits)
  have concat_ex: "list_ex P (concat (map f xs)) \<longleftrightarrow> list_ex (\<lambda>x. list_ex P (f x)) xs"
    for P and f :: "stream_record \<Rightarrow> timed_chunk list" and xs
    by (induction xs) auto
  show ?thesis
    unfolding cs assistant_stream_has_visible_content_def assistant_stream_has_visible_text_def
      content vtext concat_ex by simp
qed

theorem visibility_readers_correct_witness:
  "assistant_stream_has_visible_content (snapshot ex_records)
   \<and> assistant_stream_has_visible_text (snapshot ex_records)"
  using visibility_readers_correct[OF ex_expand]
  by (simp add: ex_chunks_def has_non_whitespace_def js_space_def)

section \<open>Assembling compact records\<close>

definition push_all :: "timed_chunk list \<Rightarrow> block_assembler \<Rightarrow> block_assembler" where
  "push_all cs a = foldl (\<lambda>a (t, c). ba_push c a) a cs"

lemma push_all_simps [simp]:
  "push_all [] a = a"
  "push_all (tc # cs) a = push_all cs (ba_push (snd tc) a)"
  "push_all (xs @ ys) a = push_all ys (push_all xs a)"
  by (simp_all add: push_all_def split_beta)

lemma map_entry_twice: "AList.map_entry k g (AList.map_entry k f xs) = AList.map_entry k (g \<circ> f) xs"
  by (induction xs) auto

lemma map_entry_cong: "(\<And>v. f v = g v) \<Longrightarrow> AList.map_entry k f xs = AList.map_entry k g xs"
  by (induction xs) auto

lemma ensure_present: "map_of (ba_partials a) i \<noteq> None \<Longrightarrow> ensure i bt a = a"
  by (auto simp: ensure_def)

lemma ensure_has: "map_of (ba_partials (ensure i bt a)) i \<noteq> None"
  by (auto simp: ensure_def update_conv' split: option.splits)

lemma modify_partial_twice:
  assumes "\<And>p. pb_block (f p) = pb_block p"
  shows "modify_partial i bt g (modify_partial i bt f a) = modify_partial i bt (\<lambda>p. g (f p)) a"
proof -
  have present: "map_of (ba_partials (modify_partial i bt f a)) i \<noteq> None"
    using ensure_has[of i bt a] by (simp add: modify_partial_def Let_def map_of_map_entry_None)
  have "AList.map_entry i (on_open g) (AList.map_entry i (on_open f) xs) =
        AList.map_entry i (on_open (\<lambda>p. g (f p))) xs" for xs
    unfolding map_entry_twice by (rule map_entry_cong) (simp add: on_open_def assms)
  then show ?thesis
    using ensure_present[OF present] by (simp add: modify_partial_def[of _ _ g] Let_def)
       (simp add: modify_partial_def Let_def)
qed

lemma push_delta_twice:
  "ba_push (delta_chunk k i (s @ t)) a = ba_push (delta_chunk k i t) (ba_push (delta_chunk k i s) a)"
  by (cases k) (simp_all add: modify_partial_twice)

lemma push_tool_twice:
  "ba_push (ToolCallDelta i cid nm (s @ t)) a =
   ba_push (ToolCallDelta i cid nm t) (ba_push (ToolCallDelta i cid nm s) a)"
  by (simp add: modify_partial_twice) (rule arg_cong[of _ _ "\<lambda>f. modify_partial i _ f a"],
      auto split: option.splits)

lemma push_members:
  assumes twice: "\<And>s t a. ba_push (mk (s @ t)) a = ba_push (mk t) (ba_push (mk s) a)" and "ms \<noteq> []"
  shows "push_all (expand_members mk t dt ms) a = ba_push (mk (concat ms)) a"
  using assms(2)
proof (induction ms arbitrary: t dt a)
  case (Cons m ms)
  show ?case
  proof (cases "ms = []")
    case True
    then show ?thesis by (cases dt) auto
  next
    case False
    then show ?thesis using Cons.IH twice by (cases dt) auto
  qed
qed simp

lemma assemble_record_eq:
  assumes "validate_record r = Inr ()"
  shows "assemble_record r a = push_all (record_chunks r) a"
proof (cases r)
  case (DeltaRun k t0 i dt ts)
  then have "ts \<noteq> []" using assms by auto
  with DeltaRun show ?thesis using push_members[of "delta_chunk k i" ts] push_delta_twice by simp
next
  case (ToolRun t0 i dt cid nm args)
  then have "args \<noteq> []" using assms by auto
  with ToolRun show ?thesis
    using push_members[of "ToolCallDelta i cid nm" args] push_tool_twice
    by (simp del: ba_push.simps)
qed simp

text \<open>C13: feeding an assembler one joined delta per packed run reaches exactly the state that
  pushing every original chunk reaches, from any assembler state.\<close>

theorem assemble_compact_eq_chunks:
  assumes "expand_assistant_stream stream = Inr cs"
  shows "assemble_assistant_stream stream a = push_all cs a"
proof -
  have "list_all (\<lambda>r. validate_record r = Inr ()) stream" and cs: "cs = concat (map record_chunks stream)"
    using assms by (simp_all add: expand_assistant_stream_eq)
  then show ?thesis unfolding cs assemble_assistant_stream_def
    by (induction stream arbitrary: a) (simp_all add: assemble_record_eq)
qed

theorem assemble_compact_eq_chunks_witness:
  "assemble_assistant_stream (snapshot ex_records) new_assembler = push_all ex_chunks new_assembler
   \<and> blocks (push_all ex_chunks new_assembler) =
      Inr [TextBlock ''hi'', ToolCallBlock [] ''ls'' ''{}x'']"
  using assemble_compact_eq_chunks[OF ex_expand]
  by (simp add: ex_chunks_def new_assembler_def ensure_def modify_partial_def new_partial_def
      on_open_def blocks_def assembled_def must_get_def assemble_def finish_def)

section \<open>The assembler's blocks\<close>

definition asm_wf :: "block_assembler \<Rightarrow> bool" where
  \<comment> \<open>the order lists the partials' indices, in the partials' insertion order\<close>
  "asm_wf a \<longleftrightarrow> map fst (ba_partials a) = ba_order a \<and> distinct (ba_order a)"

lemma asm_wf_ensure: "asm_wf a \<Longrightarrow> asm_wf (ensure i bt a)"
  unfolding asm_wf_def ensure_def
  by (auto split: option.splits simp: map_fst_update_new) (metis map_of_eq_None_iff list.set_map)

lemma asm_wf_modify: "asm_wf a \<Longrightarrow> asm_wf (modify_partial i bt f a)"
  using asm_wf_ensure[of a i bt] by (simp add: modify_partial_def Let_def asm_wf_def)

lemma asm_wf_push: "asm_wf a \<Longrightarrow> asm_wf (ba_push c a)"
proof (induction c a rule: ba_push.induct)
  case (6 u a) then show ?case by (simp add: asm_wf_def)
next
  case (7 r e a) then show ?case by (simp add: asm_wf_def)
qed (simp_all only: ba_push.simps asm_wf_ensure asm_wf_modify)

lemma asm_wf_push_all: "asm_wf a \<Longrightarrow> asm_wf (push_all cs a)"
  by (induction cs arbitrary: a) (simp_all add: asm_wf_push)

lemma asm_wf_new: "asm_wf new_assembler"
  by (simp add: asm_wf_def new_assembler_def)

lemma must_get_wf: "asm_wf a \<Longrightarrow> i \<in> set (ba_order a) \<Longrightarrow> \<exists>p. must_get a i = Inr p"
  unfolding asm_wf_def must_get_def
  by (cases "map_of (ba_partials a) i") (auto simp: map_of_eq_None_iff dest: arg_cong[of _ _ set])

text \<open>On every assembler reached by pushing chunks, reading the blocks can fail only on a
  block of an unknown type that was never closed: the index bookkeeping never breaks.\<close>

theorem assembled_only_incomplete:
  "asm_wf (push_all cs new_assembler) \<and>
   (case assembled (push_all cs new_assembler) of
      Inl (IncompleteBlock ty) \<Rightarrow> ty \<notin> {''text'', ''reasoning'', ''tool-call''}
    | Inl (NoPartial i) \<Rightarrow> False
    | Inr r \<Rightarrow> True)"
proof -
  let ?a = "push_all cs new_assembler"
  have wf: "asm_wf ?a" by (intro asm_wf_push_all asm_wf_new)
  have "e = IncompleteBlock ty \<Longrightarrow> ty \<notin> {''text'', ''reasoning'', ''tool-call''}"
    and "e \<noteq> NoPartial i" if "assembled ?a = Inl e" for e ty i
  proof -
    have "\<exists>j \<in> set (ba_order ?a). bindE (must_get ?a j) (\<lambda>p. assemble p j) = Inl e"
      using that by (fastforce simp: assembled_def bindE_eq_Inl Let_def dest!: mapE_Inl)
    then obtain j p where "assemble p j = Inl e"
      using must_get_wf[OF wf] by (metis bindE_simps(2))
    then show "e = IncompleteBlock ty \<Longrightarrow> ty \<notin> {''text'', ''reasoning'', ''tool-call''}"
      and "e \<noteq> NoPartial i"
      by (auto simp: assemble_def split: option.splits if_splits)
  qed
  then show ?thesis using wf by (auto split: sum.splits assembler_error.splits)
qed

lemma select_set: "x \<in> set (select (map P ys) ys) \<Longrightarrow> P x"
  by (simp add: select_map_filter)

text \<open>Whatever was pushed, the blocks and the replay metadata an assembler emits agree: a
  response cut by the token limit carries no tool call, and per-block replay entries that are
  emitted are as many as the blocks.\<close>

theorem assembled_aligned:
  assumes "assembled a = Inr (bs, replay)"
  shows "(finish a = MaxTokens \<longrightarrow> \<not> list_ex is_tool_call bs) \<and>
         (\<forall>env ebs. replay = Some env \<longrightarrow> envelope_blocks env = Some ebs \<longrightarrow> length ebs = length bs)"
proof -
  obtain all where m: "mapE (\<lambda>i. bindE (must_get a i) (\<lambda>p. assemble p i)) (ba_order a) = Inr all"
    using assms by (auto simp: assembled_def)
  show ?thesis
  proof (cases "finish a = MaxTokens")
    case True
    then show ?thesis
      using assms by (auto simp: assembled_def m Let_def select_map_filter list_ex_iff length_select
          filter_map o_def split: option.splits if_splits)
  next
    case False
    then show ?thesis
      using assms by (auto simp: assembled_def m Let_def split: option.splits if_splits)
  qed
qed

definition ex_cut :: block_assembler where
  "ex_cut = push_all
     [(0, TextDelta 0 ''a''), (0, ToolCallDelta 1 ''c'' (Some ''ls'') ''{''),
      (0, FinishChunk MaxTokens (Some \<lparr>envelope_response = JNull, envelope_blocks = Some [JInt 1, JInt 2]\<rparr>))]
     new_assembler"

lemma ex_cut_assembled:
  "assembled ex_cut =
     Inr ([TextBlock ''a''], Some \<lparr>envelope_response = JNull, envelope_blocks = Some [JInt 1]\<rparr>)"
  by (simp add: ex_cut_def new_assembler_def ensure_def modify_partial_def new_partial_def
      on_open_def assembled_def must_get_def assemble_def finish_def Let_def)

theorem assembled_aligned_witness:
  "finish ex_cut = MaxTokens \<and> \<not> list_ex is_tool_call [TextBlock ''a''] \<and> length [JInt 1] = length [TextBlock ''a'']"
  using assembled_aligned[OF ex_cut_assembled]
  by (simp add: ex_cut_def finish_def new_assembler_def modify_partial_def ensure_def Let_def)

text \<open>The prefix kept from an interrupted stream can always be read, and it holds only text and
  reasoning blocks with visible content: no tool call survives an interruption.\<close>

theorem interrupted_blocks_safe:
  "\<exists>bs. interrupted_blocks (push_all cs new_assembler) = Inr bs \<and>
     list_all (\<lambda>b. block_type b \<in> {''text'', ''reasoning''} \<and> block_is_visible b) bs"
proof -
  let ?a = "push_all cs new_assembler"
  have wf: "asm_wf ?a" by (intro asm_wf_push_all asm_wf_new)
  have part: "bindE (must_get ?a i) (\<lambda>p.
              let ty = (case pb_block p of Some b \<Rightarrow> block_type b | None \<Rightarrow> pb_block_type p)
              in if ty \<noteq> ''text'' \<and> ty \<noteq> ''reasoning'' then Inr None
                 else bindE (assemble p i) (\<lambda>b. Inr (Some b))) \<noteq> Inl e"
    if "i \<in> set (ba_order ?a)" for i e
  proof -
    obtain p where "must_get ?a i = Inr p" using must_get_wf[OF wf \<open>i \<in> set (ba_order ?a)\<close>] by blast
    then show ?thesis by (cases "pb_block p") (simp_all add: assemble_def Let_def)
  qed
  have "interrupted_blocks ?a = Inl e \<Longrightarrow> False" for e
    unfolding interrupted_blocks_def using part
    by (subst (asm) bindE_eq_Inl) (blast dest: mapE_Inl)
  then obtain bs where bs: "interrupted_blocks ?a = Inr bs" by (cases "interrupted_blocks ?a") auto
  moreover have "list_all (\<lambda>b. block_type b \<in> {''text'', ''reasoning''} \<and> block_is_visible b) bs"
    using bs by (auto simp: interrupted_blocks_def list_all_iff elim!: keep_prose.elims split: if_splits)
  ultimately show ?thesis by blast
qed

end
