(* ===== verification/SessionTypes.thy ===== *)
theory SessionTypes imports AssistantStream begin

text \<open>
  The event vocabulary of a Session log (\<open>packages/core/session/src/types.ts\<close>): the storage header,
  the request header and context snapshots, and one constructor per event type whose payload the
  modelled code reads. Every other event type of the log is \<open>Other\<close> with its name and its JSON
  payload. Positions in the log are natural numbers; the surface marker and the cited sources of a
  stored event are read as values of unknown shape, so they are JSON.
\<close>

section \<open>Headers\<close>

record session_header =
  sh_version :: int
  sh_id :: string
  sh_created_at :: int
  sh_cwd :: "string option"
  sh_parent_session :: "string option"
  sh_is_seeded :: bool
  sh_origin_subagent :: bool
  sh_delegation_depth :: "int option"
  sh_agent_preset :: "string option"

definition session_format_version :: int where
  "session_format_version = 6"

record epoch_header =
  eh_config :: call_config
  eh_adapter_defaults :: "adapter_defaults option"
  eh_tools :: "tool_schema list option"
  eh_system :: "json option"  \<comment> \<open>retired; its presence is rejected\<close>

record request_context =
  rc_provider :: string
  rc_model :: string
  rc_context_window :: "int option"
  rc_system_prompt_update :: "string option"

datatype header_reason = InitialHeader | ResumeHeader | ChangeHeader | SeriesHeader

section \<open>Why a turn ended\<close>

datatype cancel_cause =
    CausedByUser
  | CausedByParent
  | CausedByHook string
  | CausedByDispose
  | CausedByLegacy

datatype turn_end_reason =
    Completed
  | TurnAborted cancel_cause
  | Blocked
  | TurnFailed llm_failure
  | TurnMaxTokens
  | Interrupted
  | Forked

section \<open>Events\<close>

datatype inbox_target = NextTurn | NextStep

record inbox_splice =
  sp_target :: inbox_target
  sp_start :: int
  sp_removed_count :: "int option"
  sp_inserted :: "message list"
  sp_canceled :: bool  \<comment> \<open>\<open>outcome: 'canceled'\<close>\<close>

record tool_error =
  te_name :: string
  te_code :: string
  te_reason :: "string option"

record compaction_summary =
  \<comment> \<open>\<open>compaction/summary\<close> of \<open>packages/compaction/compaction/src/types.ts\<close>\<close>
  cs_compaction_id :: string
  cs_source_command_id :: "string option"
  cs_summary :: "content_block list"
  cs_raw_output :: "content_block list option"
  cs_llm_stream_call :: bool
  cs_shadowed_range :: "nat \<times> nat"
  cs_shadowed_seqs :: "nat list"
  cs_shadowed_token_count :: int
  cs_provider :: string
  cs_model :: string
  cs_max_tokens :: "int option"
  cs_usage :: "token_usage option"

datatype event_data =
    TurnStart nat
  | TurnEnd nat turn_end_reason
  | StepStart nat nat
  | StepEnd nat nat
  | UserMessage message
  | DeveloperMessage nat nat message "json option"  \<comment> \<open>with \<open>headerSeq\<close>\<close>
  | SystemMessage nat nat message
  | AssistantMessage nat nat message "stream_record list" "token_usage option" bool
  | AssistantAttempt nat nat "stream_record list"
  | ToolCall nat nat string string string            \<comment> \<open>call id, name, arguments\<close>
  | ToolResult nat nat message "tool_error option" "json option"
  | RequestHeader epoch_header header_reason bool     \<comment> \<open>\<open>startsSeries\<close>\<close>
  | RequestContext request_context
  | EndSeed bool                                      \<comment> \<open>\<open>inherited\<close>\<close>
  | InboxSpliced inbox_splice
  | GoalChange json
  | ImageOffload json
  | CompactionStart string "string option" "nat option"                  \<comment> \<open>with \<open>sourceCommandId\<close> and the owning turn\<close>
  | CompactionSummary compaction_summary
  | CompactionEnd string "string option" "nat option" "string option"    \<comment> \<open>with the rendered \<open>error\<close>\<close>
  | CompactionPrune "nat \<times> nat" "nat list" int                            \<comment> \<open>\<open>shadowedRange\<close>, \<open>shadowedSeqs\<close>, \<open>shadowedTokenCount\<close>\<close>
  | Other string json

fun event_type :: "event_data \<Rightarrow> string" where
  "event_type (TurnStart _) = ''turn/start''"
| "event_type (TurnEnd _ _) = ''turn/end''"
| "event_type (StepStart _ _) = ''step/start''"
| "event_type (StepEnd _ _) = ''step/end''"
| "event_type (UserMessage _) = ''user/message''"
| "event_type (DeveloperMessage _ _ _ _) = ''developer/message''"
| "event_type (SystemMessage _ _ _) = ''system/message''"
| "event_type (AssistantMessage _ _ _ _ _ _) = ''assistant/message''"
| "event_type (AssistantAttempt _ _ _) = ''assistant/attempt''"
| "event_type (ToolCall _ _ _ _ _) = ''tool/call''"
| "event_type (ToolResult _ _ _ _ _) = ''tool/result''"
| "event_type (RequestHeader _ _ _) = ''request/header''"
| "event_type (RequestContext _) = ''request/context''"
| "event_type (EndSeed _) = ''session/end-seed''"
| "event_type (InboxSpliced _) = ''agent/inbox/spliced''"
| "event_type (GoalChange _) = ''goal/change''"
| "event_type (ImageOffload _) = ''image/offload''"
| "event_type (CompactionStart _ _ _) = ''compaction/start''"
| "event_type (CompactionSummary _) = ''compaction/summary''"
| "event_type (CompactionEnd _ _ _ _) = ''compaction/end''"
| "event_type (CompactionPrune _ _ _) = ''compaction/prune''"
| "event_type (Other ty _) = ty"

record session_event =
  ev_seq :: nat
  ev_time :: int
  ev_data :: event_data
  ev_surface_op :: "json option"
  ev_source_event_seqs :: "json option"
  ev_ignorable :: bool

definition log_only :: "nat \<Rightarrow> int \<Rightarrow> event_data \<Rightarrow> session_event" where
  \<comment> \<open>an event without surface metadata\<close>
  "log_only n t d = \<lparr>ev_seq = n, ev_time = t, ev_data = d, ev_surface_op = None,
     ev_source_event_seqs = None, ev_ignorable = False\<rparr>"

definition contiguous :: "session_event list \<Rightarrow> bool" where
  \<comment> \<open>every event sits at the position it names\<close>
  "contiguous events \<longleftrightarrow> map ev_seq events = [0 ..< length events]"

lemma contiguous_Nil [simp]: "contiguous []"
  by (simp add: contiguous_def)

lemma contiguous_snoc [simp]: "contiguous (es @ [e]) \<longleftrightarrow> contiguous es \<and> ev_seq e = length es"
  by (auto simp: contiguous_def)

lemma contiguous_nth: "contiguous es \<Longrightarrow> i < length es \<Longrightarrow> ev_seq (es ! i) = i"
  unfolding contiguous_def by (metis add_0 diff_zero nth_map nth_upt)

lemma contiguous_append:
  "contiguous (xs @ ys) \<longleftrightarrow> contiguous xs \<and> map ev_seq ys = [length xs ..< length xs + length ys]"
  by (auto simp: contiguous_def upt_add_eq_append[of 0])

lemma contiguous_take: "contiguous es \<Longrightarrow> contiguous (take n es)"
  by (metis append_take_drop_id contiguous_append)

section \<open>Surface eligibility\<close>

text \<open>
  The message-producing event types. \<open>Other\<close> stands for event types without a constructor of
  their own, which are not among them.
\<close>

fun is_surface_eligible_type :: "event_data \<Rightarrow> bool" where
  "is_surface_eligible_type (SystemMessage _ _ _) = True"
| "is_surface_eligible_type (DeveloperMessage _ _ _ _) = True"
| "is_surface_eligible_type (UserMessage _) = True"
| "is_surface_eligible_type (AssistantMessage _ _ _ _ _ _) = True"
| "is_surface_eligible_type (ToolResult _ _ _ _ _) = True"
| "is_surface_eligible_type _ = False"

definition is_surface_event :: "session_event \<Rightarrow> bool" where
  "is_surface_event e \<longleftrightarrow> is_surface_eligible_type (ev_data e) \<and> ev_surface_op e \<noteq> None"

definition is_append_surface_event :: "session_event \<Rightarrow> bool" where
  "is_append_surface_event e \<longleftrightarrow> is_surface_event e \<and> ev_surface_op e = Some (JStr ''append'')"

definition is_replacement_surface_event :: "session_event \<Rightarrow> bool" where
  "is_replacement_surface_event e \<longleftrightarrow> is_surface_event e \<and> ev_surface_op e \<noteq> Some (JStr ''append'')"

definition known_session_event_types :: "string list" where
  "known_session_event_types =
     [''agent-preset/selected'', ''agent/inbox/spliced'', ''approval/asked'', ''approval/decided'',
      ''approval/policy'', ''assistant/attempt'', ''assistant/message'', ''command/done'',
      ''command/run'', ''compaction/end'', ''compaction/prune'', ''compaction/start'',
      ''compaction/summary'', ''deliverables/presented'', ''developer/message'',
      ''feedback/message-delete'', ''feedback/message-put'', ''feedback/record'', ''goal/change'',
      ''hook/invoked'', ''hook/result'', ''image/offload'', ''job/registered'', ''job/settled'',
      ''llm/retry'', ''llm/retry-started'', ''model/selection'', ''permission/preset'', ''plan/mode'',
      ''request/context'', ''request/header'', ''sandbox/mode'', ''schedule/change'',
      ''session-log-deepseek/delivery-accepted'', ''session/end-seed'', ''session/title'',
      ''session/title-llm-request'', ''step/end'', ''step/start'', ''subagent/catalog'',
      ''subagent/descriptor'', ''subagent/model-selection-policy'', ''system/message'',
      ''team/member'', ''team/message/delivered'', ''team/message/queued'', ''team/task'',
      ''todo/write'', ''tool-workflow/agent-end'', ''tool-workflow/agent-start'',
      ''tool-workflow/run-end'', ''tool-workflow/run-start'', ''tool/call'', ''tool/ptc-dispatch'',
      ''tool/ptc-dispatch-start'', ''tool/result'', ''turn/end'', ''turn/start'', ''user/message'',
      ''web/deepseek-search-llm-request'', ''working-directory/change'', ''workspace/changes'']"

fun needs_message_projection :: "event_data \<Rightarrow> bool" where
  \<comment> \<open>\<open>MESSAGE_PROJECTION_EVENT_TYPES\<close>\<close>
  "needs_message_projection (ImageOffload _) = True"
| "needs_message_projection _ = False"

end
