(* ===== verification/ImageOffload.thy ===== *)
theory ImageOffload imports SessionTypes begin

text \<open>
  Permanent omission of input images (\<open>packages/compaction/compaction-image-offload/src\<close>): the
  projection that interprets an \<open>image/offload\<close> event (\<open>projection.ts\<close>), its application to one
  message (\<open>project-message.ts\<close>), and the selection of the oldest retained images that writes such
  an event (\<open>image-offload.ts\<close>). The lemmas characterise the application by the flags of the
  message's images and show that the projection accepts every selection.
\<close>

section \<open>Application to one message\<close>

datatype image_error =
    BadOffloadData
  | BadTarget
  | DuplicateTarget nat
  | NotCurrentNode nat
  | NotInputMessage nat
  | BadImageIndex
  | AlreadyOffloaded nat
  | NoSuchImage nat

text \<open>The list argument holds the selected indexes not met yet, \<open>indexes.slice(selected)\<close>.\<close>

fun offload_visit :: "nat list \<Rightarrow> nat \<Rightarrow> content_block list \<Rightarrow> image_error + nat list \<times> content_block list" where
  "offload_visit todo k [] = Inr (todo, [])"
| "offload_visit todo k (ImageBlock a off # bs) =
     (if nth_opt todo 0 = Some k
      then if off then Inl (AlreadyOffloaded k)
           else bindE (offload_visit (tl todo) (Suc k) bs) (\<lambda>(r, cs). Inr (r, ImageBlock a True # cs))
      else bindE (offload_visit todo (Suc k) bs) (\<lambda>(r, cs). Inr (r, ImageBlock a off # cs)))"
| "offload_visit todo k (b # bs) = bindE (offload_visit todo k bs) (\<lambda>(r, cs). Inr (r, b # cs))"

definition offload_message_images :: "message \<Rightarrow> nat list \<Rightarrow> image_error + message" where
  "offload_message_images m indexes =
     bindE (offload_visit indexes 0 (msg_content m)) (\<lambda>(rest, content).
       case rest of i # _ \<Rightarrow> Inl (NoSuchImage i) | [] \<Rightarrow> Inr (m\<lparr>msg_content := content\<rparr>))"

section \<open>The projection\<close>

definition event_in_window :: "session_event list \<Rightarrow> nat \<Rightarrow> nat \<Rightarrow> session_event option" where
  \<comment> \<open>\<open>events[seq - baseSeq]\<close>\<close>
  "event_in_window events base n = (if base \<le> n then nth_opt events (n - base) else None)"

fun input_message :: "event_data \<Rightarrow> message option" where
  \<comment> \<open>the message of a \<open>user/message\<close> or \<open>tool/result\<close>\<close>
  "input_message (UserMessage m) = Some m"
| "input_message (ToolResult _ _ m _ _) = Some m"
| "input_message _ = None"

fun increasing_indexes :: "int \<Rightarrow> json list \<Rightarrow> bool" where
  "increasing_indexes previous [] = True"
| "increasing_indexes previous (v # vs) =
     (is_event_seq v \<and> int (seq_of v) > previous \<and> increasing_indexes (int (seq_of v)) vs)"

definition project_target ::
  "nat list \<Rightarrow> session_event list \<Rightarrow> nat \<Rightarrow> (nat \<times> message) list
   \<Rightarrow> (nat \<times> message) list \<Rightarrow> json \<Rightarrow> image_error + (nat \<times> message) list" where
  "project_target nodes events base messages acc target =
     (case (fld target ''seq'', fld target ''imageIndexes'') of
        (Some sv, Some (JArr ixs)) \<Rightarrow>
          if \<not> is_record target \<or> length (obj_keys target) \<noteq> 2 \<or> \<not> is_event_seq sv \<or> ixs = []
          then Inl BadTarget
          else let n = seq_of sv in
            if map_of acc n \<noteq> None then Inl (DuplicateTarget n)
            else if n \<notin> set nodes then Inl (NotCurrentNode n)
            else (case bindO (event_in_window events base n) (\<lambda>e. input_message (ev_data e)) of
                None \<Rightarrow> Inl (NotInputMessage n)
              | Some original \<Rightarrow>
                  if \<not> increasing_indexes (-1) ixs then Inl BadImageIndex
                  else bindE (offload_message_images
                         (case map_of messages n of Some m \<Rightarrow> m | None \<Rightarrow> original) (map seq_of ixs))
                       (\<lambda>m. Inr (AList.update n m acc)))
      | _ \<Rightarrow> Inl BadTarget)"

definition image_offload_project ::
  "nat list \<Rightarrow> session_event list \<Rightarrow> nat \<Rightarrow> (nat \<times> message) list \<Rightarrow> session_event
   \<Rightarrow> image_error + (nat \<times> message) list" where
  "image_offload_project nodes events base messages event =
     (case ev_data event of
        ImageOffload data \<Rightarrow>
          (case fld data ''targets'' of
             Some (JArr targets) \<Rightarrow>
               if \<not> is_record data \<or> length (obj_keys data) \<noteq> 1 \<or> targets = [] then Inl BadOffloadData
               else foldE (project_target nodes events base messages) [] targets
           | _ \<Rightarrow> Inl BadOffloadData)
      | _ \<Rightarrow> Inl BadOffloadData)"

section \<open>Selecting the oldest images\<close>

fun pick_images :: "nat \<Rightarrow> nat \<Rightarrow> content_block list \<Rightarrow> nat list \<times> nat" where
  \<comment> \<open>indexes of the images to omit, and the count still wanted\<close>
  "pick_images 0 k bs = ([], 0)"
| "pick_images n k [] = ([], n)"
| "pick_images (Suc n) k (ImageBlock a off # bs) =
     (if off then pick_images (Suc n) (Suc k) bs
      else let (r, n') = pick_images n (Suc k) bs in (k # r, n'))"
| "pick_images (Suc n) k (b # bs) = pick_images (Suc n) k bs"

fun offload_targets :: "(nat \<Rightarrow> message option) \<Rightarrow> nat list \<Rightarrow> nat \<Rightarrow> (nat \<times> nat list) list" where
  \<comment> \<open>the first argument answers the derived message of an input event\<close>
  "offload_targets msg [] n = []"
| "offload_targets msg (s # ss) n =
     (if n = 0 then []
      else case msg s of
        None \<Rightarrow> offload_targets msg ss n
      | Some m \<Rightarrow>
          let (ix, n') = pick_images n 0 (msg_content m)
          in (if ix = [] then [] else [(s, ix)]) @ offload_targets msg ss n')"

definition input_derived ::
  "session_event list \<Rightarrow> nat \<Rightarrow> (nat \<times> message) list \<Rightarrow> nat \<Rightarrow> message option" where
  \<comment> \<open>\<open>session.deriveEventMessage(session.eventAt(seq))\<close> for an input event\<close>
  "input_derived events base messages n =
     bindO (event_in_window events base n) (\<lambda>e.
       map_option (\<lambda>m. case map_of messages n of Some p \<Rightarrow> p | None \<Rightarrow> m) (input_message (ev_data e)))"

definition targets_json :: "(nat \<times> nat list) list \<Rightarrow> json" where
  "targets_json ts = JObj [(''targets'', JArr (map (\<lambda>(s, ix).
     JObj [(''seq'', seq_json s), (''imageIndexes'', JArr (map seq_json ix))]) ts))]"

definition offload_oldest_images ::
  "session_event list \<Rightarrow> nat \<Rightarrow> (nat \<times> message) list \<Rightarrow> nat list \<Rightarrow> nat \<Rightarrow> event_data option" where
  \<comment> \<open>the event appended, None when nothing remained to offload\<close>
  "offload_oldest_images events base messages sources n =
     (let ts = offload_targets (input_derived events base messages) sources n
      in if ts = [] then None else Some (ImageOffload (targets_json ts)))"

section \<open>What the application does\<close>

fun image_flags :: "content_block list \<Rightarrow> bool list" where
  "image_flags (ImageBlock a off # bs) = off # image_flags bs"
| "image_flags (_ # bs) = image_flags bs"
| "image_flags [] = []"

fun unmarked :: "content_block \<Rightarrow> content_block" where
  "unmarked (ImageBlock a off) = ImageBlock a False"
| "unmarked b = b"

fun mark_from :: "nat list \<Rightarrow> nat \<Rightarrow> bool list \<Rightarrow> bool list" where
  "mark_from S k [] = []"
| "mark_from S k (f # fs) = (f \<or> k \<in> set S) # mark_from S (Suc k) fs"

lemma length_mark_from [simp]: "length (mark_from S k fs) = length fs"
  by (induction S k fs rule: mark_from.induct) auto

lemma nth_mark_from: "j < length fs \<Longrightarrow> mark_from S k fs ! j \<longleftrightarrow> fs ! j \<or> k + j \<in> set S"
  by (induction S k fs arbitrary: j rule: mark_from.induct) (auto simp: nth_Cons split: nat.splits)

lemma mark_from_cong: "(\<And>i. i \<ge> k \<Longrightarrow> i \<in> set S \<longleftrightarrow> i \<in> set T) \<Longrightarrow> mark_from S k fs = mark_from T k fs"
  by (induction S k fs rule: mark_from.induct) auto

lemma mark_from_tl: "sorted_wrt (<) (i # S) \<Longrightarrow> i < k \<Longrightarrow> mark_from (i # S) k fs = mark_from S k fs"
  by (rule mark_from_cong) auto

definition selectable :: "nat list \<Rightarrow> nat \<Rightarrow> bool list \<Rightarrow> bool" where
  "selectable todo k fs \<longleftrightarrow> (\<forall>i \<in> set todo. k \<le> i \<and> (i < k + length fs \<longrightarrow> \<not> fs ! (i - k)))"

lemma nth_Cons_diff: "Suc k \<le> i \<Longrightarrow> (f # fs) ! (i - k) = fs ! (i - Suc k)"
  by (metis Suc_diff_le diff_Suc_Suc nth_Cons_Suc)

lemma selectable_Cons:
  "list_all (\<lambda>i. Suc k \<le> i) S \<Longrightarrow> selectable S k (f # fs) \<longleftrightarrow> selectable S (Suc k) fs"
  unfolding selectable_def list_all_iff by (auto simp: nth_Cons_diff)

lemma selectable_hit:
  "list_all (\<lambda>i. Suc k \<le> i) S \<Longrightarrow>
   selectable (k # S) k (f # fs) \<longleftrightarrow> \<not> f \<and> selectable S (Suc k) fs"
  using selectable_Cons[of k S f fs] by (auto simp: selectable_def)

lemma offload_visit_spec:
  assumes "sorted_wrt (<) todo" and "list_all (\<lambda>i. k \<le> i) todo"
  shows "(case offload_visit todo k bs of
       Inl e \<Rightarrow> \<not> selectable todo k (image_flags bs)
     | Inr (r, cs) \<Rightarrow> selectable todo k (image_flags bs)
         \<and> r = filter (\<lambda>i. k + length (image_flags bs) \<le> i) todo
         \<and> map unmarked cs = map unmarked bs
         \<and> image_flags cs = mark_from todo k (image_flags bs))"
  using assms
proof (induction todo k bs rule: offload_visit.induct)
  case (1 todo k)
  then show ?case by (auto simp: selectable_def list_all_iff intro!: filter_True[symmetric])
next
  case (2 todo k a off bs)
  show ?case
  proof (cases "nth_opt todo 0 = Some k")
    case True
    then obtain rest where todo: "todo = k # rest" by (cases todo) auto
    have ge: "list_all (\<lambda>i. Suc k \<le> i) rest" using "2.prems" todo by (auto simp: list_all_iff)
    note sel = selectable_hit[OF ge, folded todo]
    have marks: "mark_from (k # rest) (Suc k) fs = mark_from rest (Suc k) fs" for fs
      using "2.prems"(1) todo by (intro mark_from_tl) auto
    show ?thesis
    proof (cases off)
      case True
      then show ?thesis using \<open>nth_opt todo 0 = Some k\<close> sel by simp
    next
      case False
      then show ?thesis using True "2.IH"(1)[OF True False] ge "2.prems"(1) sel marks
        by (auto simp: todo bindE_def split: sum.splits prod.splits)
    qed
  next
    case False
    have ge: "list_all (\<lambda>i. Suc k \<le> i) todo"
      using False "2.prems" by (cases todo) (auto simp: list_all_iff)
    note skip = selectable_Cons[OF ge]
    show ?thesis using False ge "2.IH"(2)[OF False] "2.prems" skip
      by (auto simp: bindE_def list_all_iff split: sum.splits prod.splits)
  qed
qed (auto simp: bindE_def split: sum.splits prod.splits)

definition retained_at :: "content_block list \<Rightarrow> nat list \<Rightarrow> bool" where
  \<comment> \<open>every index names an image that has not been offloaded\<close>
  "retained_at bs indexes \<longleftrightarrow> (\<forall>i \<in> set indexes. i < length (image_flags bs) \<and> \<not> image_flags bs ! i)"

text \<open>Applying a strictly increasing selection succeeds exactly when every index names a
  retained image; the result keeps the message's identity and every block, and marks exactly the
  selected images in addition.\<close>

theorem offload_message_images_correct:
  assumes "sorted_wrt (<) indexes"
  shows "(case offload_message_images m indexes of
       Inl e \<Rightarrow> \<not> retained_at (msg_content m) indexes
     | Inr m' \<Rightarrow> retained_at (msg_content m) indexes
         \<and> m' = m\<lparr>msg_content := msg_content m'\<rparr>
         \<and> map unmarked (msg_content m') = map unmarked (msg_content m)
         \<and> image_flags (msg_content m') = mark_from indexes 0 (image_flags (msg_content m)))"
proof -
  have "list_all (\<lambda>i. 0 \<le> i) indexes" by (simp add: list_all_iff)
  from offload_visit_spec[OF assms this, of "msg_content m"]
  have v: "(case offload_visit indexes 0 (msg_content m) of
       Inl e \<Rightarrow> \<not> selectable indexes 0 (image_flags (msg_content m))
     | Inr (r, cs) \<Rightarrow> selectable indexes 0 (image_flags (msg_content m))
         \<and> r = filter (\<lambda>i. length (image_flags (msg_content m)) \<le> i) indexes
         \<and> map unmarked cs = map unmarked (msg_content m)
         \<and> image_flags cs = mark_from indexes 0 (image_flags (msg_content m)))"
    by (simp only: add_0)
  have sel: "selectable indexes 0 fs \<longleftrightarrow> (\<forall>i \<in> set indexes. i < length fs \<longrightarrow> \<not> fs ! i)" for fs
    by (simp add: selectable_def)
  show ?thesis
  proof (cases "offload_visit indexes 0 (msg_content m)")
    case (Inl e)
    then show ?thesis using v by (auto simp: offload_message_images_def retained_at_def sel)
  next
    case (Inr rc)
    then obtain r cs where rc: "rc = (r, cs)" by fastforce
    have r: "r = filter (\<lambda>i. length (image_flags (msg_content m)) \<le> i) indexes" using v Inr rc by simp
    show ?thesis
    proof (cases r)
      case Nil
      then have "\<forall>i \<in> set indexes. i < length (image_flags (msg_content m))"
        using r by (metis filter_empty_conv not_le)
      then show ?thesis using v Inr rc Nil by (auto simp: offload_message_images_def retained_at_def sel)
    next
      case (Cons i rest)
      then have "i \<in> set (filter (\<lambda>i. length (image_flags (msg_content m)) \<le> i) indexes)"
        using r by (metis list.set_intros(1))
      then have "i \<in> set indexes \<and> length (image_flags (msg_content m)) \<le> i" by simp
      then have "\<not> retained_at (msg_content m) indexes"
        unfolding retained_at_def using leD by blast
      then show ?thesis using Inr rc Cons by (simp add: offload_message_images_def)
    qed
  qed
qed

definition ex_images :: message where
  "ex_images = \<lparr>msg_id = ''m1'', msg_role = User,
     msg_content = [ImageBlock JNull True, TextBlock ''t'', ImageBlock (JInt 1) False, ImageBlock (JInt 2) False],
     msg_source = UserSource, msg_tool_call_id = None, msg_is_error = None\<rparr>"

theorem offload_message_images_correct_witness:
  "offload_message_images ex_images [1] = Inr (ex_images\<lparr>msg_content :=
     [ImageBlock JNull True, TextBlock ''t'', ImageBlock (JInt 1) True, ImageBlock (JInt 2) False]\<rparr>)
   \<and> retained_at (msg_content ex_images) [1]"
  using offload_message_images_correct[of "[1]" ex_images]
  by (simp add: offload_message_images_def ex_images_def)

section \<open>The selection is always accepted\<close>

definition retained :: "content_block list \<Rightarrow> nat" where
  "retained bs = length (filter Not (image_flags bs))"

lemma pick_images_spec:
  assumes "pick_images n k bs = (r, n')"
  shows "sorted_wrt (<) r \<and> list_all (\<lambda>i. k \<le> i) r
       \<and> (\<forall>i \<in> set r. i < k + length (image_flags bs) \<and> \<not> image_flags bs ! (i - k))
       \<and> length r + n' = n \<and> n' = n - retained bs
       \<and> length (filter Not (mark_from r k (image_flags bs))) = retained bs - length r"
  using assms
proof (induction n k bs arbitrary: r n' rule: pick_images.induct)
  case (1 k bs)
  have "mark_from [] k fs = fs" for fs by (induction fs arbitrary: k) auto
  then show ?case using 1 by (auto simp: retained_def)
next
  case (3 n k a off bs)
  show ?case
  proof (cases off)
    case True
    from 3(1)[OF True, of r n'] 3(3) True
    show ?thesis by (auto simp: retained_def list_all_iff nth_Cons_diff)
  next
    case False
    obtain r1 n1 where p: "pick_images n (Suc k) bs = (r1, n1)" by fastforce
    have r: "r = k # r1" "n' = n1" using 3(3) False p by auto
    from 3(2)[OF False p]
    have IH: "sorted_wrt (<) r1" "list_all (\<lambda>i. Suc k \<le> i) r1"
      "\<forall>i \<in> set r1. i < Suc k + length (image_flags bs) \<and> \<not> image_flags bs ! (i - Suc k)"
      "length r1 + n1 = n" "n1 = n - retained bs"
      "length (filter Not (mark_from r1 (Suc k) (image_flags bs))) = retained bs - length r1" by auto
    have s: "sorted_wrt (<) (k # r1)" using IH by (auto simp: list_all_iff)
    show ?thesis
      unfolding r using IH s False mark_from_tl[OF s, of "Suc k" "image_flags bs"]
      by (auto simp: retained_def list_all_iff nth_Cons_diff)
  qed
qed (auto simp: retained_def)

lemma increasing_indexes_map:
  assumes "sorted_wrt (<) ixs" and "list_all (\<lambda>i. int i \<le> max_safe) ixs"
    and "list_all (\<lambda>i. p < int i) ixs"
  shows "increasing_indexes p (map seq_json ixs)"
  using assms
proof (induction ixs arbitrary: p)
  case (Cons i ixs)
  have "list_all (\<lambda>j. int i < int j) ixs" using Cons.prems by (auto simp: list_all_iff)
  then show ?case using Cons by simp
qed simp

abbreviation target_json :: "nat \<Rightarrow> nat list \<Rightarrow> json" where
  "target_json s ix \<equiv> JObj [(''seq'', seq_json s), (''imageIndexes'', JArr (map seq_json ix))]"

lemma project_target_ok:
  assumes "input_derived events base messages s = Some m" and "s \<in> set nodes"
    and "map_of acc s = None" and "int s \<le> max_safe"
    and "sorted_wrt (<) ix" and "ix \<noteq> []" and "list_all (\<lambda>i. int i \<le> max_safe) ix"
    and "offload_message_images m ix = Inr m'"
  shows "project_target nodes events base messages acc (target_json s ix) = Inr (AList.update s m' acc)"
proof -
  obtain e m0 where e: "event_in_window events base s = Some e" "input_message (ev_data e) = Some m0"
    and m: "m = (case map_of messages s of Some p \<Rightarrow> p | None \<Rightarrow> m0)"
    using assms(1) by (auto simp: input_derived_def bindO_eq_Some)
  have incr: "increasing_indexes (- 1) (map seq_json ix)"
    using assms(5,7) by (intro increasing_indexes_map) (auto simp: list_all_iff)
  have ids: "map (seq_of \<circ> seq_json) ix = ix" by (simp add: o_def)
  show ?thesis
    using assms(2,3,4,6,8) e incr by (simp add: project_target_def m ids)
qed

definition offloaded :: "(nat \<times> message) list \<Rightarrow> (nat \<Rightarrow> message option) \<Rightarrow> nat \<Rightarrow> message option" where
  \<comment> \<open>the derived message after the projected messages are stored\<close>
  "offloaded ms msg s = (case map_of ms s of Some m \<Rightarrow> Some m | None \<Rightarrow> msg s)"

definition total_retained :: "(nat \<Rightarrow> message option) \<Rightarrow> nat list \<Rightarrow> nat" where
  "total_retained msg ss =
     sum_list (map (\<lambda>s. case msg s of None \<Rightarrow> 0 | Some m \<Rightarrow> retained (msg_content m)) ss)"

lemma total_retained_cong:
  "(\<And>s. s \<in> set ss \<Longrightarrow> f s = g s) \<Longrightarrow> total_retained f ss = total_retained g ss"
  unfolding total_retained_def by (metis (mono_tags, lifting) map_cong)

lemma pick_then_offload:
  assumes "pick_images n 0 (msg_content m) = (ix, n')" and "ix \<noteq> []"
  obtains m' where "offload_message_images m ix = Inr m'"
    and "retained (msg_content m') = retained (msg_content m) - length ix"
proof -
  note p = pick_images_spec[OF assms(1)]
  then have "retained_at (msg_content m) ix" by (auto simp: retained_at_def)
  then obtain m' where "offload_message_images m ix = Inr m'"
    and "image_flags (msg_content m') = mark_from ix 0 (image_flags (msg_content m))"
    using offload_message_images_correct[of ix m] p by (auto split: sum.splits)
  then show ?thesis using that p by (simp add: retained_def)
qed

lemma offload_targets_projected:
  assumes "distinct ss" and "set ss \<subseteq> set nodes" and "\<forall>s \<in> set ss. int s \<le> max_safe"
    and "\<forall>s \<in> set ss. map_of acc s = None"
    and "\<forall>s m. input_derived events base messages s = Some m \<longrightarrow>
            int (length (image_flags (msg_content m))) \<le> max_safe"
  shows "\<exists>ms. foldE (project_target nodes events base messages) acc
             (map (\<lambda>(s, ix). target_json s ix) (offload_targets (input_derived events base messages) ss n)) = Inr ms
        \<and> (\<forall>s. s \<notin> set ss \<longrightarrow> map_of ms s = map_of acc s)
        \<and> total_retained (offloaded ms (input_derived events base messages)) ss
           = total_retained (input_derived events base messages) ss - n"
  using assms
proof (induction ss arbitrary: acc n)
  case Nil
  then show ?case by (simp add: total_retained_def)
next
  case (Cons s ss)
  let ?d = "input_derived events base messages"
  have acc: "map_of acc s = None" "\<forall>s \<in> set ss. map_of acc s = None" using Cons.prems by auto
  have unchanged: "total_retained (offloaded ms ?d) (s # ss) = total_retained ?d (s # ss)"
    if "\<forall>s \<in> set (s # ss). map_of ms s = None" for ms
    using that by (intro total_retained_cong) (auto simp: offloaded_def)
  consider (stop) "n = 0" | (skip) "n > 0" "?d s = None" | (take) m where "n > 0" "?d s = Some m" by (cases "?d s") auto
  then show ?case
  proof cases
    case stop
    then show ?thesis using unchanged[of acc] Cons.prems by simp
  next
    case skip
    from Cons.IH[of acc n] Cons.prems acc obtain ms where
      ms: "foldE (project_target nodes events base messages) acc
             (map (\<lambda>(s, ix). target_json s ix) (offload_targets ?d ss n)) = Inr ms"
      "\<forall>s. s \<notin> set ss \<longrightarrow> map_of ms s = map_of acc s"
      "total_retained (offloaded ms ?d) ss = total_retained ?d ss - n" by auto
    have "map_of ms s = None" using ms(2) acc Cons.prems(1) by auto
    then show ?thesis using ms skip by (auto simp: total_retained_def offloaded_def)
  next
    case take
    obtain ix n' where p: "pick_images n 0 (msg_content m) = (ix, n')" by fastforce
    note spec = pick_images_spec[OF p]
    show ?thesis
    proof (cases "ix = []")
      case True
      from Cons.IH[of acc n'] Cons.prems acc obtain ms where
        ms: "foldE (project_target nodes events base messages) acc
               (map (\<lambda>(s, ix). target_json s ix) (offload_targets ?d ss n')) = Inr ms"
        "\<forall>s. s \<notin> set ss \<longrightarrow> map_of ms s = map_of acc s"
        "total_retained (offloaded ms ?d) ss = total_retained ?d ss - n'" by auto
      have "map_of ms s = None" using ms(2) acc Cons.prems(1) by auto
      moreover have "n' = n" "retained (msg_content m) = 0" using spec True take(1) by auto
      ultimately show ?thesis using ms take p True by (auto simp: total_retained_def offloaded_def)
    next
      case False
      obtain m' where m': "offload_message_images m ix = Inr m'"
        "retained (msg_content m') = retained (msg_content m) - length ix"
        using pick_then_offload[OF p False] .
      have "list_all (\<lambda>i. int i \<le> max_safe) ix"
        using spec Cons.prems(5) take(2) by (fastforce simp: list_all_iff)
      then have step: "project_target nodes events base messages acc (target_json s ix) = Inr (AList.update s m' acc)"
        using Cons.prems(2,3) take(2) acc(1) False spec m'(1) by (intro project_target_ok) auto
      have "\<forall>s' \<in> set ss. map_of (AList.update s m' acc) s' = None"
        using acc Cons.prems(1) by (auto simp: update_conv')
      with Cons.IH[of "AList.update s m' acc" n'] Cons.prems obtain ms where
        ms: "foldE (project_target nodes events base messages) (AList.update s m' acc)
               (map (\<lambda>(s, ix). target_json s ix) (offload_targets ?d ss n')) = Inr ms"
        "\<forall>s'. s' \<notin> set ss \<longrightarrow> map_of ms s' = map_of (AList.update s m' acc) s'"
        "total_retained (offloaded ms ?d) ss = total_retained ?d ss - n'" by auto
      have "map_of ms s = Some m'" using ms(2) Cons.prems(1) by (simp add: update_conv')
      then have "total_retained (offloaded ms ?d) (s # ss) =
          retained (msg_content m) - length ix + (total_retained ?d ss - n')"
        using ms(3) m'(2) by (simp add: total_retained_def offloaded_def)
      also have "\<dots> = retained (msg_content m) + total_retained ?d ss - n"
        using spec by arith
      also have "\<dots> = total_retained ?d (s # ss) - n"
        using take(2) by (simp add: total_retained_def)
      finally show ?thesis
        using ms take p False step by (auto simp: update_conv')
    qed
  qed
qed

text \<open>C18: the event written to omit the oldest images is always accepted by the projection that
  replays it, and it omits as many retained images of the given messages as were asked for, or all
  of them when there are fewer.\<close>

theorem offload_oldest_accepted:
  assumes "distinct sources" and "set sources \<subseteq> set nodes" and "\<forall>s \<in> set sources. int s \<le> max_safe"
    and "\<forall>s m. input_derived events base messages s = Some m \<longrightarrow>
            int (length (image_flags (msg_content m))) \<le> max_safe"
    and "offload_oldest_images events base messages sources n = Some d" and "ev_data event = d"
  shows "\<exists>ms. image_offload_project nodes events base messages event = Inr ms
        \<and> total_retained (offloaded ms (input_derived events base messages)) sources
           = total_retained (input_derived events base messages) sources - n"
proof -
  let ?ts = "offload_targets (input_derived events base messages) sources n"
  have d: "?ts \<noteq> []" "d = ImageOffload (targets_json ?ts)"
    using assms(5) by (auto simp: offload_oldest_images_def Let_def split: if_splits)
  obtain ms where "foldE (project_target nodes events base messages) [] (map (\<lambda>(s, ix). target_json s ix) ?ts) = Inr ms"
    and "total_retained (offloaded ms (input_derived events base messages)) sources
           = total_retained (input_derived events base messages) sources - n"
    using offload_targets_projected[OF assms(1,2,3) _ assms(4), of "[]" n] by auto
  then show ?thesis using assms(6) d by (auto simp: image_offload_project_def targets_json_def)
qed

theorem offload_oldest_accepted_witness:
  "\<exists>ms. image_offload_project [0] [log_only 0 0 (UserMessage ex_images)] 0 []
           (log_only 1 0 (ImageOffload (targets_json [(0, [1])]))) = Inr ms
      \<and> total_retained (offloaded ms (input_derived [log_only 0 0 (UserMessage ex_images)] 0 [])) [0] = 1"
proof -
  let ?es = "[log_only 0 0 (UserMessage ex_images)]"
  have d: "input_derived ?es 0 [] s = (if s = 0 then Some ex_images else None)" for s
    by (simp add: input_derived_def event_in_window_def log_only_def nth_opt_def)
  have p: "pick_images 1 0 (msg_content ex_images) = ([1], 0)"
    by (simp add: ex_images_def)
  have w: "offload_oldest_images ?es 0 [] [0] 1 = Some (ImageOffload (targets_json [(0, [1])]))"
    using p by (simp add: offload_oldest_images_def d Let_def)
  have bound: "\<forall>s m. input_derived ?es 0 [] s = Some m \<longrightarrow> int (length (image_flags (msg_content m))) \<le> max_safe"
    unfolding d by (simp add: ex_images_def max_safe_def)
  have total: "total_retained (input_derived ?es 0 []) [0] = 2"
    unfolding total_retained_def d by (simp add: ex_images_def retained_def)
  have ev: "ev_data (log_only 1 0 d) = d" for d by (simp add: log_only_def)
  show ?thesis
    using offload_oldest_accepted[OF _ _ _ bound w ev, of "[0]"] unfolding total
    by (simp add: max_safe_def)
qed

end
