(* ===== verification/Surface.thy ===== *)
theory Surface imports ImageOffload begin

text \<open>
  The ordered surface over a Session log (\<open>packages/core/session/src/surface.ts\<close>): the message an
  event derives to, the event-local validation, the plan/apply transition, the complete fold, and
  the incremental \<open>SurfaceManager\<close>. A message projection is a record with an identity, the type it
  interprets and a function; the registry of a session is a list of them.
\<close>

section \<open>Derived messages\<close>

definition derive_event_message ::
  "session_event \<Rightarrow> (nat \<times> message) list \<Rightarrow> message option" where
  "derive_event_message e projected =
     (case map_of projected (ev_seq e) of
        Some m \<Rightarrow> Some m
      | None \<Rightarrow>
          (case ev_data e of
             UserMessage m \<Rightarrow> Some m
           | SystemMessage _ _ m \<Rightarrow> if length (msg_content m) = 0 then None else Some m
           | DeveloperMessage _ _ m _ \<Rightarrow> if length (msg_content m) = 0 then None else Some m
           | AssistantMessage _ _ m _ _ _ \<Rightarrow> if length (msg_content m) = 0 then None else Some m
           | ToolResult _ _ m _ _ \<Rightarrow> Some m
           | _ \<Rightarrow> None))"

section \<open>Event-local validation\<close>

datatype surface_error =
    DeveloperRoleMismatch
  | ToolChangeNeedsDeveloper
  | EmptyToolName
  | InlineTool
  | HeaderSeqMismatch
  | HeaderSystem
  | EmptyTools
  | EmptyAdapterDefaults
  | ErrorWithoutIsError
  | NotSurfaceEligible
  | MissingSurfaceOp
  | InvalidSurfaceOp
  | InvalidReplaceOp
  | AssistantCitesSources
  | SourcesNotArray
  | SourcesEmpty
  | SourceNotSeq
  | DuplicateSources
  | SourceNotEarlier nat
  | MissingSources "nat list"
  | BadHeaderSeq nat
  | ToolNotUnique string
  | IncompleteTool string
  | BadDeferLoading
  | ReplaceNotEarlier
  | StartNotFound nat
  | EndNotFound nat
  | StartAfterEnd nat nat
  | ToolRewriteCount
  | ToolRewriteTarget
  | ToolRewriteContent
  | SystemHeadProtected
  | SeqNotContiguous nat nat
  | ProjectionMissing string
  | ProjectionRejected image_error
  | ProjectionRemoved nat

fun message_of :: "event_data \<Rightarrow> message option" where
  "message_of (UserMessage m) = Some m"
| "message_of (SystemMessage _ _ m) = Some m"
| "message_of (DeveloperMessage _ _ m _) = Some m"
| "message_of (AssistantMessage _ _ m _ _ _) = Some m"
| "message_of (ToolResult _ _ m _ _) = Some m"
| "message_of _ = None"

fun is_tool_change :: "content_block \<Rightarrow> bool" where
  "is_tool_change (ToolAdditionBlock _ _) = True"
| "is_tool_change (ToolRemovalBlock _) = True"
| "is_tool_change _ = False"

fun is_tool_addition :: "content_block \<Rightarrow> bool" where
  "is_tool_addition (ToolAdditionBlock _ _) = True"
| "is_tool_addition _ = False"

fun check_tool_change :: "content_block \<Rightarrow> surface_error + unit" where
  "check_tool_change (ToolAdditionBlock nm tool) =
     (if length nm = 0 then Inl EmptyToolName else if tool \<noteq> None then Inl InlineTool else Inr ())"
| "check_tool_change (ToolRemovalBlock nm) = (if length nm = 0 then Inl EmptyToolName else Inr ())"
| "check_tool_change _ = Inr ()"

definition validate_message_role :: "event_data \<Rightarrow> message \<Rightarrow> surface_error + unit" where
  "validate_message_role d m =
     (let developer = (case d of DeveloperMessage _ _ _ _ \<Rightarrow> True | _ \<Rightarrow> False) in
      if developer \<noteq> (msg_role m = Developer) then Inl DeveloperRoleMismatch
      else if msg_role m \<noteq> Developer \<and> list_ex is_tool_change (msg_content m) then Inl ToolChangeNeedsDeveloper
      else case d of
        DeveloperMessage _ _ _ headerSeq \<Rightarrow>
          bindE (mapE check_tool_change (msg_content m)) (\<lambda>_.
            if list_ex is_tool_addition (msg_content m)
            then (case headerSeq of
                    Some v \<Rightarrow> checkE (is_event_seq v) HeaderSeqMismatch
                  | None \<Rightarrow> Inl HeaderSeqMismatch)
            else checkE (headerSeq = None) HeaderSeqMismatch)
      | _ \<Rightarrow> Inr ())"

definition validate_session_event_data :: "event_data \<Rightarrow> surface_error + unit" where
  "validate_session_event_data d =
     bindE (case message_of d of Some m \<Rightarrow> validate_message_role d m | None \<Rightarrow> Inr ()) (\<lambda>_.
       case d of
         RequestHeader header _ _ \<Rightarrow>
           if eh_system header \<noteq> None then Inl HeaderSystem
           else if eh_tools header = Some [] then Inl EmptyTools
           else (case eh_adapter_defaults header of
                   Some ad \<Rightarrow> checkE (ad_reasoning_effort ad \<or> ad_max_tokens ad) EmptyAdapterDefaults
                 | None \<Rightarrow> Inr ())
       | ToolResult _ _ m err _ \<Rightarrow> checkE (err = None \<or> msg_is_error m = Some True) ErrorWithoutIsError
       | _ \<Rightarrow> Inr ())"

datatype surface_op = Append | Replace nat nat

definition is_replace_op :: "json \<Rightarrow> bool" where
  "is_replace_op v \<longleftrightarrow>
     length (obj_keys v) = 3 \<and> fld v ''op'' = Some (JStr ''replace'')
     \<and> (case fld v ''startSeq'' of Some s \<Rightarrow> is_event_seq s | None \<Rightarrow> False)
     \<and> (case fld v ''endSeq'' of Some s \<Rightarrow> is_event_seq s | None \<Rightarrow> False)"

definition surface_op_of :: "session_event \<Rightarrow> surface_error + surface_op option" where
  "surface_op_of e =
     (if \<not> is_surface_eligible_type (ev_data e) then
        if event_type (ev_data e) \<notin> set known_session_event_types \<and> ev_ignorable e then Inr None
        else if ev_surface_op e \<noteq> None then Inl NotSurfaceEligible
        else if ev_source_event_seqs e \<noteq> None then Inl NotSurfaceEligible
        else Inr None
      else case ev_surface_op e of
        None \<Rightarrow> Inl MissingSurfaceOp
      | Some op \<Rightarrow>
          if op = JStr ''append'' then Inr (Some Append)
          else if \<not> is_record op then Inl InvalidSurfaceOp
          else if \<not> is_replace_op op then Inl InvalidReplaceOp
          else Inr (Some (Replace (seq_of (the (fld op ''startSeq''))) (seq_of (the (fld op ''endSeq''))))))"

fun first_not_earlier :: "nat \<Rightarrow> nat list \<Rightarrow> nat option" where
  "first_not_earlier n [] = None"
| "first_not_earlier n (s # ss) = (if n \<le> s then Some s else first_not_earlier n ss)"

definition cited_sources :: "session_event \<Rightarrow> surface_error + nat list" where
  \<comment> \<open>the first half of \<open>assertSourceEventReferences\<close>\<close>
  "cited_sources e =
     (case ev_source_event_seqs e of
        None \<Rightarrow> Inr []
      | Some (JArr raw) \<Rightarrow>
          if raw = [] then Inl SourcesEmpty
          else if \<not> list_all is_event_seq raw then Inl SourceNotSeq
          else let sources = map seq_of raw in
            if \<not> distinct sources then Inl DuplicateSources
            else (case first_not_earlier (ev_seq e) sources of
                    Some s \<Rightarrow> Inl (SourceNotEarlier s)
                  | None \<Rightarrow> Inr sources)
      | Some _ \<Rightarrow> Inl SourcesNotArray)"

definition assert_source_event_references :: "session_event \<Rightarrow> nat list \<Rightarrow> surface_error + unit" where
  "assert_source_event_references e shadowed =
     (if (case ev_data e of AssistantMessage _ _ _ _ _ _ \<Rightarrow> True | _ \<Rightarrow> False)
         \<and> ev_source_event_seqs e \<noteq> None
      then Inl AssistantCitesSources
      else bindE (cited_sources e) (\<lambda>sources.
        let missing = filter (\<lambda>n. n \<notin> set sources) shadowed
        in checkE (missing = []) (MissingSources missing)))"

definition check_added_tool :: "epoch_header \<Rightarrow> content_block \<Rightarrow> surface_error + unit" where
  "check_added_tool header b =
     (case b of
        ToolAdditionBlock nm _ \<Rightarrow>
          (case filter (\<lambda>t. ts_name t = nm)
                  (case eh_tools header of Some ts \<Rightarrow> ts | None \<Rightarrow> []) of
             [t] \<Rightarrow>
               if (case ts_description t of JStr _ \<Rightarrow> False | _ \<Rightarrow> True) \<or> \<not> is_record (ts_parameters t)
               then Inl (IncompleteTool nm)
               else checkE (ts_defer_loading t = None \<or> ts_defer_loading t = Some (JBool True)) BadDeferLoading
           | _ \<Rightarrow> Inl (ToolNotUnique nm))
      | _ \<Rightarrow> Inr ())"

definition assert_developer_header ::
  "session_event \<Rightarrow> session_event list \<Rightarrow> nat \<Rightarrow> surface_error + unit" where
  "assert_developer_header e events base =
     (case ev_data e of
        DeveloperMessage _ _ m headerSeq \<Rightarrow>
          bindE (validate_session_event_data (ev_data e)) (\<lambda>_.
            case headerSeq of
              None \<Rightarrow> Inr ()
            | Some v \<Rightarrow>
                let h = seq_of v in
                (case bindO (event_in_window events base h) (\<lambda>he. Some (ev_data he)) of
                   Some (RequestHeader header _ _) \<Rightarrow>
                     if ev_seq e \<le> h then Inl (BadHeaderSeq h)
                     else bindE (mapE (check_added_tool header) (msg_content m)) (\<lambda>_. Inr ())
                 | _ \<Rightarrow> Inl (BadHeaderSeq h)))
      | _ \<Rightarrow> Inr ())"

definition validate_surface_metadata :: "session_event \<Rightarrow> surface_error + surface_op option" where
  "validate_surface_metadata e =
     bindE (surface_op_of e) (\<lambda>op.
       case op of
         Some (Replace s t) \<Rightarrow>
           if ev_seq e \<le> s \<or> ev_seq e \<le> t then Inl ReplaceNotEarlier
           else bindE (assert_source_event_references e []) (\<lambda>_. Inr op)
       | Some Append \<Rightarrow> bindE (assert_source_event_references e []) (\<lambda>_. Inr op)
       | None \<Rightarrow> Inr None)"

section \<open>Replacements\<close>

record replacement =
  rp_seq :: nat
  rp_start :: nat
  rp_end :: nat
  rp_shadowed :: "nat list"

definition replacement_range :: "nat list \<Rightarrow> nat \<Rightarrow> nat \<Rightarrow> surface_error + nat \<times> nat \<times> nat list" where
  \<comment> \<open>\<open>startIdx\<close>, \<open>endIdx\<close> and the shadowed slice\<close>
  "replacement_range nodes s t =
     (case index_of s nodes of
        None \<Rightarrow> Inl (StartNotFound s)
      | Some i \<Rightarrow>
          (case index_of t nodes of
             None \<Rightarrow> Inl (EndNotFound t)
           | Some j \<Rightarrow>
               if j < i then Inl (StartAfterEnd s t)
               else Inr (i, j, take (j + 1 - i) (drop i nodes))))"

function (sequential) is_deep_equal_json :: "json \<Rightarrow> json \<Rightarrow> bool" where
  "is_deep_equal_json (JArr xs) (JArr ys) =
     (length xs = length ys \<and> list_all (\<lambda>(x, y). is_deep_equal_json x y) (zip xs ys))"
| "is_deep_equal_json (JObj kvs) (JObj lvs) =
     (length kvs = length lvs \<and>
      list_all (\<lambda>(k, v). case map_of lvs k of Some w \<Rightarrow> is_deep_equal_json v w | None \<Rightarrow> False) kvs)"
| "is_deep_equal_json JNegZero (JInt n) = (n = 0)"
| "is_deep_equal_json (JInt n) JNegZero = (n = 0)"
| "is_deep_equal_json a b = (a = b)"
  by pat_completeness auto
termination
  by (relation "measure (\<lambda>(a, b). size a)")
    (auto simp: less_Suc_eq_le dest!: set_zip_leftD intro: size_list_estimation')

fun source_equal :: "message_source \<Rightarrow> message_source \<Rightarrow> bool" where
  "source_equal (ModelSource p m r) (ModelSource p' m' r') =
     (p = p' \<and> m = m' \<and> rel_option is_deep_equal_json r r')"
| "source_equal (OtherSource k j) (OtherSource k' j') = (k = k' \<and> is_deep_equal_json j j')"
| "source_equal s s' = (s = s')"

definition tool_rest_equal :: "event_data \<Rightarrow> event_data \<Rightarrow> bool" where
  \<comment> \<open>\<open>isDeepEqualJson\<close> of the two payloads with their message content removed\<close>
  "tool_rest_equal a b =
     (case (a, b) of
        (ToolResult t s m er mt, ToolResult t' s' m' er' mt') \<Rightarrow>
          t = t' \<and> s = s' \<and> er = er' \<and> rel_option is_deep_equal_json mt mt'
          \<and> msg_id m = msg_id m' \<and> msg_role m = msg_role m' \<and> source_equal (msg_source m) (msg_source m')
          \<and> msg_tool_call_id m = msg_tool_call_id m' \<and> msg_is_error m = msg_is_error m'
      | _ \<Rightarrow> False)"

definition assert_tool_result_rewrite ::
  "session_event \<Rightarrow> nat list \<Rightarrow> session_event list \<Rightarrow> nat \<Rightarrow> surface_error + unit" where
  "assert_tool_result_rewrite e shadowed events base =
     (case ev_data e of
        ToolResult _ _ _ _ _ \<Rightarrow>
          (case shadowed of
             [original] \<Rightarrow>
               (case event_in_window events base original of
                  Some oe \<Rightarrow>
                    if \<not> (case ev_data oe of ToolResult _ _ _ _ _ \<Rightarrow> True | _ \<Rightarrow> False) then Inl ToolRewriteTarget
                    else checkE (tool_rest_equal (ev_data oe) (ev_data e)) ToolRewriteContent
                | None \<Rightarrow> Inl ToolRewriteTarget)
           | _ \<Rightarrow> Inl ToolRewriteCount)
      | _ \<Rightarrow> Inr ())"

definition is_system_message :: "event_data \<Rightarrow> bool" where
  "is_system_message d = (case d of SystemMessage _ _ _ \<Rightarrow> True | _ \<Rightarrow> False)"

definition head_is_system :: "nat list \<Rightarrow> session_event list \<Rightarrow> nat \<Rightarrow> bool" where
  \<comment> \<open>node 0 names a \<open>system/message\<close>\<close>
  "head_is_system nodes events base =
     (case bindO (nth_opt nodes 0) (event_in_window events base) of
        Some e \<Rightarrow> is_system_message (ev_data e)
      | None \<Rightarrow> False)"

definition assert_system_head_rewrite ::
  "session_event \<Rightarrow> nat list \<Rightarrow> nat \<Rightarrow> nat list \<Rightarrow> session_event list \<Rightarrow> nat \<Rightarrow> surface_error + unit" where
  "assert_system_head_rewrite e nodes startIdx shadowed events base =
     (if startIdx \<noteq> 0 then Inr ()
      else if \<not> head_is_system nodes events base then Inr ()
      else checkE (is_system_message (ev_data e) \<and> length shadowed = 1) SystemHeadProtected)"

section \<open>Plan and apply\<close>

record projection =
  mp_id :: nat
  mp_type :: string
  mp_project :: "session_event \<Rightarrow> nat list \<Rightarrow> session_event list \<Rightarrow> nat \<Rightarrow> (nat \<times> message) list
                 \<Rightarrow> image_error + (nat \<times> message) list"

definition image_offload_projection :: "nat \<Rightarrow> projection" where
  "image_offload_projection n =
     \<lparr>mp_id = n, mp_type = ''image/offload'',
      mp_project = (\<lambda>e nodes events base messages. image_offload_project nodes events base messages e)\<rparr>"

record fold_state =
  fs_nodes :: "nat list"
  fs_replace_generation :: nat
  fs_content_generation :: nat
  fs_projected_messages :: "(nat \<times> message) list"
  fs_projections :: "nat list"  \<comment> \<open>identities of the definitions used\<close>

definition create_fold_state :: fold_state where
  "create_fold_state = \<lparr>fs_nodes = [], fs_replace_generation = 0, fs_content_generation = 0,
     fs_projected_messages = [], fs_projections = []\<rparr>"

datatype surface_plan =
    NoPlan
  | AppendPlan nat
  | ReplacePlan replacement nat nat             \<comment> \<open>with \<open>startIdx\<close> and \<open>endIdx\<close>\<close>
  | ProjectPlan nat "(nat \<times> message) list"      \<comment> \<open>the projection's identity and its messages\<close>

definition plan_surface_event ::
  "projection list \<Rightarrow> fold_state \<Rightarrow> session_event \<Rightarrow> nat \<Rightarrow> session_event list \<Rightarrow> nat
   \<Rightarrow> surface_error + surface_plan" where
  "plan_surface_event projections st e expectedSeq events base =
     (if ev_seq e \<noteq> expectedSeq then Inl (SeqNotContiguous (ev_seq e) expectedSeq)
      else bindE (validate_surface_metadata e) (\<lambda>op.
        bindE (assert_developer_header e events base) (\<lambda>_.
          case List.find (\<lambda>p. mp_type p = event_type (ev_data e)) projections of
            Some p \<Rightarrow>
              (case mp_project p e (fs_nodes st) events base (fs_projected_messages st) of
                 Inl err \<Rightarrow> Inl (ProjectionRejected err)
               | Inr ms \<Rightarrow> Inr (ProjectPlan (mp_id p) ms))
          | None \<Rightarrow>
              if needs_message_projection (ev_data e) then Inl (ProjectionMissing (event_type (ev_data e)))
              else case op of
                None \<Rightarrow> Inr NoPlan
              | Some Append \<Rightarrow> Inr (AppendPlan (ev_seq e))
              | Some (Replace s t) \<Rightarrow>
                  bindE (replacement_range (fs_nodes st) s t) (\<lambda>(i, j, shadowed).
                    bindE (assert_source_event_references e shadowed) (\<lambda>_.
                      bindE (assert_tool_result_rewrite e shadowed events base) (\<lambda>_.
                        bindE (assert_system_head_rewrite e (fs_nodes st) i shadowed events base) (\<lambda>_.
                          Inr (ReplacePlan \<lparr>rp_seq = ev_seq e, rp_start = s, rp_end = t,
                                 rp_shadowed = shadowed\<rparr> i j))))))))"

fun apply_surface_plan :: "fold_state \<Rightarrow> surface_plan \<Rightarrow> fold_state \<times> replacement option" where
  "apply_surface_plan st NoPlan = (st, None)"
| "apply_surface_plan st (AppendPlan n) = (st\<lparr>fs_nodes := fs_nodes st @ [n]\<rparr>, None)"
| "apply_surface_plan st (ReplacePlan r i j) =
     (st\<lparr>fs_nodes := to_spliced i (j - i + 1) [rp_seq r] (fs_nodes st),
         fs_replace_generation := fs_replace_generation st + 1,
         fs_content_generation := fs_content_generation st + 1\<rparr>, Some r)"
| "apply_surface_plan st (ProjectPlan p ms) =
     (st\<lparr>fs_projected_messages := foldl (\<lambda>acc (n, m). AList.update n m acc) (fs_projected_messages st) ms,
         fs_projections := (if p \<in> set (fs_projections st) then fs_projections st else fs_projections st @ [p]),
         fs_content_generation := fs_content_generation st + 1\<rparr>, None)"

definition apply_surface_event ::
  "projection list \<Rightarrow> fold_state \<Rightarrow> session_event \<Rightarrow> nat \<Rightarrow> session_event list \<Rightarrow> nat
   \<Rightarrow> surface_error + fold_state \<times> replacement option" where
  "apply_surface_event projections st e expectedSeq events base =
     bindE (plan_surface_event projections st e expectedSeq events base)
       (\<lambda>plan. Inr (apply_surface_plan st plan))"

section \<open>The complete fold\<close>

type_synonym fold_acc = "fold_state \<times> replacement list"

definition fold_step ::
  "projection list \<Rightarrow> session_event list \<Rightarrow> fold_acc \<Rightarrow> nat \<times> session_event \<Rightarrow> surface_error + fold_acc" where
  "fold_step projections events acc ie =
     (case (acc, ie) of ((st, rs), (i, e)) \<Rightarrow>
        bindE (apply_surface_event projections st e i events 0) (\<lambda>(st', r).
          Inr (st', case r of None \<Rightarrow> rs | Some x \<Rightarrow> rs @ [x])))"

definition fold_surface_state ::
  "projection list \<Rightarrow> session_event list \<Rightarrow> surface_error + fold_acc" where
  "fold_surface_state projections events =
     foldE (fold_step projections events) (create_fold_state, []) (enumerate 0 events)"

record fold_result =
  fr_nodes :: "nat list"
  fr_replacements :: "replacement list"
  fr_projected_messages :: "(nat \<times> message) list"

definition fold_surface :: "session_event list \<Rightarrow> projection list \<Rightarrow> surface_error + fold_result" where
  "fold_surface events projections =
     bindE (fold_surface_state projections events) (\<lambda>(st, rs).
       Inr \<lparr>fr_nodes = fs_nodes st, fr_replacements = rs, fr_projected_messages = fs_projected_messages st\<rparr>)"

section \<open>The incremental manager\<close>

record manager =
  mg_state :: fold_state
  mg_next :: nat  \<comment> \<open>one past the last processed sequence\<close>
  mg_pending :: "(session_event \<times> nat \<times> surface_plan) option"

definition new_manager :: "nat \<Rightarrow> manager" where
  "new_manager base = \<lparr>mg_state = create_fold_state, mg_next = base, mg_pending = None\<rparr>"

definition required_projections :: "nat \<Rightarrow> session_event list \<Rightarrow> manager \<Rightarrow> nat list" where
  "required_projections base log mg =
     (case mg_pending mg of
        Some (pe, ex, ProjectPlan p ms) \<Rightarrow>
          if event_in_window log base ex = Some pe then fs_projections (mg_state mg) @ [p]
          else fs_projections (mg_state mg)
      | _ \<Rightarrow> fs_projections (mg_state mg))"

definition assert_projections ::
  "projection list \<Rightarrow> nat \<Rightarrow> session_event list \<Rightarrow> manager \<Rightarrow> surface_error + unit" where
  "assert_projections projections base log mg =
     (case List.find (\<lambda>p. p \<notin> set (map mp_id projections)) (required_projections base log mg) of
        Some p \<Rightarrow> Inl (ProjectionRemoved p)
      | None \<Rightarrow> Inr ())"

definition process_one ::
  "projection list \<Rightarrow> nat \<Rightarrow> session_event list \<Rightarrow> manager \<Rightarrow> nat \<Rightarrow> surface_error + manager" where
  "process_one projections base log mg n =
     (let e = log ! (n - base);
          matching = (case mg_pending mg of
             Some (pe, ex, plan) \<Rightarrow> if pe = e \<and> ex = n then Some plan else None
           | None \<Rightarrow> None)
      in bindE (case matching of
             Some plan \<Rightarrow> Inr (apply_surface_plan (mg_state mg) plan)
           | None \<Rightarrow> apply_surface_event projections (mg_state mg) e n log base)
           (\<lambda>(st, _). Inr (mg\<lparr>mg_state := st, mg_next := n + 1,
              mg_pending := (case mg_pending mg of
                 Some (pe, ex, plan) \<Rightarrow> if ex \<le> n then None else mg_pending mg
               | None \<Rightarrow> None)\<rparr>)))"

definition process_delta ::
  "projection list \<Rightarrow> nat \<Rightarrow> session_event list \<Rightarrow> manager \<Rightarrow> surface_error + manager" where
  "process_delta projections base log mg =
     foldE (process_one projections base log) mg [mg_next mg ..< base + length log]"

definition sync ::
  "projection list \<Rightarrow> nat \<Rightarrow> session_event list \<Rightarrow> manager \<Rightarrow> surface_error + manager" where
  \<comment> \<open>the common prologue of every public operation\<close>
  "sync projections base log mg =
     bindE (assert_projections projections base log mg) (\<lambda>_.
       if mg_next mg < base + length log then process_delta projections base log mg else Inr mg)"

definition validate_next ::
  "projection list \<Rightarrow> nat \<Rightarrow> session_event list \<Rightarrow> manager \<Rightarrow> session_event \<Rightarrow> surface_error + manager" where
  "validate_next projections base log mg e =
     bindE (sync projections base log mg) (\<lambda>mg'.
       let ex = base + length log in
       bindE (plan_surface_event projections (mg_state mg') e ex log base) (\<lambda>plan.
         Inr (mg'\<lparr>mg_pending := Some (e, ex, plan)\<rparr>)))"

definition read_surface ::
  "(fold_state \<Rightarrow> 'a) \<Rightarrow> projection list \<Rightarrow> nat \<Rightarrow> session_event list \<Rightarrow> manager
   \<Rightarrow> surface_error + 'a \<times> manager" where
  \<comment> \<open>the getters \<open>nodes\<close>, \<open>replaceGeneration\<close>, \<open>contentGeneration\<close>\<close>
  "read_surface get projections base log mg =
     bindE (sync projections base log mg) (\<lambda>mg'. Inr (get (mg_state mg'), mg'))"

definition manager_derive ::
  "session_event \<Rightarrow> projection list \<Rightarrow> nat \<Rightarrow> session_event list \<Rightarrow> manager
   \<Rightarrow> surface_error + message option \<times> manager" where
  "manager_derive e = read_surface (\<lambda>st. derive_event_message e (fs_projected_messages st))"

section \<open>Projections that read committed history\<close>

definition surface_event_types :: "string list" where
  "surface_event_types =
     [''system/message'', ''developer/message'', ''user/message'', ''assistant/message'', ''tool/result'']"

lemma surface_event_types_iff:
  "is_surface_eligible_type d \<Longrightarrow> event_type d \<in> set surface_event_types"
  by (cases d) (simp_all add: surface_event_types_def)

definition core_event_types :: "string list" where
  \<comment> \<open>the members of \<open>SessionEventMap\<close> declared by the Session package itself\<close>
  "core_event_types = surface_event_types @
     [''turn/start'', ''turn/end'', ''step/start'', ''step/end'', ''assistant/attempt'', ''tool/call'',
      ''request/header'', ''request/context'', ''session/end-seed'']"

definition nodes_below :: "nat \<Rightarrow> fold_state \<Rightarrow> bool" where
  "nodes_below n st \<longleftrightarrow> list_all (\<lambda>m. m < n) (fs_nodes st)"

text \<open>
  The interface of the projections a session is given: a definition interprets an event type of
  its own, and answers from the events before its candidate, as \<open>SessionMessageProjectionContext\<close>
  documents.
\<close>

locale message_projections =
  fixes projections :: "projection list"
  assumes plugin_owned: "p \<in> set projections \<Longrightarrow> mp_type p \<notin> set core_event_types"
    and committed_only:
      "p \<in> set projections \<Longrightarrow> list_all (\<lambda>m. m < length es) nodes \<Longrightarrow>
       mp_project p e nodes (es @ xs) 0 messages = mp_project p e nodes es 0 messages"

lemma event_in_window_append:
  "n < length es \<Longrightarrow> event_in_window (es @ xs) 0 n = event_in_window es 0 n"
  by (simp add: event_in_window_def nth_opt_def nth_append)

lemma event_in_window_0: "event_in_window es 0 n = nth_opt es n"
  by (simp add: event_in_window_def)

lemma image_project_committed:
  assumes "list_all (\<lambda>m. m < length es) nodes"
  shows "image_offload_project nodes (es @ xs) 0 messages e = image_offload_project nodes es 0 messages e"
proof -
  have "project_target nodes (es @ xs) 0 messages = project_target nodes es 0 messages"
  proof (intro ext)
    fix acc t
    show "project_target nodes (es @ xs) 0 messages acc t = project_target nodes es 0 messages acc t"
      using assms unfolding project_target_def list_all_iff Let_def
      by (auto simp: event_in_window_append split: option.splits json.splits)
  qed
  then show ?thesis by (simp only: image_offload_project_def)
qed

interpretation image_projection: message_projections "[image_offload_projection k]" for k
  by unfold_locales
    (auto simp: image_offload_projection_def core_event_types_def surface_event_types_def
      image_project_committed)

section \<open>Transitions depend on the committed prefix only\<close>

lemma replacement_range_Some:
  assumes "replacement_range nodes s t = Inr (i, j, sh)"
  shows "i \<le> j" and "j < length nodes" and "sh = take (j + 1 - i) (drop i nodes)"
    and "nodes ! i = s" and "nodes ! j = t"
  using assms by (auto simp: replacement_range_def split: option.splits if_splits dest!: index_of_Some)

lemma shadowed_subset:
  "replacement_range nodes s t = Inr (i, j, sh) \<Longrightarrow> set sh \<subseteq> set nodes"
  using replacement_range_Some(3) by (metis set_drop_subset set_take_subset subset_trans)

lemma assert_developer_header_append:
  assumes "ev_seq e = length es"
  shows "assert_developer_header e (es @ xs) 0 = assert_developer_header e es 0"
proof (cases "ev_data e")
  case (DeveloperMessage t s m headerSeq)
  show ?thesis
  proof (cases headerSeq)
    case (Some v)
    show ?thesis
    proof (cases "seq_of v < length es")
      case True
      then show ?thesis
        by (simp add: assert_developer_header_def DeveloperMessage Some Let_def event_in_window_append)
    next
      case False
      then show ?thesis
        using assms
        by (auto simp: assert_developer_header_def DeveloperMessage Some Let_def event_in_window_0
            bindO_def intro!: arg_cong[of _ _ "bindE _"] split: option.splits event_data.splits)
    qed
  qed (simp add: assert_developer_header_def DeveloperMessage)
qed (simp_all add: assert_developer_header_def)

lemma assert_tool_result_rewrite_append:
  assumes "list_all (\<lambda>m. m < length es) sh"
  shows "assert_tool_result_rewrite e sh (es @ xs) 0 = assert_tool_result_rewrite e sh es 0"
  using assms by (cases sh) (auto simp: assert_tool_result_rewrite_def event_in_window_append
      split: event_data.split list.split)

lemma head_is_system_append:
  "list_all (\<lambda>m. m < length es) nodes \<Longrightarrow> head_is_system nodes (es @ xs) 0 = head_is_system nodes es 0"
  by (cases nodes) (simp_all add: head_is_system_def event_in_window_append nth_opt_def)

lemma assert_system_head_rewrite_append:
  "list_all (\<lambda>m. m < length es) nodes \<Longrightarrow>
   assert_system_head_rewrite e nodes i sh (es @ xs) 0 = assert_system_head_rewrite e nodes i sh es 0"
  by (simp add: assert_system_head_rewrite_def head_is_system_append)

lemma nodes_below_apply:
  assumes "plan_surface_event ps st e n es base = Inr plan" and "nodes_below n st"
  shows "nodes_below (Suc n) (fst (apply_surface_plan st plan))"
proof -
  have seq: "ev_seq e = n" using assms(1) by (auto simp: plan_surface_event_def split: if_splits)
  have below: "nodes_below (Suc n) st" using assms(2) by (auto simp: nodes_below_def list_all_iff)
  show ?thesis
  proof (cases plan)
    case (AppendPlan m)
    then have "m = n" using assms(1) seq
      by (auto simp: plan_surface_event_def split: if_splits option.splits sum.splits surface_op.splits)
    then show ?thesis using below AppendPlan by (simp add: nodes_below_def)
  next
    case (ReplacePlan r i j)
    then have "rp_seq r = n" using assms(1) seq
      by (auto simp: plan_surface_event_def split: if_splits option.splits sum.splits surface_op.splits)
    then show ?thesis using below ReplacePlan set_to_spliced_subset[of i "j - i + 1" "[rp_seq r]" "fs_nodes st"]
      by (auto simp: nodes_below_def list_all_iff)
  qed (use below in \<open>simp_all add: nodes_below_def\<close>)
qed

context message_projections begin

lemma plan_append:
  assumes "nodes_below (length es) st" and "n = length es"
  shows "plan_surface_event projections st e n (es @ xs) 0 = plan_surface_event projections st e n es 0"
proof (cases "ev_seq e = n")
  case True
  have below: "list_all (\<lambda>m. m < length es) (fs_nodes st)" using assms(1) by (simp add: nodes_below_def)
  have proj: "mp_project p e (fs_nodes st) (es @ xs) 0 ms = mp_project p e (fs_nodes st) es 0 ms"
    if "List.find (\<lambda>p. mp_type p = event_type (ev_data e)) projections = Some p" for p ms
    using that below committed_only by (metis find_Some_iff nth_mem)
  have range: "bindE (assert_source_event_references e sh) (\<lambda>_.
        bindE (assert_tool_result_rewrite e sh (es @ xs) 0) (\<lambda>_.
          bindE (assert_system_head_rewrite e (fs_nodes st) i sh (es @ xs) 0) (\<lambda>_. k))) =
      bindE (assert_source_event_references e sh) (\<lambda>_.
        bindE (assert_tool_result_rewrite e sh es 0) (\<lambda>_.
          bindE (assert_system_head_rewrite e (fs_nodes st) i sh es 0) (\<lambda>_. k)))"
    if "replacement_range (fs_nodes st) s t = Inr (i, j, sh)" for s t i j sh and k :: "surface_error + surface_plan"
  proof -
    have "list_all (\<lambda>m. m < length es) sh" using shadowed_subset[OF that] below by (auto simp: list_all_iff)
    then show ?thesis using below
      by (simp add: assert_tool_result_rewrite_append assert_system_head_rewrite_append)
  qed
  have replace: "bindE (replacement_range (fs_nodes st) s t) (\<lambda>(i, j, sh). bindE (assert_source_event_references e sh) (\<lambda>_.
        bindE (assert_tool_result_rewrite e sh (es @ xs) 0) (\<lambda>_.
          bindE (assert_system_head_rewrite e (fs_nodes st) i sh (es @ xs) 0) (\<lambda>_. k i j sh)))) =
      bindE (replacement_range (fs_nodes st) s t) (\<lambda>(i, j, sh). bindE (assert_source_event_references e sh) (\<lambda>_.
        bindE (assert_tool_result_rewrite e sh es 0) (\<lambda>_.
          bindE (assert_system_head_rewrite e (fs_nodes st) i sh es 0) (\<lambda>_. k i j sh))))"
    for s t and k :: "nat \<Rightarrow> nat \<Rightarrow> nat list \<Rightarrow> surface_error + surface_plan"
    using range by (cases "replacement_range (fs_nodes st) s t") (simp, auto)
  show ?thesis
    unfolding plan_surface_event_def assert_developer_header_append[OF True[unfolded assms(2)], of xs] replace
    using proj by (cases "List.find (\<lambda>p. mp_type p = event_type (ev_data e)) projections") simp_all
qed (simp add: plan_surface_event_def)


lemma fold_step_append:
  assumes "nodes_below (length es) st"
  shows "fold_step projections (es @ xs) (st, rs) (length es, e) = fold_step projections es (st, rs) (length es, e)"
  using plan_append[OF assms refl] by (simp add: fold_step_def apply_surface_event_def)

lemma fold_window:
  "foldE (fold_step projections (es @ xs)) (create_fold_state, []) (enumerate 0 es) = fold_surface_state projections es
   \<and> (\<forall>st rs. fold_surface_state projections es = Inr (st, rs) \<longrightarrow> nodes_below (length es) st)"
proof (induction es arbitrary: xs rule: rev_induct)
  case Nil
  then show ?case by (simp add: fold_surface_state_def create_fold_state_def nodes_below_def)
next
  case (snoc e es)
  have run: "foldE (fold_step projections ((es @ [e]) @ xs)) (create_fold_state, []) (enumerate 0 (es @ [e])) =
      bindE (fold_surface_state projections es) (\<lambda>acc. fold_step projections es acc (length es, e))" for xs
  proof -
    have "foldE (fold_step projections (es @ ([e] @ xs))) (create_fold_state, []) (enumerate 0 es)
        = fold_surface_state projections es" using snoc by blast
    then show ?thesis
      using snoc fold_step_append[of es _ "[e] @ xs" _ e]
      by (cases "fold_surface_state projections es")
        (auto simp: enumerate_append_eq foldE_append)
  qed
  have eq: "fold_surface_state projections (es @ [e]) =
      bindE (fold_surface_state projections es) (\<lambda>acc. fold_step projections es acc (length es, e))"
    using run[of "[]"] by (simp add: fold_surface_state_def)
  have "nodes_below (length (es @ [e])) st"
    if res: "fold_surface_state projections (es @ [e]) = Inr (st, rs)" for st rs
  proof -
    obtain st0 rs0 where 0: "fold_surface_state projections es = Inr (st0, rs0)"
      and step: "fold_step projections es (st0, rs0) (length es, e) = Inr (st, rs)"
      using res eq by auto
    then have "nodes_below (length es) st0" using snoc by blast
    moreover obtain plan where "plan_surface_event projections st0 e (length es) es 0 = Inr plan"
      and "st = fst (apply_surface_plan st0 plan)"
      using step by (auto simp: fold_step_def apply_surface_event_def split: prod.splits)
    ultimately show ?thesis using nodes_below_apply by simp
  qed
  then show ?case using run eq by metis
qed

lemma fold_snoc:
  "fold_surface_state projections (es @ [e]) =
   bindE (fold_surface_state projections es) (\<lambda>acc. fold_step projections es acc (length es, e))"
proof -
  have "fold_surface_state projections (es @ [e]) =
      bindE (foldE (fold_step projections (es @ [e])) (create_fold_state, []) (enumerate 0 es))
        (\<lambda>acc. fold_step projections (es @ [e]) acc (length es, e))"
    by (simp add: fold_surface_state_def enumerate_append_eq foldE_append)
  also have "\<dots> = bindE (fold_surface_state projections es) (\<lambda>acc. fold_step projections (es @ [e]) acc (length es, e))"
    using fold_window[of es "[e]"] by simp
  also have "\<dots> = bindE (fold_surface_state projections es) (\<lambda>acc. fold_step projections es acc (length es, e))"
    using fold_window[of es "[]"] fold_step_append[of es _ "[e]" _ e]
    by (cases "fold_surface_state projections es") auto
  finally show ?thesis .
qed

lemma fold_nodes_below: "fold_surface_state projections es = Inr (st, rs) \<Longrightarrow> nodes_below (length es) st"
  using fold_window by blast

lemma fold_snocE:
  assumes "fold_surface_state projections (es @ [e]) = Inr (st, rs)"
  obtains st0 rs0 plan where "fold_surface_state projections es = Inr (st0, rs0)"
    and "plan_surface_event projections st0 e (length es) es 0 = Inr plan"
    and "st = fst (apply_surface_plan st0 plan)"
    and "rs = rs0 @ (case snd (apply_surface_plan st0 plan) of None \<Rightarrow> [] | Some r \<Rightarrow> [r])"
  using assms unfolding fold_snoc
  by (fastforce simp: fold_step_def apply_surface_event_def split: prod.splits option.splits)

lemma fold_prefix: "fold_surface_state projections (es @ xs) = Inr acc \<Longrightarrow> \<exists>acc0. fold_surface_state projections es = Inr acc0"
proof (induction xs arbitrary: acc rule: rev_induct)
  case (snoc x xs)
  then show ?case by (simp only: append_assoc[symmetric] fold_snoc) auto
qed simp


definition mg_ok :: "session_event list \<Rightarrow> manager \<Rightarrow> bool" where
  \<comment> \<open>the state folds the processed prefix, and a pending plan is the plan of that state\<close>
  "mg_ok log mg \<longleftrightarrow> mg_next mg \<le> length log \<and>
     (\<exists>rs. fold_surface_state projections (take (mg_next mg) log) = Inr (mg_state mg, rs)) \<and>
     (case mg_pending mg of None \<Rightarrow> True | Some (pe, ex, plan) \<Rightarrow> ex = mg_next mg \<and>
        plan_surface_event projections (mg_state mg) pe ex (take ex log) 0 = Inr plan)"

lemma mg_ok_append: "mg_ok log mg \<Longrightarrow> mg_ok (log @ xs) mg"
  unfolding mg_ok_def by (auto split: option.splits)

lemma mg_ok_new: "mg_ok [] (new_manager 0)"
  by (simp add: mg_ok_def new_manager_def fold_surface_state_def)

lemma planned_projection_known:
  "plan_surface_event projections st e n es base = Inr (ProjectPlan p ms) \<Longrightarrow> p \<in> mp_id ` set projections"
  by (auto simp: plan_surface_event_def dest!: find_SomeD
      split: if_splits option.splits sum.splits surface_op.splits)

lemma fold_projections_known:
  "fold_surface_state projections es = Inr (st, rs) \<Longrightarrow> set (fs_projections st) \<subseteq> mp_id ` set projections"
proof (induction es arbitrary: st rs rule: rev_induct)
  case Nil
  then show ?case by (auto simp: fold_surface_state_def create_fold_state_def)
next
  case (snoc e es)
  then obtain st0 rs0 plan where 0: "fold_surface_state projections es = Inr (st0, rs0)"
    and p: "plan_surface_event projections st0 e (length es) es 0 = Inr plan"
    and st: "st = fst (apply_surface_plan st0 plan)"
    by (elim fold_snocE)
  have "set (fs_projections st0) \<subseteq> mp_id ` set projections" using snoc.IH[OF 0] .
  then show ?case using planned_projection_known p unfolding st by (cases plan) auto
qed

lemma assert_projections_ok:
  assumes "mg_ok log0 mg"
  shows "assert_projections projections 0 log mg = Inr ()"
proof -
  have "set (fs_projections (mg_state mg)) \<subseteq> mp_id ` set projections"
    using assms fold_projections_known unfolding mg_ok_def by blast
  moreover have "p \<in> mp_id ` set projections" if "mg_pending mg = Some (pe, ex, ProjectPlan p ms)" for pe ex p ms
    using assms that planned_projection_known by (auto simp: mg_ok_def)
  ultimately have "set (required_projections 0 log mg) \<subseteq> mp_id ` set projections"
  proof (cases "mg_pending mg")
    case (Some c)
    then obtain pe ex plan where c: "mg_pending mg = Some (pe, ex, plan)" by (cases c) auto
    assume "set (fs_projections (mg_state mg)) \<subseteq> mp_id ` set projections"
      and "\<And>pe ex p ms. mg_pending mg = Some (pe, ex, ProjectPlan p ms) \<Longrightarrow> p \<in> mp_id ` set projections"
    then show ?thesis using c by (cases plan) (auto simp: required_projections_def)
  qed (simp add: required_projections_def)
  then show ?thesis
    by (cases "List.find (\<lambda>p. p \<notin> set (map mp_id projections)) (required_projections 0 log mg)")
      (auto simp: assert_projections_def dest!: find_SomeD)
qed

lemma process_one_ok:
  assumes ok: "mg_ok log mg" and lt: "mg_next mg < length log"
    and folds: "fold_surface_state projections log = Inr acc"
  obtains mg' where "process_one projections 0 log mg (mg_next mg) = Inr mg'"
    and "mg_ok log mg'" and "mg_next mg' = Suc (mg_next mg)"
proof -
  let ?n = "mg_next mg" and ?e = "log ! mg_next mg"
  have split: "log = (take ?n log @ [?e]) @ drop (Suc ?n) log"
    using lt by (simp add: id_take_nth_drop[symmetric])
  have take: "take (Suc ?n) log = take ?n log @ [?e]" and len: "length (take ?n log) = ?n"
    using lt by (simp_all add: take_Suc_conv_app_nth)
  obtain rs0 where 0: "fold_surface_state projections (take ?n log) = Inr (mg_state mg, rs0)"
    using ok by (auto simp: mg_ok_def)
  obtain st1 rs1 where 1: "fold_surface_state projections (take ?n log @ [?e]) = Inr (st1, rs1)"
    using fold_prefix folds split by (metis surj_pair)
  obtain plan where p: "plan_surface_event projections (mg_state mg) ?e ?n (take ?n log) 0 = Inr plan"
    and "st1 = fst (apply_surface_plan (mg_state mg) plan)"
    using fold_snocE[OF 1] 0 len by (metis Inr_inject prod.inject)
  then obtain r1 where st1: "apply_surface_plan (mg_state mg) plan = (st1, r1)"
    by (cases "apply_surface_plan (mg_state mg) plan") simp
  have below: "nodes_below ?n (mg_state mg)" using fold_nodes_below[OF 0] len by simp
  have full: "plan_surface_event projections (mg_state mg) ?e ?n log 0 = Inr plan"
    using plan_append[of "take ?n log" "mg_state mg" ?n ?e "drop ?n log"] below len p by simp
  have pend: "plan' = plan" if "mg_pending mg = Some (?e, ?n, plan')" for plan'
    using ok that p by (simp add: mg_ok_def)
  define mg' where "mg' = mg\<lparr>mg_state := st1, mg_next := Suc ?n, mg_pending := None\<rparr>"
  have "process_one projections 0 log mg ?n = Inr mg'"
    using ok full pend st1 unfolding mg'_def
    by (cases "mg_pending mg")
      (auto simp: process_one_def Let_def apply_surface_event_def mg_ok_def split: prod.splits)
  moreover have "mg_ok log mg'" using lt 1 by (auto simp: mg'_def mg_ok_def take)
  ultimately show ?thesis using that by (simp add: mg'_def)
qed

lemma process_delta_ok:
  assumes "mg_ok log mg" and "fold_surface_state projections log = Inr acc" and "k = length log - mg_next mg"
  shows "\<exists>mg'. process_delta projections 0 log mg = Inr mg' \<and> mg_ok log mg' \<and> mg_next mg' = length log"
  using assms
proof (induction k arbitrary: mg)
  case 0
  then show ?case by (auto simp: process_delta_def mg_ok_def)
next
  case (Suc k)
  then have lt: "mg_next mg < length log" by simp
  obtain mg1 where 1: "process_one projections 0 log mg (mg_next mg) = Inr mg1"
    "mg_ok log mg1" "mg_next mg1 = Suc (mg_next mg)"
    using process_one_ok[OF Suc.prems(1) lt Suc.prems(2)] .
  have "process_delta projections 0 log mg = process_delta projections 0 log mg1"
    using lt 1 by (simp add: process_delta_def upt_conv_Cons)
  then show ?case using Suc.IH[OF 1(2) Suc.prems(2)] Suc.prems(3) 1(3) by simp
qed

lemma sync_ok:
  assumes "mg_ok log mg" and "fold_surface_state projections log = Inr (st, rs)"
  obtains mg' where "sync projections 0 log mg = Inr mg'" and "mg_ok log mg'"
    and "mg_next mg' = length log" and "mg_state mg' = st"
proof -
  obtain mg' where "sync projections 0 log mg = Inr mg'" "mg_ok log mg'" "mg_next mg' = length log"
    using process_delta_ok[OF assms refl] assms(1) assert_projections_ok[OF assms(1), of log]
    by (cases "mg_next mg < length log") (auto simp: sync_def mg_ok_def)
  moreover from this have "mg_state mg' = st" using assms(2) by (auto simp: mg_ok_def)
  ultimately show ?thesis using that by blast
qed


lemma validate_next_ok:
  assumes "mg_ok log mg" and "fold_surface_state projections log = Inr (st, rs)"
  shows "case plan_surface_event projections st e (length log) log 0 of
           Inl err \<Rightarrow> validate_next projections 0 log mg e = Inl err
         | Inr plan \<Rightarrow> \<exists>mg'. validate_next projections 0 log mg e = Inr mg' \<and> mg_ok log mg'
              \<and> mg_state mg' = st"
proof -
  obtain mg1 where 1: "sync projections 0 log mg = Inr mg1" "mg_ok log mg1"
    "mg_next mg1 = length log" "mg_state mg1 = st"
    using sync_ok[OF assms] .
  show ?thesis
  proof (cases "plan_surface_event projections st e (length log) log 0")
    case (Inl err)
    then show ?thesis using 1 by (simp add: validate_next_def Let_def)
  next
    case (Inr plan)
    then show ?thesis using 1 by (simp add: validate_next_def Let_def mg_ok_def)
  qed
qed

lemma fold_snoc_iff:
  assumes "fold_surface_state projections log = Inr (st, rs)"
  shows "(\<exists>acc. fold_surface_state projections (log @ [e]) = Inr acc) \<longleftrightarrow>
         (\<exists>plan. plan_surface_event projections st e (length log) log 0 = Inr plan)"
  unfolding fold_snoc using assms
  by (cases "plan_surface_event projections st e (length log) log 0")
    (auto simp: fold_step_def apply_surface_event_def split: prod.splits)

end

section \<open>The manager reads what the fold computes\<close>

abbreviation folds :: "projection list \<Rightarrow> session_event list \<Rightarrow> bool" where
  "folds projections log \<equiv> (\<exists>acc. fold_surface_state projections log = Inr acc)"

text \<open>
  The life of a manager beside its log, as a step relation: a candidate is validated, a validated
  candidate enters the log, and readers look at the surface in between.
\<close>

inductive managed :: "projection list \<Rightarrow> session_event list \<Rightarrow> manager \<Rightarrow> bool" for projections where
  start: "managed projections [] (new_manager 0)"
| validated: "managed projections log mg \<Longrightarrow> validate_next projections 0 log mg e = Inr mg'
    \<Longrightarrow> managed projections log mg'"
| admitted: "managed projections log mg \<Longrightarrow> validate_next projections 0 log mg e = Inr mg'
    \<Longrightarrow> managed projections (log @ [e]) mg'"
| read: "managed projections log mg \<Longrightarrow> sync projections 0 log mg = Inr mg'
    \<Longrightarrow> managed projections log mg'"

context message_projections begin

lemma managed_ok:
  "managed projections log mg \<Longrightarrow> mg_ok log mg \<and> folds projections log"
proof (induction rule: managed.induct)
  case start
  then show ?case by (simp add: mg_ok_new) (simp add: fold_surface_state_def)
next
  case (validated log mg e mg')
  then obtain st rs where f: "fold_surface_state projections log = Inr (st, rs)" by auto
  with validated show ?case
    using validate_next_ok[OF _ f, of mg e]
    by (cases "plan_surface_event projections st e (length log) log 0") auto
next
  case (admitted log mg e mg')
  then obtain st rs where f: "fold_surface_state projections log = Inr (st, rs)" by auto
  then obtain plan where p: "plan_surface_event projections st e (length log) log 0 = Inr plan"
    using validate_next_ok[OF _ f, of mg e] admitted
    by (cases "plan_surface_event projections st e (length log) log 0") auto
  then have "mg_ok log mg'" using validate_next_ok[OF _ f, of mg e] admitted by auto
  then show ?case using fold_snoc_iff[OF f] p mg_ok_append by blast
next
  case (read log mg mg')
  then obtain st rs where f: "fold_surface_state projections log = Inr (st, rs)" by auto
  have ok: "mg_ok log mg" using read by blast
  obtain mg1 where 1: "sync projections 0 log mg = Inr mg1" "mg_ok log mg1"
    using sync_ok[OF ok f] .
  then have "mg' = mg1" using read(2) by simp
  then show ?case using 1(2) f by simp
qed

end


text \<open>C8: a candidate passes the append-boundary check exactly when the log with the candidate
  appended replays.\<close>

theorem validate_next_iff_fold:
  assumes "message_projections projections" and "managed projections log mg"
  shows "(\<exists>mg'. validate_next projections 0 log mg e = Inr mg')
     \<longleftrightarrow> (\<exists>res. fold_surface (log @ [e]) projections = Inr res)"
proof -
  note ok = message_projections.managed_ok[OF assms]
  then obtain st rs where f: "fold_surface_state projections log = Inr (st, rs)" by auto
  have "(\<exists>res. fold_surface (log @ [e]) projections = Inr res) \<longleftrightarrow> folds projections (log @ [e])"
    by (auto simp: fold_surface_def)
  also have "\<dots> \<longleftrightarrow> (\<exists>plan. plan_surface_event projections st e (length log) log 0 = Inr plan)"
    by (rule message_projections.fold_snoc_iff[OF assms(1) f])
  also have "\<dots> \<longleftrightarrow> (\<exists>mg'. validate_next projections 0 log mg e = Inr mg')"
    using message_projections.validate_next_ok[OF assms(1) conjunct1[OF ok] f, of e]
    by (cases "plan_surface_event projections st e (length log) log 0") auto
  finally show ?thesis by blast
qed

definition ex_user :: "nat \<Rightarrow> json option \<Rightarrow> session_event" where
  "ex_user n op = \<lparr>ev_seq = n, ev_time = 0,
     ev_data = UserMessage \<lparr>msg_id = ''u'', msg_role = User, msg_content = [TextBlock ''hi''],
       msg_source = UserSource, msg_tool_call_id = None, msg_is_error = None\<rparr>,
     ev_surface_op = op, ev_source_event_seqs = None, ev_ignorable = False\<rparr>"

lemma ex_user_plan:
  "plan_surface_event [image_offload_projection 0] st (ex_user n (Some (JStr ''append''))) n es 0 = Inr (AppendPlan n)"
  by (simp add: plan_surface_event_def ex_user_def validate_surface_metadata_def surface_op_of_def
      assert_source_event_references_def cited_sources_def assert_developer_header_def
      image_offload_projection_def)

lemma image_projections: "message_projections [image_offload_projection k]"
  by (rule image_projection.message_projections_axioms)

lemma ex_managed:
  "\<exists>mg. managed [image_offload_projection 0] [ex_user 0 (Some (JStr ''append''))] mg"
proof -
  have "\<exists>mg. validate_next [image_offload_projection 0] 0 [] (new_manager 0) (ex_user 0 (Some (JStr ''append''))) = Inr mg"
    by (simp add: validate_next_def sync_def assert_projections_def required_projections_def
        new_manager_def create_fold_state_def ex_user_plan Let_def)
  then show ?thesis using managed.admitted[OF managed.start] by fastforce
qed


theorem validate_next_iff_fold_witness:
  "\<exists>mg. (\<exists>mg'. validate_next [image_offload_projection 0] 0 [ex_user 0 (Some (JStr ''append''))] mg (ex_user 1 None) = Inr mg')
     \<longleftrightarrow> (\<exists>res. fold_surface ([ex_user 0 (Some (JStr ''append''))] @ [ex_user 1 None]) [image_offload_projection 0] = Inr res)"
  using validate_next_iff_fold[OF image_projections] ex_managed by blast

section \<open>Every message event is a node or shadowed once\<close>

fun is_tool_result :: "event_data \<Rightarrow> bool" where
  "is_tool_result (ToolResult _ _ _ _ _) = True"
| "is_tool_result _ = False"

definition justified :: "session_event list \<Rightarrow> replacement \<Rightarrow> bool" where
  "justified es r \<longleftrightarrow> rp_seq r < length es \<and> rp_shadowed r \<noteq> []
     \<and> hd (rp_shadowed r) = rp_start r \<and> last (rp_shadowed r) = rp_end r
     \<and> (case cited_sources (es ! rp_seq r) of
          Inr sources \<Rightarrow> set (rp_shadowed r) \<subseteq> set sources \<and> list_all (\<lambda>s. s < rp_seq r) sources
        | Inl _ \<Rightarrow> False)
     \<and> (is_tool_result (ev_data (es ! rp_seq r)) \<longrightarrow> length (rp_shadowed r) = 1
          \<and> tool_rest_equal (ev_data (es ! rp_start r)) (ev_data (es ! rp_seq r)))"

lemma first_not_earlier_None: "first_not_earlier n ss = None \<longleftrightarrow> list_all (\<lambda>s. s < n) ss"
  by (induction ss) auto

lemma cited_sources_earlier: "cited_sources e = Inr ss \<Longrightarrow> list_all (\<lambda>s. s < ev_seq e) ss"
  by (auto simp: cited_sources_def Let_def first_not_earlier_None
      split: option.splits json.splits if_splits)

lemma references_cited:
  "assert_source_event_references e sh = Inr u \<Longrightarrow>
   \<exists>ss. cited_sources e = Inr ss \<and> set sh \<subseteq> set ss"
  by (auto simp: assert_source_event_references_def Let_def filter_empty_conv split: if_splits)

lemma range_ends:
  assumes "replacement_range nodes s t = Inr (i, j, sh)"
  shows "sh \<noteq> []" and "hd sh = s" and "last sh = t"
proof -
  note ij = replacement_range_Some[OF assms]
  have len: "length sh = j + 1 - i" using ij by simp
  then show "sh \<noteq> []" using ij(1) by auto
  then show "hd sh = s" using ij by (simp add: hd_conv_nth)
  show "last sh = t" using ij \<open>sh \<noteq> []\<close> len by (simp add: last_conv_nth)
qed

lemma rewrite_equal:
  assumes "assert_tool_result_rewrite e sh es 0 = Inr u" and "list_all (\<lambda>m. m < length es) sh"
    and "is_tool_result (ev_data e)"
  shows "length sh = 1 \<and> tool_rest_equal (ev_data (es ! hd sh)) (ev_data e)"
  using assms
  by (auto simp: assert_tool_result_rewrite_def event_in_window_0 nth_opt_def
      split: event_data.splits list.splits if_splits)


definition plan_facts :: "fold_state \<Rightarrow> session_event \<Rightarrow> nat \<Rightarrow> session_event list \<Rightarrow> surface_plan \<Rightarrow> bool" where
  "plan_facts st e n es plan \<longleftrightarrow> ev_seq e = n \<and>
     (case plan of
        NoPlan \<Rightarrow> \<not> is_surface_eligible_type (ev_data e)
      | AppendPlan m \<Rightarrow> m = n \<and> is_surface_eligible_type (ev_data e)
      | ReplacePlan r i j \<Rightarrow> is_surface_eligible_type (ev_data e) \<and> rp_seq r = n
          \<and> replacement_range (fs_nodes st) (rp_start r) (rp_end r) = Inr (i, j, rp_shadowed r)
          \<and> assert_source_event_references e (rp_shadowed r) = Inr ()
          \<and> assert_tool_result_rewrite e (rp_shadowed r) es 0 = Inr ()
          \<and> assert_system_head_rewrite e (fs_nodes st) i (rp_shadowed r) es 0 = Inr ()
      | ProjectPlan p ms \<Rightarrow> \<not> is_surface_eligible_type (ev_data e))"

lemma surface_op_of_eligible:
  "surface_op_of e = Inr op \<Longrightarrow> is_surface_eligible_type (ev_data e) \<longleftrightarrow> op \<noteq> None"
  by (auto simp: surface_op_of_def split: if_splits option.splits)

lemma metadata_op: "validate_surface_metadata e = Inr op \<Longrightarrow> surface_op_of e = Inr op"
proof (cases "surface_op_of e")
  case (Inr op0)
  assume "validate_surface_metadata e = Inr op"
  with Inr show ?thesis
    by (cases op0) (auto simp: validate_surface_metadata_def split: surface_op.splits if_splits)
qed (simp add: validate_surface_metadata_def)

lemmas metadata_eligible = surface_op_of_eligible[OF metadata_op]

context message_projections begin

lemma plan_facts:
  assumes "plan_surface_event projections st e n es 0 = Inr plan"
  shows "plan_facts st e n es plan"
proof -
  from assms obtain op where seq: "ev_seq e = n" and op: "validate_surface_metadata e = Inr op"
    by (auto simp: plan_surface_event_def split: if_splits)
  show ?thesis
  proof (cases "List.find (\<lambda>p. mp_type p = event_type (ev_data e)) projections")
    case (Some p)
    then have "\<not> is_surface_eligible_type (ev_data e)"
      using find_SomeD[OF Some] plugin_owned[of p] surface_event_types_iff[of "ev_data e"]
      by (auto simp: core_event_types_def)
    moreover obtain ms where "plan = ProjectPlan (mp_id p) ms"
      using assms seq op Some by (auto simp: plan_surface_event_def split: sum.splits)
    ultimately show ?thesis using seq by (simp add: plan_facts_def)
  next
    case None
    show ?thesis
    proof (cases op)
      case None
      then show ?thesis
        using assms seq op \<open>List.find _ _ = None\<close> metadata_eligible[OF op]
        by (auto simp: plan_surface_event_def plan_facts_def split: if_splits)
    next
      case (Some sop)
      then show ?thesis
        using assms seq op \<open>List.find _ _ = None\<close> metadata_eligible[OF op]
        by (cases sop) (auto simp: plan_surface_event_def plan_facts_def split: if_splits)
    qed
  qed
qed

lemma fold_partition:
  assumes "fold_surface_state projections es = Inr (st, rs)"
  shows "mset (fs_nodes st) + mset (concat (map rp_shadowed rs)) =
         mset (filter (\<lambda>i. is_surface_eligible_type (ev_data (es ! i))) [0 ..< length es])"
  using assms
proof (induction es arbitrary: st rs rule: rev_induct)
  case Nil
  then show ?case by (auto simp: fold_surface_state_def create_fold_state_def)
next
  case (snoc e es)
  obtain st0 rs0 plan where 0: "fold_surface_state projections es = Inr (st0, rs0)"
    and p: "plan_surface_event projections st0 e (length es) es 0 = Inr plan"
    and st: "st = fst (apply_surface_plan st0 plan)"
    and rs: "rs = rs0 @ (case snd (apply_surface_plan st0 plan) of None \<Rightarrow> [] | Some r \<Rightarrow> [r])"
    using fold_snocE[OF snoc.prems] .
  have "filter (\<lambda>i. is_surface_eligible_type (ev_data ((es @ [e]) ! i))) [0 ..< length es] =
      filter (\<lambda>i. is_surface_eligible_type (ev_data (es ! i))) [0 ..< length es]"
    by (rule filter_cong) (simp_all add: nth_append)
  then have IH: "mset (fs_nodes st0) + mset (concat (map rp_shadowed rs0)) =
      mset (filter (\<lambda>i. is_surface_eligible_type (ev_data ((es @ [e]) ! i))) [0 ..< length es])"
    using snoc.IH[OF 0] by simp
  note facts = plan_facts[OF p]
  show ?case
  proof (cases plan)
    case (ReplacePlan r i j)
    have range: "replacement_range (fs_nodes st0) (rp_start r) (rp_end r) = Inr (i, j, rp_shadowed r)"
      using facts ReplacePlan by (simp add: plan_facts_def)
    note ij = replacement_range_Some[OF range]
    let ?nodes = "to_spliced i (j - i + 1) [rp_seq r] (fs_nodes st0)"
    have step: "mset ?nodes + mset (rp_shadowed r) = mset (fs_nodes st0) + {#rp_seq r#}"
      using mset_to_spliced[of i "j - i + 1" "fs_nodes st0" "[rp_seq r]"] ij by (simp add: Suc_diff_le)
    have "mset (fs_nodes st) + mset (concat (map rp_shadowed rs))
        = (mset ?nodes + mset (rp_shadowed r)) + mset (concat (map rp_shadowed rs0))"
      using ReplacePlan by (simp add: st rs ac_simps)
    also have "\<dots> = (mset (fs_nodes st0) + mset (concat (map rp_shadowed rs0))) + {#rp_seq r#}"
      unfolding step by (simp add: ac_simps)
    finally show ?thesis using IH facts ReplacePlan by (simp add: plan_facts_def)
  qed (use IH facts in \<open>auto simp: st rs plan_facts_def\<close>)
qed


lemma head_step:
  assumes "fold_surface_state projections es = Inr (st0, rs0)"
    and "fold_surface_state projections (es @ [e]) = Inr (st, rs)"
    and "head_is_system (fs_nodes st0) es 0"
  shows "head_is_system (fs_nodes st) (es @ [e]) 0"
proof -
  obtain plan where p: "plan_surface_event projections st0 e (length es) es 0 = Inr plan"
    and st: "st = fst (apply_surface_plan st0 plan)"
    using fold_snocE[OF assms(2)] assms(1) by (metis Inr_inject prod.inject)
  note facts = plan_facts[OF p]
  have below: "list_all (\<lambda>m. m < length es) (fs_nodes st0)"
    using fold_nodes_below[OF assms(1)] by (simp add: nodes_below_def)
  have old: "head_is_system (fs_nodes st0) (es @ [e]) 0"
    using assms(3) below by (simp add: head_is_system_append)
  obtain h ns where nodes: "fs_nodes st0 = h # ns"
    using assms(3) by (cases "fs_nodes st0") (auto simp: head_is_system_def)
  show ?thesis
  proof (cases plan)
    case (ReplacePlan r i j)
    have head: "assert_system_head_rewrite e (fs_nodes st0) i (rp_shadowed r) es 0 = Inr ()"
      and seq: "rp_seq r = length es"
      using facts ReplacePlan by (simp_all add: plan_facts_def)
    show ?thesis
    proof (cases "i = 0")
      case True
      then have "is_system_message (ev_data e)"
        using head assms(3) by (simp add: assert_system_head_rewrite_def)
      then show ?thesis using True seq ReplacePlan
        by (simp add: st to_spliced_def head_is_system_def event_in_window_0)
    next
      case False
      then show ?thesis using old ReplacePlan
        by (cases i) (simp_all add: st nodes to_spliced_def head_is_system_def)
    qed
  qed (use old nodes in \<open>simp_all add: st head_is_system_def\<close>)
qed

lemma fold_justified:
  assumes "fold_surface_state projections es = Inr (st, rs)"
  shows "list_all (justified es) rs"
  using assms
proof (induction es arbitrary: st rs rule: rev_induct)
  case Nil
  then show ?case by (auto simp: fold_surface_state_def)
next
  case (snoc e es)
  obtain st0 rs0 plan where 0: "fold_surface_state projections es = Inr (st0, rs0)"
    and p: "plan_surface_event projections st0 e (length es) es 0 = Inr plan"
    and rs: "rs = rs0 @ (case snd (apply_surface_plan st0 plan) of None \<Rightarrow> [] | Some r \<Rightarrow> [r])"
    using fold_snocE[OF snoc.prems] .
  have below: "nodes_below (length es) st0" using fold_nodes_below[OF 0] .
  have "justified (es @ [e]) r" if j: "justified es r" for r
  proof -
    have lt: "rp_seq r < length es" using j by (simp add: justified_def)
    obtain ss where "cited_sources (es ! rp_seq r) = Inr ss" "set (rp_shadowed r) \<subseteq> set ss"
      "list_all (\<lambda>s. s < rp_seq r) ss" "rp_shadowed r \<noteq> []"
      using j by (auto simp: justified_def split: sum.splits)
    then have "hd (rp_shadowed r) < length es" using lt by (force simp: list_all_iff dest: hd_in_set)
    then show ?thesis using j lt by (simp add: justified_def nth_append)
  qed
  then have old: "list_all (justified (es @ [e])) rs0" using snoc.IH[OF 0] by (auto simp: list_all_iff)
  note facts = plan_facts[OF p]
  show ?case
  proof (cases plan)
    case (ReplacePlan r i j)
    have range: "replacement_range (fs_nodes st0) (rp_start r) (rp_end r) = Inr (i, j, rp_shadowed r)"
      and refs: "assert_source_event_references e (rp_shadowed r) = Inr ()"
      and rewrite: "assert_tool_result_rewrite e (rp_shadowed r) es 0 = Inr ()"
      and seq: "rp_seq r = length es" "ev_seq e = length es"
      using facts ReplacePlan by (simp_all add: plan_facts_def)
    have sh: "list_all (\<lambda>m. m < length es) (rp_shadowed r)"
      using shadowed_subset[OF range] below by (auto simp: nodes_below_def list_all_iff)
    obtain ss where "cited_sources e = Inr ss" "set (rp_shadowed r) \<subseteq> set ss"
      using references_cited[OF refs] by blast
    moreover have "hd (rp_shadowed r) < length es"
      using sh range_ends(1)[OF range] by (simp add: list_all_iff)
    ultimately have "justified (es @ [e]) r"
      using range_ends[OF range] cited_sources_earlier[of e ss] seq rewrite_equal[OF rewrite sh]
      by (simp add: justified_def nth_append)
    then show ?thesis using old ReplacePlan by (simp add: rs)
  qed (use old in \<open>simp_all add: rs\<close>)
qed

end

text \<open>C4: after any accepted log, the events of the message-producing types are exactly the
  current nodes and the shadowed entries of its replacements, none of them twice: no message is
  lost and none is repeated.\<close>

theorem surface_partition:
  assumes "message_projections projections" and "fold_surface es projections = Inr res"
  shows "distinct (fr_nodes res @ concat (map rp_shadowed (fr_replacements res)))
       \<and> set (fr_nodes res @ concat (map rp_shadowed (fr_replacements res)))
           = {i. i < length es \<and> is_surface_eligible_type (ev_data (es ! i))}"
proof -
  obtain st where st: "fold_surface_state projections es = Inr (st, fr_replacements res)"
    and n: "fr_nodes res = fs_nodes st"
    using assms(2) by (auto simp: fold_surface_def)
  have m: "mset (fr_nodes res @ concat (map rp_shadowed (fr_replacements res))) =
      mset (filter (\<lambda>i. is_surface_eligible_type (ev_data (es ! i))) [0 ..< length es])"
    using message_projections.fold_partition[OF assms(1) st] by (simp only: n mset_append)
  have "distinct (filter (\<lambda>i. is_surface_eligible_type (ev_data (es ! i))) [0 ..< length es])" by simp
  then show ?thesis using mset_eq_imp_distinct_iff[OF m] mset_eq_setD[OF m] by auto
qed

text \<open>C15: once the surface starts with a system prompt it always does: no accepted continuation of
  the log shadows node 0 by anything but another system message.\<close>

theorem system_head_protected:
  assumes "message_projections projections" and "fold_surface es projections = Inr res"
    and "fold_surface (es @ later) projections = Inr res'" and "head_is_system (fr_nodes res) es 0"
  shows "head_is_system (fr_nodes res') (es @ later) 0"
proof -
  have "head_is_system (fs_nodes st') (es @ later) 0"
    if "fold_surface_state projections (es @ later) = Inr (st', rs')" for st' rs'
    using that
  proof (induction later arbitrary: st' rs' rule: rev_induct)
    case Nil
    then show ?case using assms(2,4) by (auto simp: fold_surface_def)
  next
    case (snoc x xs)
    have s: "fold_surface_state projections ((es @ xs) @ [x]) = Inr (st', rs')" using snoc.prems by simp
    then obtain st1 rs1 where 1: "fold_surface_state projections (es @ xs) = Inr (st1, rs1)"
      using message_projections.fold_prefix[OF assms(1) s] by auto
    show ?case using message_projections.head_step[OF assms(1) 1 s snoc.IH[OF 1]] by simp
  qed
  then show ?thesis using assms(3) by (auto simp: fold_surface_def)
qed


definition ex_system :: "nat \<Rightarrow> json \<Rightarrow> json option \<Rightarrow> session_event" where
  "ex_system n op sources = \<lparr>ev_seq = n, ev_time = 0,
     ev_data = SystemMessage 0 0 (create_system_message ''s'' ''p''),
     ev_surface_op = Some op, ev_source_event_seqs = sources, ev_ignorable = False\<rparr>"

definition replace_json :: "nat \<Rightarrow> nat \<Rightarrow> json" where
  "replace_json s t = JObj [(''op'', JStr ''replace''), (''startSeq'', seq_json s), (''endSeq'', seq_json t)]"

definition ex_surface_log :: "session_event list" where
  "ex_surface_log = [ex_system 0 (JStr ''append'') None, ex_user 1 (Some (JStr ''append'')),
     ex_system 2 (replace_json 0 0) (Some (JArr [seq_json 0]))]"

lemma ex_system_plans:
  "plan_surface_event [image_offload_projection 0] st (ex_system n (JStr ''append'') None) n es 0 = Inr (AppendPlan n)"
  "plan_surface_event [image_offload_projection 0] (st\<lparr>fs_nodes := [0, 1]\<rparr>)
     (ex_system 2 (replace_json 0 0) (Some (JArr [seq_json 0]))) 2 es 0 =
   Inr (ReplacePlan \<lparr>rp_seq = 2, rp_start = 0, rp_end = 0, rp_shadowed = [0]\<rparr> 0 0)"
  by (simp_all add: plan_surface_event_def ex_system_def validate_surface_metadata_def surface_op_of_def
      assert_source_event_references_def cited_sources_def assert_developer_header_def
      image_offload_projection_def replace_json_def is_replace_op_def seq_json_def safe_int_def max_safe_def
      replacement_range_def assert_tool_result_rewrite_def assert_system_head_rewrite_def
      is_system_message_def Let_def)

lemma ex_surface_fold:
  "fold_surface ex_surface_log [image_offload_projection 0] =
     Inr \<lparr>fr_nodes = [2, 1], fr_replacements = [\<lparr>rp_seq = 2, rp_start = 0, rp_end = 0, rp_shadowed = [0]\<rparr>],
          fr_projected_messages = []\<rparr>"
  "fold_surface (take 2 ex_surface_log) [image_offload_projection 0] =
     Inr \<lparr>fr_nodes = [0, 1], fr_replacements = [], fr_projected_messages = []\<rparr>"
  using ex_system_plans(2)[of create_fold_state]
  by (simp_all add: ex_surface_log_def fold_surface_def fold_surface_state_def fold_step_def
      apply_surface_event_def ex_system_plans(1) ex_user_plan create_fold_state_def to_spliced_def
      numeral_2_eq_2)

theorem surface_partition_witness:
  "distinct ([2, 1] @ [0::nat])
   \<and> set ([2, 1] @ [0]) = {i. i < length ex_surface_log \<and> is_surface_eligible_type (ev_data (ex_surface_log ! i))}"
  using surface_partition[OF image_projections ex_surface_fold(1)] by simp

theorem system_head_protected_witness:
  "head_is_system [2, 1] ex_surface_log 0"
  using system_head_protected[OF image_projections ex_surface_fold(2), of "drop 2 ex_surface_log"]
    ex_surface_fold(1)
  by (simp add: head_is_system_def event_in_window_0 ex_surface_log_def ex_system_def is_system_message_def)


end
