(* ===== verification/Repair.thy ===== *)
theory Repair imports SessionTypes begin

text \<open>
  Recovery of unanswered tool requests and of an open tail turn
  (\<open>packages/core/session/src/repair.ts\<close>): \<open>ToolCallRecovery\<close> as a state with one operation per
  method, and \<open>openTurnClosers\<close> on top of it. The lemmas show that the synthetic events continue
  the log, answer exactly the pending calls, and close the tail.
\<close>

section \<open>Causes and wording\<close>

datatype close_cause = ByInterruption | ByFork

fun cause_kind :: "close_cause \<Rightarrow> string" where
  "cause_kind ByInterruption = ''interrupted''"
| "cause_kind ByFork = ''forked''"

fun cause_end_reason :: "close_cause \<Rightarrow> turn_end_reason" where
  \<comment> \<open>\<open>{ kind: cause.kind }\<close>\<close>
  "cause_end_reason ByInterruption = Interrupted"
| "cause_end_reason ByFork = Forked"

fun closer_text :: "close_cause \<Rightarrow> bool \<Rightarrow> string" where
  \<comment> \<open>whether the call was recorded as started\<close>
  "closer_text ByInterruption True =
     ''The tool call was interrupted after it was recorded, but no result was durably recorded. Its outcome is unknown. Decide whether to retry from the tool semantics: retry only if the operation is read-only or idempotent; if it may have side effects, first verify external state or ask the user. Do not retry blindly.''"
| "closer_text ByInterruption False =
     ''The tool call was interrupted before the Harness recorded it as started. Retry it if it is still needed.''"
| "closer_text ByFork True =
     ''The history inherited by this branch records this tool call starting but does not include its result. The parent session may have completed it after the fork point. Decide whether to retry from the tool semantics: retry only if the operation is read-only or idempotent; if it may have side effects, first verify external state or ask the user. Do not retry blindly.''"
| "closer_text ByFork False =
     ''The history inherited by this branch has no record of this tool call starting. The parent session may have executed it after the fork point. Decide whether to retry from the tool semantics: retry only if the operation is read-only or idempotent; if it may have side effects, first verify external state or ask the user. Do not retry blindly.''"

declare closer_text.simps [simp del]

section \<open>Tracking pending tool calls\<close>

record pending_call =
  pc_turn :: nat
  pc_step :: nat
  pc_call_seq :: "nat option"

record recovery =
  rv_cause :: close_cause
  rv_pending :: "(string \<times> pending_call) list"
  rv_last :: "(nat \<times> int) option"

definition new_recovery :: "close_cause \<Rightarrow> recovery" where
  "new_recovery c = \<lparr>rv_cause = c, rv_pending = [], rv_last = None\<rparr>"

fun source_call_id :: "message_source \<Rightarrow> string option" where
  "source_call_id (ToolSource cid) = Some cid"
| "source_call_id _ = None"

fun add_requests :: "nat \<Rightarrow> nat \<Rightarrow> content_block list \<Rightarrow> (string \<times> pending_call) list
    \<Rightarrow> (string \<times> pending_call) list" where
  "add_requests t s [] p = p"
| "add_requests t s (ToolCallBlock cid nm args # bs) p =
     add_requests t s bs (AList.update cid \<lparr>pc_turn = t, pc_step = s, pc_call_seq = None\<rparr> p)"
| "add_requests t s (_ # bs) p = add_requests t s bs p"

definition observe_pending ::
  "session_event \<Rightarrow> (string \<times> pending_call) list \<Rightarrow> (string \<times> pending_call) list" where
  "observe_pending e p =
     (case ev_data e of
        TurnStart _ \<Rightarrow> []
      | TurnEnd _ _ \<Rightarrow> []
      | StepEnd _ _ \<Rightarrow> []
      | AssistantMessage t s m _ _ _ \<Rightarrow> add_requests t s (msg_content m) p
      | ToolCall _ _ cid _ _ \<Rightarrow> AList.map_entry cid (\<lambda>c. c\<lparr>pc_call_seq := Some (ev_seq e)\<rparr>) p
      | ToolResult t s m _ _ \<Rightarrow>
          (case source_call_id (msg_source m) of
             None \<Rightarrow> p
           | Some cid \<Rightarrow>
               (case map_of p cid of
                  Some c \<Rightarrow>
                    if ev_surface_op e = Some (JStr ''append'') \<and> pc_turn c = t \<and> pc_step c = s
                    then AList.delete cid p else p
                | None \<Rightarrow> p))
      | _ \<Rightarrow> p)"

definition observe :: "recovery \<Rightarrow> session_event \<Rightarrow> recovery" where
  "observe r e = r\<lparr>rv_pending := observe_pending e (rv_pending r), rv_last := Some (ev_seq e, ev_time e)\<rparr>"

definition recovered_result :: "close_cause \<Rightarrow> nat \<Rightarrow> int \<Rightarrow> string \<Rightarrow> pending_call \<Rightarrow> session_event" where
  "recovered_result cause n time callId c =
     (let started = pc_call_seq c \<noteq> None in
      \<lparr>ev_seq = n, ev_time = time,
       ev_data = ToolResult (pc_turn c) (pc_step c)
         \<lparr>msg_id = cause_kind cause @ ''-tool-result-'' @ callId @ ''-'' @ dec_nat n,
          msg_role = Tool, msg_content = [TextBlock (closer_text cause started)],
          msg_source = ToolSource callId, msg_tool_call_id = Some callId, msg_is_error = Some True\<rparr>
         (Some (if started
            then \<lparr>te_name = ''ToolOutcomeUnknownError'', te_code = ''TOOL_OUTCOME_UNKNOWN'', te_reason = None\<rparr>
            else \<lparr>te_name = ''ToolNotStartedError'', te_code = ''TOOL_NOT_STARTED'', te_reason = None\<rparr>))
         None,
       ev_surface_op = Some (JStr ''append''),
       ev_source_event_seqs = map_option (\<lambda>q. JArr [seq_json q]) (pc_call_seq c),
       ev_ignorable = False\<rparr>)"

fun results_from :: "close_cause \<Rightarrow> nat \<Rightarrow> int \<Rightarrow> (string \<times> pending_call) list \<Rightarrow> session_event list" where
  "results_from cause n time [] = []"
| "results_from cause n time ((cid, c) # p) =
     recovered_result cause n time cid c # results_from cause (Suc n) time p"

definition results :: "recovery \<Rightarrow> session_event list" where
  "results r =
     (case rv_last r of
        None \<Rightarrow> []
      | Some (n, time) \<Rightarrow> results_from (rv_cause r) (n + 1) time (rv_pending r))"

section \<open>Closing an open tail turn\<close>

type_synonym boundary = "nat option \<times> nat option"  \<comment> \<open>open turn and open step\<close>

definition boundary_step :: "boundary \<Rightarrow> session_event \<Rightarrow> boundary" where
  "boundary_step b e =
     (case ev_data e of
        TurnStart t \<Rightarrow> (Some t, None)
      | TurnEnd _ _ \<Rightarrow> (None, None)
      | StepStart _ s \<Rightarrow> (fst b, Some s)
      | StepEnd _ _ \<Rightarrow> (fst b, None)
      | _ \<Rightarrow> b)"

definition boundary_of :: "session_event list \<Rightarrow> boundary" where
  "boundary_of events = foldl boundary_step (None, None) events"

definition recover :: "close_cause \<Rightarrow> session_event list \<Rightarrow> recovery" where
  "recover cause events = foldl observe (new_recovery cause) events"

definition open_turn_closers :: "session_event list \<Rightarrow> close_cause \<Rightarrow> session_event list" where
  "open_turn_closers events cause =
     (case (fst (boundary_of events), last_opt events) of
        (Some turn, Some lst) \<Rightarrow>
          let rs = results (recover cause events);
              n = ev_seq lst + length rs + 1;
              steps = (case snd (boundary_of events) of
                         Some s \<Rightarrow> [log_only n (ev_time lst) (StepEnd turn s)]
                       | None \<Rightarrow> [])
          in rs @ steps
               @ [log_only (n + length steps) (ev_time lst) (TurnEnd turn (cause_end_reason cause))]
      | _ \<Rightarrow> [])"

definition interrupted_turn_closers :: "session_event list \<Rightarrow> session_event list" where
  "interrupted_turn_closers events = open_turn_closers events ByInterruption"

section \<open>The recovery state along a log\<close>

lemma recover_simps [simp]:
  "recover c [] = new_recovery c"
  "recover c (es @ [e]) = observe (recover c es) e"
  by (simp_all add: recover_def)

lemma boundary_of_simps [simp]:
  "boundary_of [] = (None, None)"
  "boundary_of (es @ [e]) = boundary_step (boundary_of es) e"
  by (simp_all add: boundary_of_def)

lemma recover_cause [simp]: "rv_cause (recover c es) = c"
  by (induction es rule: rev_induct) (simp_all add: new_recovery_def observe_def)

lemma recover_last: "rv_last (recover c es) = map_option (\<lambda>e. (ev_seq e, ev_time e)) (last_opt es)"
  by (cases es rule: rev_cases) (simp_all add: new_recovery_def observe_def)

lemma length_results_from [simp]: "length (results_from c n t p) = length p"
  by (induction c n t p rule: results_from.induct) auto

lemma results_from_seqs: "map ev_seq (results_from c n t p) = [n ..< n + length p]"
proof (induction c n t p rule: results_from.induct)
  case (2 c n t cid q p)
  then show ?case by (simp add: recovered_result_def Let_def upt_conv_Cons del: upt_Suc)
qed simp

lemma distinct_add_requests:
  "distinct (map fst p) \<Longrightarrow> distinct (map fst (add_requests t s bs p))"
  by (induction t s bs p rule: add_requests.induct) (simp_all add: distinct_update)

lemma distinct_pending: "distinct (map fst (rv_pending (recover c es)))"
proof (induction es rule: rev_induct)
  case (snoc e es)
  then show ?case
    by (auto simp: observe_def observe_pending_def distinct_delete
        intro!: distinct_add_requests split: event_data.splits option.splits)
qed (simp add: new_recovery_def)

lemma observe_recovered:
  "observe_pending (recovered_result cause n t cid c) ((cid, c) # p) = AList.delete cid p"
  by (simp add: observe_pending_def recovered_result_def Let_def)

lemma observe_results_from:
  assumes "distinct (map fst p)"
  shows "rv_pending (foldl observe (r\<lparr>rv_pending := p\<rparr>) (results_from cause n t p)) = []"
  using assms
proof (induction cause n t p arbitrary: r rule: results_from.induct)
  case (2 cause n t cid c p)
  have "observe (r\<lparr>rv_pending := (cid, c) # p\<rparr>) (recovered_result cause n t cid c) =
        (r\<lparr>rv_last := Some (n, t)\<rparr>)\<lparr>rv_pending := p\<rparr>"
    using "2.prems" delete_notin[of cid p]
    by (simp add: observe_def observe_recovered) (simp add: recovered_result_def Let_def)
  then show ?case using "2.IH"[of "r\<lparr>rv_last := Some (n, t)\<rparr>"] "2.prems" by simp
qed simp

section \<open>Unanswered requests\<close>

definition clears_calls :: "session_event \<Rightarrow> bool" where
  "clears_calls e = (case ev_data e of TurnStart _ \<Rightarrow> True | TurnEnd _ _ \<Rightarrow> True | StepEnd _ _ \<Rightarrow> True | _ \<Rightarrow> False)"

definition requests_call :: "session_event \<Rightarrow> string \<Rightarrow> nat \<Rightarrow> nat \<Rightarrow> bool" where
  "requests_call e cid t s =
     (case ev_data e of
        AssistantMessage t' s' m _ _ _ \<Rightarrow> t' = t \<and> s' = s
          \<and> list_ex (\<lambda>b. case b of ToolCallBlock c _ _ \<Rightarrow> c = cid | _ \<Rightarrow> False) (msg_content m)
      | _ \<Rightarrow> False)"

definition answers_call :: "session_event \<Rightarrow> string \<Rightarrow> nat \<Rightarrow> nat \<Rightarrow> bool" where
  "answers_call e cid t s =
     (case ev_data e of
        ToolResult t' s' m _ _ \<Rightarrow> t' = t \<and> s' = s \<and> msg_source m = ToolSource cid
          \<and> ev_surface_op e = Some (JStr ''append'')
      | _ \<Rightarrow> False)"

definition unanswered :: "session_event list \<Rightarrow> string \<Rightarrow> nat \<Rightarrow> nat \<Rightarrow> bool" where
  \<comment> \<open>requested by an assistant message, and since then neither requested again, answered by an
    appended result of the same turn and step, nor dropped at a boundary\<close>
  "unanswered es cid t s \<longleftrightarrow>
     (\<exists>i < length es. requests_call (es ! i) cid t s \<and>
        (\<forall>j. i < j \<and> j < length es \<longrightarrow> \<not> clears_calls (es ! j) \<and> \<not> answers_call (es ! j) cid t s
              \<and> (\<forall>t' s'. \<not> requests_call (es ! j) cid t' s')))"

lemma unanswered_snoc:
  "unanswered (es @ [e]) cid t s \<longleftrightarrow>
     requests_call e cid t s \<or>
     (unanswered es cid t s \<and> \<not> clears_calls e \<and> \<not> answers_call e cid t s
      \<and> (\<forall>t' s'. \<not> requests_call e cid t' s'))"
proof (cases "requests_call e cid t s")
  case True
  then show ?thesis
    unfolding unanswered_def by (intro iffI disjI1 exI[of _ "length es"]) (auto simp: nth_append)
next
  case False
  show ?thesis
    unfolding unanswered_def using False
    by (auto simp: nth_append less_Suc_eq split: if_splits)
qed

definition requested_in :: "string \<Rightarrow> content_block list \<Rightarrow> bool" where
  "requested_in cid bs = list_ex (\<lambda>b. case b of ToolCallBlock c _ _ \<Rightarrow> c = cid | _ \<Rightarrow> False) bs"

lemma map_of_add_requests:
  "map_of (add_requests t s bs p) cid =
     (if requested_in cid bs then Some \<lparr>pc_turn = t, pc_step = s, pc_call_seq = None\<rparr> else map_of p cid)"
  by (induction t s bs p rule: add_requests.induct) (auto simp: requested_in_def update_conv')

definition pends :: "(string \<times> pending_call) list \<Rightarrow> string \<Rightarrow> nat \<Rightarrow> nat \<Rightarrow> bool" where
  "pends p cid t s \<longleftrightarrow> (\<exists>c. map_of p cid = Some c \<and> pc_turn c = t \<and> pc_step c = s)"

lemma source_call_id_Some: "source_call_id src = Some cid \<longleftrightarrow> src = ToolSource cid"
  by (cases src) auto

lemma pends_observe:
  "pends (observe_pending e p) cid t s \<longleftrightarrow>
     requests_call e cid t s \<or>
     (pends p cid t s \<and> \<not> clears_calls e \<and> \<not> answers_call e cid t s
      \<and> (\<forall>t' s'. \<not> requests_call e cid t' s'))"
proof (cases "ev_data e")
  case (AssistantMessage t' s' m st u i)
  then show ?thesis
    by (auto simp: observe_pending_def pends_def map_of_add_requests requests_call_def
        clears_calls_def answers_call_def requested_in_def[symmetric])
next
  case (ToolCall t' s' c n a)
  then show ?thesis
    by (auto simp: observe_pending_def pends_def map_of_map_entry requests_call_def
        clears_calls_def answers_call_def)
next
  case (ToolResult t' s' m er mt)
  then show ?thesis
    by (cases "msg_source m")
      (auto simp: observe_pending_def pends_def requests_call_def clears_calls_def answers_call_def
        delete_conv' split: option.splits if_splits)
qed (auto simp: observe_pending_def pends_def requests_call_def clears_calls_def answers_call_def)

lemma pends_iff_unanswered: "pends (rv_pending (recover c es)) cid t s \<longleftrightarrow> unanswered es cid t s"
proof (induction es rule: rev_induct)
  case Nil
  then show ?case by (simp add: new_recovery_def pends_def unanswered_def)
next
  case (snoc e es)
  then show ?case
    using pends_observe[of e "rv_pending (recover c es)" cid t s]
    by (simp add: observe_def unanswered_snoc)
qed

section \<open>The closers\<close>

definition answered_by :: "session_event \<Rightarrow> (string \<times> nat \<times> nat) option" where
  "answered_by e =
     (case ev_data e of
        ToolResult t s m _ _ \<Rightarrow> map_option (\<lambda>cid. (cid, t, s)) (source_call_id (msg_source m))
      | _ \<Rightarrow> None)"

lemma answered_results:
  "List.map_filter answered_by (results_from cause n time p) =
     map (\<lambda>(cid, c). (cid, pc_turn c, pc_step c)) p"
  by (induction cause n time p rule: results_from.induct)
    (simp_all add: answered_by_def recovered_result_def Let_def List.map_filter_simps)

lemma answered_log_only [simp]:
  "answered_by (log_only n t (StepEnd a b)) = None"
  "answered_by (log_only n t (TurnEnd a r)) = None"
  by (simp_all add: answered_by_def log_only_def)

lemma map_filter_append: "List.map_filter f (xs @ ys) = List.map_filter f xs @ List.map_filter f ys"
  by (induction xs) (auto simp: List.map_filter_simps split: option.splits)

lemma boundary_nonempty: "fst (boundary_of es) \<noteq> None \<Longrightarrow> last_opt es \<noteq> None"
  by (cases es rule: rev_cases) auto

lemma open_turn_closers_eq:
  assumes "fst (boundary_of es) = Some turn"
  obtains lst steps where "last_opt es = Some lst"
    and "steps = (case snd (boundary_of es) of None \<Rightarrow> []
           | Some s \<Rightarrow> [log_only (ev_seq lst + length (rv_pending (recover c es)) + 1) (ev_time lst) (StepEnd turn s)])"
    and "open_turn_closers es c =
           results_from c (ev_seq lst + 1) (ev_time lst) (rv_pending (recover c es)) @ steps @
           [log_only (ev_seq lst + length (rv_pending (recover c es)) + 1 + length steps) (ev_time lst)
              (TurnEnd turn (cause_end_reason c))]"
proof -
  obtain lst where "last_opt es = Some lst" using boundary_nonempty assms by fastforce
  then show ?thesis
    using assms that[of lst] recover_last[of c es]
    by (auto simp: open_turn_closers_def results_def Let_def split: option.splits)
qed

text \<open>C5: the closers of an open log answer exactly the requests the log leaves unanswered, each
  once, at the turn and step that requested it.\<close>

theorem closers_answer_unanswered:
  assumes "fst (boundary_of es) \<noteq> None"
  shows "set (List.map_filter answered_by (open_turn_closers es c)) = {(cid, t, s). unanswered es cid t s}
       \<and> distinct (map fst (List.map_filter answered_by (open_turn_closers es c)))"
proof -
  let ?p = "rv_pending (recover c es)"
  obtain turn where turn: "fst (boundary_of es) = Some turn" using assms by auto
  have eq: "List.map_filter answered_by (open_turn_closers es c) =
        map (\<lambda>(cid, c). (cid, pc_turn c, pc_step c)) ?p"
    by (rule open_turn_closers_eq[OF turn, of c])
      (auto simp: map_filter_append answered_results List.map_filter_simps split: option.splits)
  have d: "distinct (map fst ?p)" by (rule distinct_pending)
  have "(cid, t, s) \<in> set (map (\<lambda>(cid, c). (cid, pc_turn c, pc_step c)) ?p) \<longleftrightarrow> pends ?p cid t s" for cid t s
    unfolding pends_def map_of_eq_Some_iff[OF d] by auto
  then show ?thesis
    unfolding eq using d by (auto simp: pends_iff_unanswered o_def split_beta)
qed

definition ex_open_log :: "session_event list" where
  "ex_open_log =
     [log_only 0 5 (TurnStart 0), log_only 1 6 (StepStart 0 1),
      \<lparr>ev_seq = 2, ev_time = 7,
       ev_data = AssistantMessage 0 1
         (create_assistant_message ''m'' [ToolCallBlock ''a'' ''ls'' ''{}'', ToolCallBlock ''b'' ''cat'' ''{}'']
            ''p'' ''q'' None) [] None False,
       ev_surface_op = Some (JStr ''append''), ev_source_event_seqs = None, ev_ignorable = False\<rparr>,
      log_only 3 8 (ToolCall 0 1 ''b'' ''cat'' ''{}'')]"

lemma ex_open_pending:
  "rv_pending (recover c ex_open_log) =
     [(''a'', \<lparr>pc_turn = 0, pc_step = 1, pc_call_seq = None\<rparr>),
      (''b'', \<lparr>pc_turn = 0, pc_step = 1, pc_call_seq = Some 3\<rparr>)]"
  by (simp add: ex_open_log_def recover_def new_recovery_def observe_def observe_pending_def
      log_only_def create_assistant_message_def)

lemma ex_open_boundary: "boundary_of ex_open_log = (Some 0, Some 1)"
  by (simp add: ex_open_log_def boundary_of_def boundary_step_def log_only_def)

lemma ex_open_last: "last_opt ex_open_log = Some (log_only 3 8 (ToolCall 0 1 ''b'' ''cat'' ''{}''))"
  by (simp add: ex_open_log_def last_opt_def)

theorem closers_answer_unanswered_witness:
  "set (List.map_filter answered_by (open_turn_closers ex_open_log ByFork))
     = {(cid, t, s). unanswered ex_open_log cid t s}
   \<and> unanswered ex_open_log ''b'' 0 1"
  using closers_answer_unanswered[of ex_open_log ByFork]
    pends_iff_unanswered[of ByFork ex_open_log "''b''" 0 1, unfolded ex_open_pending]
  by (simp add: ex_open_boundary pends_def)

lemma boundary_results:
  "foldl boundary_step b (results_from c n t p) = b"
  by (induction c n t p rule: results_from.induct)
    (simp_all add: boundary_step_def recovered_result_def Let_def)

text \<open>the closers leave no open turn, so repairing a repaired log, for whatever cause, adds
  nothing.\<close>

theorem closers_balance:
  "fst (boundary_of (es @ open_turn_closers es c)) = None
   \<and> open_turn_closers (es @ open_turn_closers es c) c' = []"
proof -
  have closed: "fst (boundary_of (es @ open_turn_closers es c)) = None"
  proof (cases "fst (boundary_of es)")
    case None
    then show ?thesis by (simp add: open_turn_closers_def)
  next
    case (Some turn)
    show ?thesis
      by (rule open_turn_closers_eq[OF Some, of c])
        (simp add: boundary_of_def boundary_step_def log_only_def)
  qed
  then show ?thesis by (simp add: open_turn_closers_def)
qed

text \<open>C25: the closers continue a contiguous log contiguously and reuse the last event's time.\<close>

theorem closers_contiguous:
  assumes "contiguous es"
  shows "contiguous (es @ open_turn_closers es c)
       \<and> list_all (\<lambda>e. last_opt es \<noteq> None \<and> ev_time e = ev_time (last es)) (open_turn_closers es c)"
proof (cases "fst (boundary_of es)")
  case None
  then show ?thesis using assms by (simp add: open_turn_closers_def)
next
  case (Some turn)
  have times: "list_all (\<lambda>e. ev_time e = t) (results_from c n t p)" for n t p
    by (induction c n t p rule: results_from.induct) (simp_all add: recovered_result_def Let_def)
  show ?thesis
  proof (rule open_turn_closers_eq[OF Some, of c])
    fix lst steps
    let ?p = "rv_pending (recover c es)"
    assume lst: "last_opt es = Some lst"
      and steps: "steps = (case snd (boundary_of es) of None \<Rightarrow> []
           | Some s \<Rightarrow> [log_only (ev_seq lst + length ?p + 1) (ev_time lst) (StepEnd turn s)])"
      and eq: "open_turn_closers es c = results_from c (ev_seq lst + 1) (ev_time lst) ?p @ steps @
           [log_only (ev_seq lst + length ?p + 1 + length steps) (ev_time lst)
              (TurnEnd turn (cause_end_reason c))]"
    have len: "length es = Suc (ev_seq lst)" and last: "last es = lst"
      using lst assms by (auto simp: last_opt_eq_Some)
    have "map ev_seq (open_turn_closers es c) = [Suc (ev_seq lst) ..< Suc (ev_seq lst) + length (open_turn_closers es c)]"
      unfolding eq using steps
      by (auto simp: results_from_seqs log_only_def upt_add_eq_append add.assoc split: option.splits)
    then show ?thesis
      unfolding contiguous_append len using assms times[where t = "ev_time lst"] lst last steps
      by (auto simp: eq log_only_def split: option.splits)
  qed
qed

theorem closers_contiguous_witness:
  "contiguous (ex_open_log @ open_turn_closers ex_open_log ByInterruption)
   \<and> length (open_turn_closers ex_open_log ByInterruption) = 4"
proof -
  have "contiguous ex_open_log" by (simp add: contiguous_def ex_open_log_def log_only_def upt_rec)
  moreover have "length (open_turn_closers ex_open_log ByInterruption) = 4"
    by (simp add: open_turn_closers_def ex_open_boundary results_def recover_last ex_open_last ex_open_pending)
  ultimately show ?thesis using closers_contiguous[of ex_open_log ByInterruption] by simp
qed

section \<open>Recorded starts\<close>

definition records_start :: "session_event list \<Rightarrow> string \<Rightarrow> nat \<Rightarrow> bool" where
  "records_start es cid q \<longleftrightarrow>
     q < length es \<and> (case ev_data (es ! q) of ToolCall _ _ cid' _ _ \<Rightarrow> cid' = cid | _ \<Rightarrow> False)"

definition starts_recorded :: "session_event list \<Rightarrow> (string \<times> pending_call) list \<Rightarrow> bool" where
  "starts_recorded es p \<longleftrightarrow>
     (\<forall>(cid, c) \<in> set p. \<forall>q. pc_call_seq c = Some q \<longrightarrow> records_start es cid q)"

lemma records_start_mono: "records_start es cid q \<Longrightarrow> records_start (es @ [e]) cid q"
  by (simp add: records_start_def nth_append)

lemma starts_recorded_mono: "starts_recorded es p \<Longrightarrow> starts_recorded (es @ [e]) p"
  unfolding starts_recorded_def by (blast intro: records_start_mono)

lemma starts_recorded_add: "starts_recorded es p \<Longrightarrow> starts_recorded es (add_requests t s bs p)"
proof (induction t s bs p rule: add_requests.induct)
  case (2 t s cid nm args bs p)
  have "starts_recorded es (AList.update cid \<lparr>pc_turn = t, pc_step = s, pc_call_seq = None\<rparr> p)"
    using "2.prems" set_update_subset unfolding starts_recorded_def by fastforce
  then show ?case using "2.IH" by simp
qed simp_all

lemma starts_recorded_observe:
  assumes "starts_recorded es p" and "ev_seq e = length es"
  shows "starts_recorded (es @ [e]) (observe_pending e p)"
proof (cases "ev_data e")
  case (ToolCall t s cid nm args)
  have new: "records_start (es @ [e]) cid (ev_seq e)"
    using ToolCall assms(2) by (simp add: records_start_def)
  have old: "starts_recorded (es @ [e]) p" using assms(1) by (rule starts_recorded_mono)
  show ?thesis
    unfolding starts_recorded_def observe_pending_def ToolCall event_data.case
    using set_map_entry[of cid "\<lambda>c. c\<lparr>pc_call_seq := Some (ev_seq e)\<rparr>" p] new old
    unfolding starts_recorded_def by fastforce
next
  case (ToolResult t s m er mt)
  have "starts_recorded (es @ [e]) (AList.delete cid p)" for cid
    using starts_recorded_mono[OF assms(1), of e]
    unfolding starts_recorded_def AList.delete_eq by auto
  then show ?thesis
    using ToolResult starts_recorded_mono[OF assms(1), of e]
    by (auto simp: observe_pending_def split: option.splits)
next
  case (AssistantMessage t s m st u i)
  then show ?thesis
    using starts_recorded_add[OF starts_recorded_mono[OF assms(1), of e]]
    by (simp add: observe_pending_def)
qed (use starts_recorded_mono[OF assms(1), of e] in \<open>simp_all add: observe_pending_def starts_recorded_def[of _ "[]"]\<close>)

lemma starts_recorded_recover: "contiguous es \<Longrightarrow> starts_recorded es (rv_pending (recover c es))"
  by (induction es rule: rev_induct)
    (simp_all add: new_recovery_def starts_recorded_def[of _ "[]"] observe_def starts_recorded_observe)

text \<open>A closer that reports an unknown outcome cites the recorded start of its own call, and a
  closer that reports a call as never started cites nothing.\<close>

theorem closers_cite_starts:
  assumes "contiguous es" and "e \<in> set (open_turn_closers es c)"
    and "ev_data e = ToolResult t s m (Some er) meta"
  shows "(te_code er = ''TOOL_OUTCOME_UNKNOWN'' \<longrightarrow>
            (\<exists>q cid. ev_source_event_seqs e = Some (JArr [seq_json q]) \<and> msg_source m = ToolSource cid
                   \<and> records_start es cid q))
       \<and> (te_code er \<noteq> ''TOOL_OUTCOME_UNKNOWN'' \<longrightarrow>
            te_code er = ''TOOL_NOT_STARTED'' \<and> ev_source_event_seqs e = None)"
proof -
  let ?p = "rv_pending (recover c es)"
  have member: "\<exists>n' cid q. e' = recovered_result c n' t' cid q \<and> (cid, q) \<in> set p"
    if "e' \<in> set (results_from c n t' p)" for e' n t' p
    using that by (induction c n t' p rule: results_from.induct) auto
  obtain turn where turn: "fst (boundary_of es) = Some turn"
    using assms(2) by (cases "fst (boundary_of es)") (auto simp: open_turn_closers_def)
  define lst where "lst = the (last_opt es)"
  have "e \<in> set (results_from c (ev_seq lst + 1) (ev_time lst) ?p)"
    by (rule open_turn_closers_eq[OF turn, of c])
      (use assms(2,3) in \<open>auto simp: log_only_def lst_def split: option.splits\<close>)
  then obtain n' t' cid q where "e = recovered_result c n' t' cid q" and "(cid, q) \<in> set ?p"
    using member by blast
  moreover from this have "pc_call_seq q = Some k \<Longrightarrow> records_start es cid k" for k
    using starts_recorded_recover[OF assms(1), of c] unfolding starts_recorded_def by blast
  ultimately show ?thesis
    using assms(3) by (cases "pc_call_seq q") (auto simp: recovered_result_def)
qed

theorem closers_cite_starts_witness:
  "let e = open_turn_closers ex_open_log ByFork ! 1 in
   \<exists>q cid. ev_source_event_seqs e = Some (JArr [seq_json q]) \<and> records_start ex_open_log cid q"
proof -
  have c: "contiguous ex_open_log" by (simp add: contiguous_def ex_open_log_def log_only_def upt_rec)
  have cl: "open_turn_closers ex_open_log ByFork =
      results_from ByFork 4 8 (rv_pending (recover ByFork ex_open_log)) @
      [log_only 6 8 (StepEnd 0 1), log_only 7 8 (TurnEnd 0 Forked)]"
    by (simp add: open_turn_closers_def ex_open_boundary results_def recover_last ex_open_last
        ex_open_pending log_only_def)
  show ?thesis
    using closers_cite_starts[OF c, of "open_turn_closers ex_open_log ByFork ! 1" ByFork]
    by (simp add: cl ex_open_pending recovered_result_def Let_def) blast
qed

text \<open>C26: once the recovered results are committed and observed, no request is pending.\<close>

theorem results_settle_pending:
  "rv_pending (foldl observe (recover c es) (results (recover c es))) = []"
proof (cases "last_opt es")
  case None
  then show ?thesis by (simp add: results_def recover_last new_recovery_def)
next
  case (Some e)
  then show ?thesis
    using observe_results_from[OF distinct_pending[of c es], where r = "recover c es" and cause = c]
    by (simp add: results_def recover_last)
qed

end
