(* ===== verification/SessionLog.thy ===== *)
theory SessionLog imports Surface Repair begin

text \<open>
  One Session (\<open>packages/core/session/src/index.ts\<close>, class \<open>Session\<close>): seed and header validation,
  construction, append and plugin records, range reads, and the cached folds of the request header,
  the request context, the tool history (\<open>request-header.ts\<close>, \<open>tool-history.ts\<close>) and the derived
  messages; and the fork seed (\<open>fork.ts\<close>). Publication to the store is in SessionStore: here
  \<open>appending\<close> tells an append whether its attachment is publishing another one. \<open>Date.now()\<close> is an
  argument.
\<close>

section \<open>Request header folds\<close>

definition canonical_header :: "epoch_header \<Rightarrow> epoch_header" where
  "canonical_header h =
     \<lparr>eh_config = eh_config h,
      eh_adapter_defaults = (case eh_adapter_defaults h of
         Some ad \<Rightarrow> if ad_reasoning_effort ad \<or> ad_max_tokens ad then Some ad else None
       | None \<Rightarrow> None),
      eh_tools = (case eh_tools h of Some ts \<Rightarrow> if length ts > 0 then Some ts else None | None \<Rightarrow> None),
      eh_system = None\<rparr>"

definition header_equals :: "epoch_header \<Rightarrow> epoch_header \<Rightarrow> bool" where
  "header_equals a b =
     (if \<not> call_config_equals (eh_config a) (eh_config b)
         \<or> (case eh_adapter_defaults a of Some x \<Rightarrow> ad_reasoning_effort x | None \<Rightarrow> False)
             \<noteq> (case eh_adapter_defaults b of Some x \<Rightarrow> ad_reasoning_effort x | None \<Rightarrow> False)
         \<or> (case eh_adapter_defaults a of Some x \<Rightarrow> ad_max_tokens x | None \<Rightarrow> False)
             \<noteq> (case eh_adapter_defaults b of Some x \<Rightarrow> ad_max_tokens x | None \<Rightarrow> False)
      then False
      else let at = (case eh_tools a of Some ts \<Rightarrow> ts | None \<Rightarrow> []);
               bt = (case eh_tools b of Some ts \<Rightarrow> ts | None \<Rightarrow> [])
           in length at = length bt \<and> list_all (\<lambda>(x, y). x = y) (zip at bt))"

definition request_header_step :: "epoch_header option \<Rightarrow> session_event \<Rightarrow> epoch_header option" where
  "request_header_step st e =
     (case ev_data e of RequestHeader h _ _ \<Rightarrow> Some (canonical_header h) | _ \<Rightarrow> st)"

definition fold_request_header ::
  "session_event list \<Rightarrow> epoch_header option \<Rightarrow> epoch_header option" where
  "fold_request_header events from = foldl request_header_step from events"

definition request_context_step :: "request_context option \<Rightarrow> session_event \<Rightarrow> request_context option" where
  "request_context_step st e = (case ev_data e of RequestContext c \<Rightarrow> Some c | _ \<Rightarrow> st)"

section \<open>Tool history\<close>

record tool_history_state =
  ths_headers :: "(nat \<times> tool_schema list) list"
  ths_declared :: "(string \<times> tool_schema) list"
  ths_active :: "tool_schema list"
  ths_available :: "string list"
  ths_baseline_seq :: "nat option"
  ths_history :: tool_history

definition new_tool_history :: tool_history_state where
  "new_tool_history = \<lparr>ths_headers = [], ths_declared = [], ths_active = [], ths_available = [],
     ths_baseline_seq = None, ths_history = \<lparr>th_tools = [], th_updates = []\<rparr>\<rparr>"

datatype tool_history_error = MissingDefinition string

definition set_add :: "'a \<Rightarrow> 'a list \<Rightarrow> 'a list" where
  \<comment> \<open>\<open>Set.prototype.add\<close>\<close>
  "set_add x xs = (if x \<in> set xs then xs else xs @ [x])"

definition apply_header :: "nat \<Rightarrow> tool_schema list \<Rightarrow> bool \<Rightarrow> tool_history_state \<Rightarrow> tool_history_state" where
  \<comment> \<open>\<open>series\<close>: the event's reason is \<open>series\<close> or it starts one\<close>
  "apply_header n tools series st =
     (let redeclared = list_ex (\<lambda>t. case map_of (ths_declared st) (ts_name t) of
            None \<Rightarrow> False | Some before \<Rightarrow> before \<noteq> t) tools;
          st1 = st\<lparr>ths_headers := AList.update n tools (ths_headers st)\<rparr>;
          st2 = (if ths_baseline_seq st = None \<or> series \<or> redeclared
            then st1\<lparr>ths_baseline_seq := Some n,
                     ths_declared := foldl (\<lambda>m t. AList.update (ts_name t) t m) [] tools,
                     ths_history := \<lparr>th_tools = tools, th_updates = []\<rparr>,
                     ths_available := remdups (map ts_name tools)\<rparr>
            else st1)
      in st2\<lparr>ths_active := tools\<rparr>)"

fun resolve_additions ::
  "tool_schema list \<Rightarrow> content_block list \<Rightarrow> tool_history_error + tool_schema list" where
  "resolve_additions defs [] = Inr []"
| "resolve_additions defs (ToolAdditionBlock nm _ # bs) =
     (case List.find (\<lambda>t. ts_name t = nm) defs of
        None \<Rightarrow> Inl (MissingDefinition nm)
      | Some t \<Rightarrow> bindE (resolve_additions defs bs) (\<lambda>ts. Inr (t # ts)))"
| "resolve_additions defs (_ # bs) = resolve_additions defs bs"

fun update_available :: "content_block list \<Rightarrow> string list \<Rightarrow> string list" where
  "update_available [] av = av"
| "update_available (ToolAdditionBlock nm _ # bs) av = update_available bs (set_add nm av)"
| "update_available (ToolRemovalBlock nm # bs) av = update_available bs (removeAll nm av)"
| "update_available (_ # bs) av = update_available bs av"

definition tool_history_apply ::
  "tool_history_state \<Rightarrow> session_event \<Rightarrow> tool_history_error + tool_history_state" where
  "tool_history_apply st e =
     (case ev_data e of
        RequestHeader h reason startsSeries \<Rightarrow>
          Inr (apply_header (ev_seq e) (case eh_tools h of Some ts \<Rightarrow> ts | None \<Rightarrow> [])
                 (reason = SeriesHeader \<or> startsSeries) st)
      | DeveloperMessage _ _ m headerSeq \<Rightarrow>
          let defs = (case headerSeq of
                None \<Rightarrow> []
              | Some v \<Rightarrow> (case map_of (ths_headers st) (seq_of v) of Some ts \<Rightarrow> ts | None \<Rightarrow> []))
          in bindE (resolve_additions defs (msg_content m)) (\<lambda>additions.
               Inr (st\<lparr>ths_declared := foldl (\<lambda>m t. AList.update (ts_name t) t m) (ths_declared st) additions,
                       ths_available := update_available (msg_content m) (ths_available st),
                       ths_history := \<lparr>th_tools = th_tools (ths_history st),
                         th_updates = th_updates (ths_history st)
                           @ [\<lparr>tu_message_id = msg_id m, tu_additions = additions\<rparr>]\<rparr>\<rparr>))
      | _ \<Rightarrow> Inr st)"

definition tool_history_snapshot :: "tool_history_state \<Rightarrow> tool_history" where
  "tool_history_snapshot st =
     (if length (ths_active st) \<noteq> length (ths_available st)
         \<or> list_ex (\<lambda>t. ts_name t \<notin> set (ths_available st)) (ths_active st)
      then \<lparr>th_tools = ths_active st, th_updates = []\<rparr>
      else ths_history st)"

section \<open>Header and envelope validation\<close>

datatype session_error =
    HeaderVersion
  | HeaderId
  | HeaderCreatedAt
  | HeaderCwd
  | HeaderDelegationDepth
  | EnvelopeInvalid nat
  | EnvelopeData nat surface_error
  | LlmShapeInvalid nat
  | SeedNotContiguous nat nat
  | SeedSurface nat surface_error
  | SeedRequired
  | InheritedCountRequired
  | UnseededCountNotZero
  | InheritedCountExceedsLog
  | SeedNotMarked
  | NotFinalMarker
  | AppendReentered
  | EventDataInvalid surface_error
  | EventRejected surface_error
  | RecordTypeInvalid string
  | SurfaceFailed surface_error
  | ToolHistoryFailed tool_history_error

definition is_absolute :: "string \<Rightarrow> bool" where
  \<comment> \<open>\<open>node:path\<close> on POSIX\<close>
  "is_absolute p \<longleftrightarrow> (case p of c # _ \<Rightarrow> c = CHR ''/'' | [] \<Rightarrow> False)"

definition validate_session_header :: "string \<Rightarrow> session_header \<Rightarrow> session_error + session_header" where
  "validate_session_header sid h =
     (if sh_version h \<noteq> session_format_version then Inl HeaderVersion
      else if sh_id h \<noteq> sid then Inl HeaderId
      else if \<not> safe_int (sh_created_at h) \<or> sh_created_at h < 0 then Inl HeaderCreatedAt
      else if (case sh_cwd h of Some p \<Rightarrow> \<not> is_absolute p | None \<Rightarrow> False) then Inl HeaderCwd
      else if (case sh_delegation_depth h of Some d \<Rightarrow> \<not> safe_int d \<or> d < 0 | None \<Rightarrow> False)
        then Inl HeaderDelegationDepth
      else Inr h)"

definition snapshot_session_header ::
  "string \<Rightarrow> session_header option \<Rightarrow> int \<Rightarrow> session_error + session_header" where
  "snapshot_session_header sid source now =
     validate_session_header sid (case source of
        Some h \<Rightarrow> h
      | None \<Rightarrow> \<lparr>sh_version = session_format_version, sh_id = sid, sh_created_at = now, sh_cwd = None,
          sh_parent_session = None, sh_is_seeded = False, sh_origin_subagent = False,
          sh_delegation_depth = None, sh_agent_preset = None\<rparr>)"

definition expected_role :: "event_data \<Rightarrow> role option" where
  \<comment> \<open>\<open>MESSAGE_ROLE_BY_TYPE\<close>\<close>
  "expected_role d =
     (case d of
        SystemMessage _ _ _ \<Rightarrow> Some System
      | DeveloperMessage _ _ _ _ \<Rightarrow> Some Developer
      | UserMessage _ \<Rightarrow> Some User
      | AssistantMessage _ _ _ _ _ _ \<Rightarrow> Some Assistant
      | ToolResult _ _ _ _ _ \<Rightarrow> Some Tool
      | _ \<Rightarrow> None)"

fun source_kind_empty :: "message_source \<Rightarrow> bool" where
  "source_kind_empty (OtherSource kind _) = (kind = [])"
| "source_kind_empty _ = False"

definition message_event_shape :: "event_data \<Rightarrow> bool" where
  \<comment> \<open>\<open>assertMessageEventShape\<close> does not throw\<close>
  "message_event_shape d =
     (case message_of d of
        None \<Rightarrow> True
      | Some m \<Rightarrow>
          msg_id m \<noteq> [] \<and> Some (msg_role m) = expected_role d \<and> \<not> source_kind_empty (msg_source m)
          \<and> (case d of
               SystemMessage _ _ _ \<Rightarrow> msg_source m = SystemPromptSource
             | AssistantMessage _ _ _ _ _ _ \<Rightarrow>
                 (case msg_source m of ModelSource p q _ \<Rightarrow> p \<noteq> [] \<and> q \<noteq> [] | _ \<Rightarrow> False)
             | ToolResult _ _ _ _ _ \<Rightarrow>
                 (case msg_source m of
                    ToolSource cid \<Rightarrow> cid \<noteq> [] \<and> msg_tool_call_id m = Some cid
                  | _ \<Rightarrow> False)
             | _ \<Rightarrow> True))"

definition settlement_shape :: "nat \<Rightarrow> nat \<Rightarrow> bool" where
  "settlement_shape turn step \<longleftrightarrow> int turn \<le> max_safe \<and> int step \<le> max_safe"

definition current_llm_shape :: "event_data \<Rightarrow> bool" where
  \<comment> \<open>\<open>assertCurrentLlmShape\<close> does not throw\<close>
  "current_llm_shape d =
     (case d of
        RequestHeader h _ _ \<Rightarrow>
          cc_provider (eh_config h) \<noteq> [] \<and> cc_model (eh_config h) \<noteq> []
          \<and> cc_reasoning_effort (eh_config h) \<noteq> Some []
          \<and> (case eh_adapter_defaults h of
               None \<Rightarrow> True
             | Some ad \<Rightarrow>
                 (ad_reasoning_effort ad \<longrightarrow> cc_reasoning_effort (eh_config h) \<noteq> None)
                 \<and> (ad_max_tokens ad \<longrightarrow> cc_max_tokens (eh_config h) \<noteq> None))
      | AssistantAttempt t s _ \<Rightarrow> settlement_shape t s
      | AssistantMessage t s _ _ _ _ \<Rightarrow> message_event_shape d \<and> settlement_shape t s
      | _ \<Rightarrow> message_event_shape d)"

definition assert_session_event_envelope :: "session_event \<Rightarrow> nat \<Rightarrow> session_error + unit" where
  "assert_session_event_envelope e index =
     (if \<not> int (ev_seq e) \<le> max_safe \<or> \<not> safe_int (ev_time e) then Inl (EnvelopeInvalid index)
      else case validate_session_event_data (ev_data e) of
        Inl err \<Rightarrow> Inl (EnvelopeData index err)
      | Inr _ \<Rightarrow> checkE (current_llm_shape (ev_data e)) (LlmShapeInvalid index))"

section \<open>The Session\<close>

record session =
  ss_log :: "session_event list"
  ss_surface :: manager
  ss_header :: session_header
  ss_inherited_event_count :: nat
  ss_first_live_seq :: nat
  ss_first_lifecycle_seq :: nat
  ss_events_snapshot :: "session_event list option"
  ss_header_fold :: "epoch_header option \<times> nat"
  ss_context_fold :: "request_context option \<times> nat"
  ss_tool_history :: "tool_history_state \<times> nat"
  ss_derived :: "message list"
  ss_derived_nodes :: nat
  ss_derived_generation :: nat

datatype seed_mode = Snapshot | Restored  \<comment> \<open>\<open>'detached'\<close> and \<open>'shared-frozen'\<close> are both restores\<close>

definition commit :: "projection list \<Rightarrow> session_event \<Rightarrow> session \<Rightarrow> session_error + session" where
  "commit projections e s =
     (case validate_next projections 0 (ss_log s) (ss_surface s) e of
        Inl err \<Rightarrow> Inl (EventRejected err)
      | Inr mg \<Rightarrow> Inr (s\<lparr>ss_surface := mg, ss_log := ss_log s @ [e], ss_events_snapshot := None\<rparr>))"

definition append_event ::
  "projection list \<Rightarrow> bool \<Rightarrow> int \<Rightarrow> event_data \<Rightarrow> json option \<Rightarrow> json option \<Rightarrow> session
   \<Rightarrow> session_error + session_event \<times> session" where
  "append_event projections appending now d op sources s =
     (if appending then Inl AppendReentered
      else let e = \<lparr>ev_seq = length (ss_log s), ev_time = now, ev_data = d, ev_surface_op = op,
                    ev_source_event_seqs = sources, ev_ignorable = False\<rparr>
        in case validate_session_event_data d of
             Inl err \<Rightarrow> Inl (EventDataInvalid err)
           | Inr _ \<Rightarrow> bindE (commit projections e s) (\<lambda>s'. Inr (e, s')))"

fun record_segment_char :: "char \<Rightarrow> bool" where
  "record_segment_char c = (let n = of_char c :: nat in
     (97 \<le> n \<and> n \<le> 122) \<or> (48 \<le> n \<and> n \<le> 57) \<or> n = 46 \<or> n = 95 \<or> n = 45)"

fun record_start_char :: "char \<Rightarrow> bool" where
  "record_start_char c = (let n = of_char c :: nat in (97 \<le> n \<and> n \<le> 122) \<or> (48 \<le> n \<and> n \<le> 57))"

fun record_segments :: "bool \<Rightarrow> string \<Rightarrow> bool" where
  \<comment> \<open>the rest of a record name; True at the start of a segment\<close>
  "record_segments start [] = (\<not> start)"
| "record_segments start (c # cs) =
     (if start then record_start_char c \<and> record_segments False cs
      else if c = CHR ''/'' then record_segments True cs
      else record_segment_char c \<and> record_segments False cs)"

definition is_plugin_record_type :: "string \<Rightarrow> bool" where
  "is_plugin_record_type ty \<longleftrightarrow> take 7 ty = ''plugin:'' \<and> record_segments True (drop 7 ty)"

definition append_plugin_record ::
  "projection list \<Rightarrow> bool \<Rightarrow> int \<Rightarrow> string \<Rightarrow> json \<Rightarrow> session \<Rightarrow> session_error + nat \<times> session" where
  "append_plugin_record projections appending now ty data s =
     (if appending then Inl AppendReentered
      else let e = \<lparr>ev_seq = length (ss_log s), ev_time = now, ev_data = Other ty data,
                    ev_surface_op = None, ev_source_event_seqs = None, ev_ignorable = True\<rparr>
        in if \<not> is_plugin_record_type ty then Inl (RecordTypeInvalid ty)
           else bindE (commit projections e s) (\<lambda>s'. Inr (ev_seq e, s')))"

definition plugin_record_of :: "session_event \<Rightarrow> (string \<times> nat \<times> int \<times> event_data) option" where
  "plugin_record_of e =
     (if \<not> ev_ignorable e \<or> \<not> is_plugin_record_type (event_type (ev_data e)) then None
      else Some (event_type (ev_data e), ev_seq e, ev_time e, ev_data e))"

definition empty_session :: "session_header \<Rightarrow> session" where
  "empty_session h = \<lparr>ss_log = [], ss_surface = new_manager 0, ss_header = h,
     ss_inherited_event_count = 0, ss_first_live_seq = 0, ss_first_lifecycle_seq = 0,
     ss_events_snapshot = None, ss_header_fold = (None, 0), ss_context_fold = (None, 0),
     ss_tool_history = (new_tool_history, 0), ss_derived = [], ss_derived_nodes = 0,
     ss_derived_generation = 0\<rparr>"

definition admit_seed_event ::
  "projection list \<Rightarrow> session_event list \<times> manager \<Rightarrow> nat \<times> session_event
   \<Rightarrow> session_error + session_event list \<times> manager" where
  "admit_seed_event projections st ie =
     (case (st, ie) of ((log, mg), (index, e)) \<Rightarrow>
        bindE (assert_session_event_envelope e index) (\<lambda>_.
          if ev_seq e \<noteq> index then Inl (SeedNotContiguous index (ev_seq e))
          else case validate_next projections 0 log mg e of
            Inl err \<Rightarrow> Inl (SeedSurface index err)
          | Inr mg' \<Rightarrow> Inr (log @ [e], mg')))"

definition admit_seed ::
  "projection list \<Rightarrow> session_event list \<Rightarrow> session_error + session_event list \<times> manager" where
  "admit_seed projections seed =
     foldE (admit_seed_event projections) ([], new_manager 0) (enumerate 0 seed)"

definition is_inherited_marker :: "session_event \<Rightarrow> bool" where
  "is_inherited_marker e = (case ev_data e of EndSeed inherited \<Rightarrow> inherited | _ \<Rightarrow> False)"

definition is_end_seed :: "session_event \<Rightarrow> bool" where
  "is_end_seed e = (case ev_data e of EndSeed _ \<Rightarrow> True | _ \<Rightarrow> False)"

definition marked_seed :: "session_event list \<Rightarrow> nat \<Rightarrow> bool" where
  "marked_seed log n = (case nth_opt log n of Some e \<Rightarrow> is_inherited_marker e | None \<Rightarrow> False)"

definition check_lineage ::
  "seed_mode \<Rightarrow> bool \<Rightarrow> session_header \<Rightarrow> nat option \<Rightarrow> session_event list \<Rightarrow> session_error + nat" where
  \<comment> \<open>the constructor's checks of the inherited cut; answers the inherited count\<close>
  "check_lineage mode hasSeed h supplied log =
     (if sh_is_seeded h \<and> \<not> hasSeed then Inl SeedRequired
      else if sh_is_seeded h \<and> supplied = None then Inl InheritedCountRequired
      else let n = (case supplied of Some n \<Rightarrow> n | None \<Rightarrow> 0) in
        if \<not> sh_is_seeded h \<and> n \<noteq> 0 then Inl UnseededCountNotZero
        else if length log < n then Inl InheritedCountExceedsLog
        else if mode = Snapshot \<and> sh_is_seeded h \<and> n \<noteq> length log \<and> \<not> marked_seed log n then Inl SeedNotMarked
        else if marked_seed log n \<and> list_ex is_inherited_marker (drop (n + 1) log) then Inl NotFinalMarker
        else Inr n)"

definition constructed ::
  "seed_mode \<Rightarrow> session_header \<Rightarrow> nat \<Rightarrow> session_event list \<Rightarrow> manager \<Rightarrow> session" where
  \<comment> \<open>the fields before a marker is appended\<close>
  "constructed mode h n log mg =
     (empty_session h)\<lparr>ss_log := log, ss_surface := mg, ss_inherited_event_count := n,
        ss_first_live_seq := length log,
        ss_first_lifecycle_seq := (if mode = Snapshot \<and> sh_is_seeded h then n else length log)\<rparr>"

definition mark_lifecycle ::
  "projection list \<Rightarrow> seed_mode \<Rightarrow> bool \<Rightarrow> int \<Rightarrow> session \<Rightarrow> session_error + session" where
  \<comment> \<open>the constructor's final marker\<close>
  "mark_lifecycle projections mode hasSeed now s =
     (let fork = mode = Snapshot \<and> sh_is_seeded (ss_header s) in
      if hasSeed \<and> fork \<and> \<not> marked_seed (ss_log s) (ss_inherited_event_count s)
      then bindE (append_event projections False now (EndSeed True) None None s) (\<lambda>(_, s'). Inr s')
      else if hasSeed \<and> \<not> fork
              \<and> (case last_opt (ss_log s) of Some e \<Rightarrow> \<not> is_end_seed e | None \<Rightarrow> True)
      then bindE (append_event projections False now (EndSeed False) None None s) (\<lambda>(_, s'). Inr s')
      else Inr s)"

definition new_session ::
  "projection list \<Rightarrow> string \<Rightarrow> session_event list option \<Rightarrow> session_header option \<Rightarrow> seed_mode
   \<Rightarrow> nat option \<Rightarrow> int \<Rightarrow> session_error + session" where
  "new_session projections sid seed source mode supplied now =
     bindE (if mode = Snapshot then Inr () else
              (case source of Some h \<Rightarrow> bindE (validate_session_header sid h) (\<lambda>_. Inr ())
                            | None \<Rightarrow> Inl HeaderVersion)) (\<lambda>_.
     bindE (case seed of None \<Rightarrow> Inr ([], new_manager 0) | Some es \<Rightarrow> admit_seed projections es) (\<lambda>(log, mg).
     bindE (snapshot_session_header sid source now) (\<lambda>h.
     bindE (check_lineage mode (seed \<noteq> None) h supplied log) (\<lambda>n.
       mark_lifecycle projections mode (seed \<noteq> None) now (constructed mode h n log mg)))))"

section \<open>Reads\<close>

definition event_at :: "session \<Rightarrow> nat \<Rightarrow> session_event option" where
  "event_at s n = nth_opt (ss_log s) n"

definition snapshot_events :: "session \<Rightarrow> nat \<Rightarrow> nat \<Rightarrow> session_event list \<times> session" where
  "snapshot_events s from till =
     (if from = 0 \<and> till = length (ss_log s)
      then case ss_events_snapshot s of
             Some es \<Rightarrow> (es, s)
           | None \<Rightarrow> (ss_log s, s\<lparr>ss_events_snapshot := Some (ss_log s)\<rparr>)
      else (drop from (take till (ss_log s)), s))"

definition own_events :: "session \<Rightarrow> session_event list" where
  "own_events s = fst (snapshot_events s (ss_inherited_event_count s) (length (ss_log s)))"

definition is_own_seq :: "session \<Rightarrow> nat \<Rightarrow> bool" where
  "is_own_seq s n \<longleftrightarrow> ss_inherited_event_count s \<le> n \<and> n < length (ss_log s)"

definition request_header :: "session \<Rightarrow> epoch_header option \<times> session" where
  "request_header s =
     (let (fold, n) = ss_header_fold s in
      if n < length (ss_log s)
      then let fold' = fold_request_header (drop n (ss_log s)) fold
           in (fold', s\<lparr>ss_header_fold := (fold', length (ss_log s))\<rparr>)
      else (fold, s))"

definition request_context_of :: "session \<Rightarrow> request_context option \<times> session" where
  "request_context_of s =
     (let (fold, n) = ss_context_fold s in
      if n < length (ss_log s)
      then let fold' = foldl request_context_step fold (drop n (ss_log s))
           in (fold', s\<lparr>ss_context_fold := (fold', length (ss_log s))\<rparr>)
      else (fold, s))"

definition tool_history_of :: "session \<Rightarrow> session_error + tool_history \<times> session" where
  "tool_history_of s =
     (case catch_up tool_history_apply (ss_log s) (ss_tool_history s) of
        Inl err \<Rightarrow> Inl (ToolHistoryFailed err)
      | Inr c \<Rightarrow> Inr (tool_history_snapshot (fst c), s\<lparr>ss_tool_history := c\<rparr>))"

definition derive_node ::
  "projection list \<Rightarrow> session_event list \<Rightarrow> manager \<times> message list \<Rightarrow> nat
   \<Rightarrow> surface_error + manager \<times> message list" where
  "derive_node projections log acc n =
     bindE (manager_derive (log ! n) projections 0 log (fst acc)) (\<lambda>(m, mg).
       Inr (mg, case m of Some x \<Rightarrow> snd acc @ [x] | None \<Rightarrow> snd acc))"

definition derive_messages :: "projection list \<Rightarrow> session \<Rightarrow> session_error + message list \<times> session" where
  "derive_messages projections s =
     (case bindE (read_surface fs_nodes projections 0 (ss_log s) (ss_surface s)) (\<lambda>(nodes, mg).
             bindE (read_surface fs_content_generation projections 0 (ss_log s) mg) (\<lambda>(generation, mg).
               let fresh = generation \<noteq> ss_derived_generation s;
                   derived = (if fresh then [] else ss_derived s);
                   done_nodes = (if fresh then 0 else ss_derived_nodes s)
               in bindE (foldE (derive_node projections (ss_log s)) (mg, derived) (drop done_nodes nodes))
                    (\<lambda>(mg, ms). Inr (ms, s\<lparr>ss_surface := mg, ss_derived := ms, ss_derived_nodes := length nodes,
                        ss_derived_generation := generation\<rparr>)))) of
        Inl err \<Rightarrow> Inl (SurfaceFailed err)
      | Inr r \<Rightarrow> Inr r)"

section \<open>Fork seeds\<close>

definition build_fork_seed :: "session_event list \<Rightarrow> nat \<Rightarrow> session_event list" where
  "build_fork_seed events boundary =
     (let prefix = take (boundary + 1) events
                     @ [log_only (boundary + 1) (ev_time (events ! boundary)) (EndSeed True)]
      in prefix @ open_turn_closers prefix ByFork)"

section \<open>Consequences of an accepted log\<close>

definition derived_spec :: "session_event list \<Rightarrow> fold_state \<Rightarrow> message list" where
  "derived_spec log st =
     List.map_filter (\<lambda>n. derive_event_message (log ! n) (fs_projected_messages st)) (fs_nodes st)"

definition header_tools :: "session_event \<Rightarrow> tool_schema list option" where
  "header_tools e =
     (case ev_data e of
        RequestHeader h _ _ \<Rightarrow> Some (case eh_tools h of Some ts \<Rightarrow> ts | None \<Rightarrow> [])
      | _ \<Rightarrow> None)"

lemma plan_developer_header:
  "plan_surface_event ps st e n es base = Inr plan \<Longrightarrow> assert_developer_header e es base = Inr ()"
  by (auto simp: plan_surface_event_def split: if_splits)

lemma resolve_no_additions: "\<not> list_ex is_tool_addition bs \<Longrightarrow> resolve_additions defs bs = Inr []"
  by (induction defs bs rule: resolve_additions.induct) auto

lemma filter_singleton_find: "filter P xs = [t] \<Longrightarrow> List.find P xs = Some t"
  by (induction xs) (auto split: if_splits)

lemma resolve_checked:
  "mapE (check_added_tool h) bs = Inr us \<Longrightarrow>
   \<exists>ts. resolve_additions (case eh_tools h of Some ts \<Rightarrow> ts | None \<Rightarrow> []) bs = Inr ts"
proof (induction bs arbitrary: us)
  case (Cons b bs)
  then obtain ts where ts: "resolve_additions (case eh_tools h of Some ts \<Rightarrow> ts | None \<Rightarrow> []) bs = Inr ts" by auto
  show ?case
  proof (cases b)
    case (ToolAdditionBlock nm tool)
    then have "check_added_tool h b = Inr ()" using Cons.prems by auto
    then obtain t where "filter (\<lambda>t. ts_name t = nm) (case eh_tools h of Some ts \<Rightarrow> ts | None \<Rightarrow> []) = [t]"
      using ToolAdditionBlock by (auto simp: check_added_tool_def split: list.splits)
    from filter_singleton_find[OF this] show ?thesis using ToolAdditionBlock ts by simp
  qed (use ts in simp_all)
qed simp

lemma apply_header_headers:
  "ths_headers (apply_header n tools series st) = AList.update n tools (ths_headers st)"
  by (simp add: apply_header_def Let_def)

lemma validated_developer:
  assumes "validate_session_event_data (DeveloperMessage t s m headerSeq) = Inr ()"
  shows "list_ex is_tool_addition (msg_content m) \<longleftrightarrow> headerSeq \<noteq> None"
  using assms
  by (auto simp: validate_session_event_data_def validate_message_role_def Let_def
      split: if_splits option.splits)

lemma tool_history_step:
  assumes "assert_developer_header e es 0 = Inr ()" and "ev_seq e = length es"
    and headers: "\<And>n. map_of (ths_headers st) n = (if n < length es then header_tools (es ! n) else None)"
  shows "\<exists>st'. tool_history_apply st e = Inr st' \<and>
     (\<forall>n. map_of (ths_headers st') n =
        (if n < length (es @ [e]) then header_tools ((es @ [e]) ! n) else None))"
proof (cases "ev_data e")
  case (RequestHeader h r b)
  then show ?thesis using assms
    by (auto simp: tool_history_apply_def apply_header_headers update_conv' header_tools_def nth_append)
next
  case (DeveloperMessage t s m headerSeq)
  have v: "validate_session_event_data (ev_data e) = Inr ()"
    using assms(1) DeveloperMessage by (auto simp: assert_developer_header_def)
  have "\<exists>ts. resolve_additions (case headerSeq of None \<Rightarrow> []
        | Some v \<Rightarrow> (case map_of (ths_headers st) (seq_of v) of Some ts \<Rightarrow> ts | None \<Rightarrow> [])) (msg_content m) = Inr ts"
  proof (cases headerSeq)
    case None
    then show ?thesis
      using validated_developer[of t s m headerSeq] v resolve_no_additions DeveloperMessage by simp
  next
    case (Some hv)
    obtain he h r b us where he: "event_in_window es 0 (seq_of hv) = Some he" "ev_data he = RequestHeader h r b"
      and us: "mapE (check_added_tool h) (msg_content m) = Inr us"
      using assms(1) v DeveloperMessage Some
      by (auto simp: assert_developer_header_def Let_def bindO_def
          split: option.splits event_data.splits if_splits)
    then have "map_of (ths_headers st) (seq_of hv) = Some (case eh_tools h of Some ts \<Rightarrow> ts | None \<Rightarrow> [])"
      by (auto simp: headers event_in_window_0 nth_opt_eq_Some header_tools_def)
    then show ?thesis using resolve_checked[OF us] Some by simp
  qed
  then show ?thesis using DeveloperMessage headers
    by (auto simp: tool_history_apply_def header_tools_def nth_append)
qed (use headers in \<open>auto simp: tool_history_apply_def header_tools_def nth_append\<close>)

context message_projections begin

lemma fold_contiguous: "fold_surface_state projections es = Inr (st, rs) \<Longrightarrow> contiguous es"
proof (induction es arbitrary: st rs rule: rev_induct)
  case (snoc e es)
  obtain st0 rs0 plan where "fold_surface_state projections es = Inr (st0, rs0)"
    and "plan_surface_event projections st0 e (length es) es 0 = Inr plan"
    using fold_snocE[OF snoc.prems] .
  then show ?case using snoc.IH plan_facts by (auto simp: plan_facts_def)
qed simp

lemma tool_history_total:
  assumes "fold_surface_state projections es = Inr (st, rs)"
  shows "\<exists>ts. foldE tool_history_apply new_tool_history es = Inr ts \<and>
     (\<forall>n. map_of (ths_headers ts) n = (if n < length es then header_tools (es ! n) else None))"
  using assms
proof (induction es arbitrary: st rs rule: rev_induct)
  case Nil
  then show ?case by (simp add: new_tool_history_def)
next
  case (snoc e es)
  obtain st0 rs0 plan where 0: "fold_surface_state projections es = Inr (st0, rs0)"
    and p: "plan_surface_event projections st0 e (length es) es 0 = Inr plan"
    using fold_snocE[OF snoc.prems] .
  obtain ts where ts: "foldE tool_history_apply new_tool_history es = Inr ts"
    and headers: "\<And>n. map_of (ths_headers ts) n = (if n < length es then header_tools (es ! n) else None)"
    using snoc.IH[OF 0] by auto
  have "ev_seq e = length es" using plan_facts[OF p] by (simp add: plan_facts_def)
  from tool_history_step[OF plan_developer_header[OF p] this headers] show ?case
    by (auto simp: foldE_append ts)
qed

lemma fold_same_generation:
  assumes "fold_surface_state projections es = Inr (st0, rs0)"
    and "fold_surface_state projections (es @ xs) = Inr (st, rs)"
  shows "fs_content_generation st0 \<le> fs_content_generation st \<and>
     (fs_content_generation st = fs_content_generation st0 \<longrightarrow>
        fs_projected_messages st = fs_projected_messages st0 \<and>
        (\<exists>ns. fs_nodes st = fs_nodes st0 @ ns))"
  using assms(2)
proof (induction xs arbitrary: st rs rule: rev_induct)
  case Nil
  then show ?case using assms(1) by simp
next
  case (snoc x xs)
  then have s: "fold_surface_state projections ((es @ xs) @ [x]) = Inr (st, rs)" by simp
  obtain st1 rs1 plan where 1: "fold_surface_state projections (es @ xs) = Inr (st1, rs1)"
    and st: "st = fst (apply_surface_plan st1 plan)"
    using fold_snocE[OF s] .
  show ?case using snoc.IH[OF 1] unfolding st by (cases plan) auto
qed

lemma derive_node_synced:
  assumes "mg_ok log mg" and "mg_next mg = length log" and "mg_state mg = st"
  shows "foldE (derive_node projections log) (mg, acc) ns =
     Inr (mg, acc @ List.map_filter (\<lambda>n. derive_event_message (log ! n) (fs_projected_messages st)) ns)"
proof (induction ns arbitrary: acc)
  case (Cons n ns)
  have "sync projections 0 log mg = Inr mg"
    using assms assert_projections_ok[OF assms(1)] by (simp add: sync_def)
  then show ?case
    using Cons assms(3)
    by (simp add: derive_node_def manager_derive_def read_surface_def List.map_filter_simps split: option.splits)
qed (simp add: List.map_filter_simps)

end

section \<open>The Session invariant\<close>

definition derived_ok :: "projection list \<Rightarrow> session \<Rightarrow> bool" where
  \<comment> \<open>the derived cache is the derivation of some earlier prefix\<close>
  "derived_ok projections s \<longleftrightarrow>
     (\<exists>k st rs. k \<le> length (ss_log s) \<and> fold_surface_state projections (take k (ss_log s)) = Inr (st, rs)
        \<and> ss_derived_nodes s = length (fs_nodes st)
        \<and> ss_derived_generation s = fs_content_generation st
        \<and> ss_derived s = derived_spec (ss_log s) st)"

definition session_ok :: "projection list \<Rightarrow> session \<Rightarrow> bool" where
  "session_ok projections s \<longleftrightarrow>
     managed projections (ss_log s) (ss_surface s)
     \<and> ss_events_snapshot s \<in> {None, Some (ss_log s)}
     \<and> synced (\<lambda>st e. Inr (request_header_step st e) :: unit + epoch_header option) None (ss_log s) (ss_header_fold s)
     \<and> synced (\<lambda>st e. Inr (request_context_step st e) :: unit + request_context option) None (ss_log s) (ss_context_fold s)
     \<and> synced tool_history_apply new_tool_history (ss_log s) (ss_tool_history s)
     \<and> derived_ok projections s
     \<and> ss_inherited_event_count s \<le> length (ss_log s)"

lemma derived_spec_append:
  assumes "nodes_below (length log) st"
  shows "derived_spec (log @ xs) st = derived_spec log st"
proof -
  have "List.map_filter (\<lambda>n. derive_event_message ((log @ xs) ! n) p) ns =
        List.map_filter (\<lambda>n. derive_event_message (log ! n) p) ns"
    if "list_all (\<lambda>m. m < length log) ns" for ns p
    using that by (induction ns) (auto simp: List.map_filter_simps nth_append split: option.split)
  then show ?thesis using assms by (simp add: derived_spec_def nodes_below_def)
qed

lemma session_ok_managed: "session_ok projections s \<Longrightarrow> managed projections (ss_log s) (ss_surface s)"
  by (simp add: session_ok_def)

inductive reach :: "projection list \<Rightarrow> session \<Rightarrow> bool" for projections where
  created: "new_session projections sid seed source mode supplied now = Inr s \<Longrightarrow> reach projections s"
| appended: "reach projections s \<Longrightarrow> append_event projections False now d op sources s = Inr (e, s')
    \<Longrightarrow> reach projections s'"
| recorded: "reach projections s \<Longrightarrow> append_plugin_record projections False now ty data s = Inr (n, s')
    \<Longrightarrow> reach projections s'"
| header_read: "reach projections s \<Longrightarrow> request_header s = (h, s') \<Longrightarrow> reach projections s'"
| context_read: "reach projections s \<Longrightarrow> request_context_of s = (c, s') \<Longrightarrow> reach projections s'"
| tool_history_read: "reach projections s \<Longrightarrow> tool_history_of s = Inr (h, s') \<Longrightarrow> reach projections s'"
| derived: "reach projections s \<Longrightarrow> derive_messages projections s = Inr (ms, s') \<Longrightarrow> reach projections s'"
| events_read: "reach projections s \<Longrightarrow> snapshot_events s from till = (es, s') \<Longrightarrow> reach projections s'"

context message_projections begin

lemma managed_fold: "managed projections log mg \<Longrightarrow> \<exists>st rs. fold_surface_state projections log = Inr (st, rs)"
  using managed_ok by auto

lemma session_ok_commit:
  assumes "session_ok projections s" and "commit projections e s = Inr s'"
  shows "session_ok projections s' \<and> ss_log s' = ss_log s @ [e]"
proof -
  obtain mg where mg: "validate_next projections 0 (ss_log s) (ss_surface s) e = Inr mg"
    and s': "s' = s\<lparr>ss_surface := mg, ss_log := ss_log s @ [e], ss_events_snapshot := None\<rparr>"
    using assms(2) by (auto simp: commit_def split: sum.splits)
  have m: "managed projections (ss_log s) (ss_surface s)" using assms(1) by (simp add: session_ok_def)
  obtain k st rs where k: "k \<le> length (ss_log s)" "fold_surface_state projections (take k (ss_log s)) = Inr (st, rs)"
    "ss_derived_nodes s = length (fs_nodes st)" "ss_derived_generation s = fs_content_generation st"
    "ss_derived s = derived_spec (ss_log s) st"
    using assms(1) by (auto simp: session_ok_def derived_ok_def)
  have "nodes_below (length (ss_log s)) st"
    using fold_nodes_below[OF k(2)] k(1) by (auto simp: nodes_below_def list_all_iff)
  then have "derived_ok projections s'"
    unfolding derived_ok_def s' using k derived_spec_append[of "ss_log s" st "[e]"]
    by (intro exI[of _ k] exI[of _ st] exI[of _ rs]) simp
  then show ?thesis
    using assms(1) managed.admitted[OF m mg] by (simp add: s' session_ok_def synced_append)
qed

lemma session_ok_append:
  assumes "session_ok projections s" and "append_event projections appending now d op sources s = Inr (e, s')"
  shows "session_ok projections s' \<and> ss_log s' = ss_log s @ [e]"
  using assms session_ok_commit
  by (auto simp: append_event_def Let_def split: if_splits sum.splits)

lemma session_ok_record:
  assumes "session_ok projections s" and "append_plugin_record projections appending now ty data s = Inr (n, s')"
  shows "session_ok projections s'"
  using assms session_ok_commit
  by (auto simp: append_plugin_record_def Let_def split: if_splits)

lemma admit_seed_managed:
  "admit_seed projections seed = Inr (log, mg) \<Longrightarrow> managed projections log mg \<and> log = seed"
proof (induction seed arbitrary: log mg rule: rev_induct)
  case Nil
  then show ?case by (auto simp: admit_seed_def managed.start)
next
  case (snoc e es)
  then obtain log0 mg0 where 0: "admit_seed projections es = Inr (log0, mg0)"
    and step: "admit_seed_event projections (log0, mg0) (length es, e) = Inr (log, mg)"
    by (auto simp: admit_seed_def enumerate_append_eq foldE_append)
  then show ?case
    using snoc.IH[OF 0] managed.admitted
    by (auto simp: admit_seed_event_def split: if_splits sum.splits)
qed

lemma session_ok_mark:
  assumes "session_ok projections s" and "mark_lifecycle projections mode hasSeed now s = Inr s'"
  shows "session_ok projections s'"
  using assms session_ok_append unfolding mark_lifecycle_def Let_def by (auto split: if_splits)

lemma session_ok_new:
  assumes "new_session projections sid seed source mode supplied now = Inr s"
  shows "session_ok projections s"
proof -
  obtain log mg h n where lm: "(case seed of None \<Rightarrow> Inr ([], new_manager 0) | Some es \<Rightarrow> admit_seed projections es) = Inr (log, mg)"
    and n: "check_lineage mode (seed \<noteq> None) h supplied log = Inr n"
    and fin: "mark_lifecycle projections mode (seed \<noteq> None) now (constructed mode h n log mg) = Inr s"
    using assms unfolding new_session_def by (auto split del: if_split option.split)
  have "managed projections log mg"
    using lm admit_seed_managed managed.start by (auto split: option.splits)
  moreover have "n \<le> length log" using n by (auto simp: check_lineage_def Let_def split: if_splits)
  ultimately have "session_ok projections (constructed mode h n log mg)"
    unfolding session_ok_def derived_ok_def constructed_def
    by (auto simp: empty_session_def synced_init create_fold_state_def derived_spec_def List.map_filter_simps
        fold_surface_state_def intro!: exI[of _ 0])
  then show ?thesis using fin session_ok_mark by blast
qed


lemma session_ok_fold:
  "session_ok projections s \<Longrightarrow> \<exists>st rs. fold_surface_state projections (ss_log s) = Inr (st, rs)"
  using managed_fold session_ok_managed by blast

lemma derive_messages_ok:
  assumes ok: "session_ok projections s" and f: "fold_surface_state projections (ss_log s) = Inr (st, rs)"
  shows "\<exists>s'. derive_messages projections s = Inr (derived_spec (ss_log s) st, s')
       \<and> session_ok projections s' \<and> ss_log s' = ss_log s"
proof -
  let ?log = "ss_log s"
  note m = session_ok_managed[OF ok]
  have mgok: "mg_ok ?log (ss_surface s)" using managed_ok[OF m] by simp
  obtain mg where mg: "sync projections 0 ?log (ss_surface s) = Inr mg" "mg_ok ?log mg"
    "mg_next mg = length ?log" "mg_state mg = st"
    using sync_ok[OF mgok f] .
  have again: "sync projections 0 ?log mg = Inr mg"
    using mg assert_projections_ok[OF mg(2)] by (simp add: sync_def)
  have managed': "managed projections ?log mg" using managed.read[OF m mg(1)] .
  obtain k st0 rs0 where k: "k \<le> length ?log" "fold_surface_state projections (take k ?log) = Inr (st0, rs0)"
    "ss_derived_nodes s = length (fs_nodes st0)" "ss_derived_generation s = fs_content_generation st0"
    "ss_derived s = derived_spec ?log st0"
    using ok by (auto simp: session_ok_def derived_ok_def)
  have same: "fs_content_generation st = fs_content_generation st0 \<longrightarrow>
      fs_projected_messages st = fs_projected_messages st0 \<and> (\<exists>ns. fs_nodes st = fs_nodes st0 @ ns)"
    using fold_same_generation[OF k(2), of "drop k ?log" st rs] f by simp
  define fresh where "fresh = (fs_content_generation st \<noteq> ss_derived_generation s)"
  have loop: "foldE (derive_node projections ?log) (mg, if fresh then [] else ss_derived s)
        (drop (if fresh then 0 else ss_derived_nodes s) (fs_nodes st)) = Inr (mg, derived_spec ?log st)"
  proof (cases fresh)
    case True
    then show ?thesis using derive_node_synced[OF mg(2,3,4)] by (simp add: derived_spec_def)
  next
    case False
    then obtain ns where "fs_nodes st = fs_nodes st0 @ ns"
      and "fs_projected_messages st = fs_projected_messages st0"
      using same k(4) by (auto simp: fresh_def)
    then show ?thesis using False derive_node_synced[OF mg(2,3,4)] k(3,5)
      by (simp add: derived_spec_def map_filter_append)
  qed
  define s' where "s' = s\<lparr>ss_surface := mg, ss_derived := derived_spec ?log st,
      ss_derived_nodes := length (fs_nodes st), ss_derived_generation := fs_content_generation st\<rparr>"
  have "derive_messages projections s = Inr (derived_spec ?log st, s')"
    using mg(1,4) again loop
    by (simp add: derive_messages_def read_surface_def Let_def fresh_def[symmetric] s'_def)
  moreover have "derived_ok projections s'"
    unfolding derived_ok_def using f by (intro exI[of _ "length ?log"]) (auto simp: s'_def)
  ultimately show ?thesis using ok managed' by (auto simp: session_ok_def s'_def)
qed

end

lemma synced_total:
  "synced (\<lambda>st e. Inr (f st e) :: 'e + 's) init log c \<longleftrightarrow>
   snd c \<le> length log \<and> fst c = foldl f init (take (snd c) log)"
  by (auto simp: synced_def foldE_total)

lemma foldl_catch_up: "foldl f (foldl f a (take n xs)) (drop n xs) = foldl f a xs"
  by (metis append_take_drop_id foldl_append)

lemma request_header_ok:
  assumes "session_ok projections s" and "request_header s = (h, s')"
  shows "h = fold_request_header (ss_log s) None \<and> session_ok projections s' \<and> ss_log s' = ss_log s"
  using assms
  by (cases "ss_header_fold s")
    (auto simp: session_ok_def derived_ok_def request_header_def fold_request_header_def synced_total
      foldl_catch_up Let_def split: if_splits)

lemma request_context_ok:
  assumes "session_ok projections s" and "request_context_of s = (c, s')"
  shows "c = foldl request_context_step None (ss_log s) \<and> session_ok projections s' \<and> ss_log s' = ss_log s"
  using assms
  by (cases "ss_context_fold s")
    (auto simp: session_ok_def derived_ok_def request_context_of_def synced_total
      foldl_catch_up Let_def split: if_splits)

lemma tool_history_ok:
  assumes "session_ok projections s" and "tool_history_of s = Inr (h, s')"
  shows "session_ok projections s' \<and> ss_log s' = ss_log s"
  using assms synced_catch_up[of tool_history_apply new_tool_history "ss_log s" "ss_tool_history s"]
  by (auto simp: tool_history_of_def session_ok_def derived_ok_def split: sum.splits)

lemma snapshot_events_ok:
  assumes "session_ok projections s" and "snapshot_events s from till = (es, s')"
  shows "es = drop from (take till (ss_log s)) \<and> session_ok projections s' \<and> ss_log s' = ss_log s"
  using assms
  by (auto simp: snapshot_events_def session_ok_def derived_ok_def split: if_splits option.splits)

context message_projections begin

lemma reach_ok: "reach projections s \<Longrightarrow> session_ok projections s"
proof (induction rule: reach.induct)
  case (created sid seed source mode supplied now s)
  then show ?case by (rule session_ok_new)
next
  case (appended s now d op sources e s')
  then show ?case using session_ok_append by blast
next
  case (recorded s now ty data n s')
  then show ?case using session_ok_record by blast
next
  case (header_read s h s')
  then show ?case using request_header_ok by blast
next
  case (context_read s c s')
  then show ?case using request_context_ok by blast
next
  case (tool_history_read s h s')
  then show ?case using tool_history_ok by blast
next
  case (derived s ms s')
  then obtain st rs where "fold_surface_state projections (ss_log s) = Inr (st, rs)"
    using managed_fold session_ok_managed by blast
  from derive_messages_ok[OF derived.IH this] derived.hyps(2) show ?case by auto
next
  case (events_read s a b es s')
  then show ?case using snapshot_events_ok by blast
qed

end

text \<open>C6: the log of a session reached by any operations is contiguous from 0, replays through the
  complete fold, and its inherited prefix lies inside it.\<close>

theorem session_log_valid:
  assumes "message_projections projections" and "reach projections s"
  shows "contiguous (ss_log s) \<and> (\<exists>res. fold_surface (ss_log s) projections = Inr res)
       \<and> ss_inherited_event_count s \<le> length (ss_log s)"
proof -
  have ok: "session_ok projections s" using message_projections.reach_ok[OF assms] .
  then obtain st rs where f: "fold_surface_state projections (ss_log s) = Inr (st, rs)"
    using message_projections.session_ok_fold[OF assms(1)] by blast
  then show ?thesis using message_projections.fold_contiguous[OF assms(1) f] ok
    by (auto simp: fold_surface_def session_ok_def)
qed

text \<open>C17: the cached request header, request context and event snapshots of a reached session are
  the folds and slices of its log, whatever reads and appends came before.\<close>

theorem cached_reads_correct:
  assumes "message_projections projections" and "reach projections s"
  shows "fst (request_header s) = fold_request_header (ss_log s) None
       \<and> fst (request_context_of s) = foldl request_context_step None (ss_log s)
       \<and> fst (snapshot_events s from till) = drop from (take till (ss_log s))"
proof -
  have ok: "session_ok projections s" using message_projections.reach_ok[OF assms] .
  show ?thesis
    using request_header_ok[OF ok] request_context_ok[OF ok] snapshot_events_ok[OF ok]
    by (metis prod.collapse)
qed

text \<open>C16: reading the tool history of a reached session never fails, because every admitted tool
  addition names a tool of its header, and it is the history folded from scratch.\<close>

theorem tool_history_never_fails:
  assumes "message_projections projections" and "reach projections s"
  shows "\<exists>st s'. foldE tool_history_apply new_tool_history (ss_log s) = Inr st
       \<and> tool_history_of s = Inr (tool_history_snapshot st, s')"
proof -
  have ok: "session_ok projections s" using message_projections.reach_ok[OF assms] .
  then obtain st rs where f: "fold_surface_state projections (ss_log s) = Inr (st, rs)"
    using message_projections.session_ok_fold[OF assms(1)] by blast
  obtain ts where "foldE tool_history_apply new_tool_history (ss_log s) = Inr ts"
    using message_projections.tool_history_total[OF assms(1) f] by blast
  moreover have "synced tool_history_apply new_tool_history (ss_log s) (ss_tool_history s)"
    using ok by (simp add: session_ok_def)
  ultimately show ?thesis by (simp add: tool_history_of_def catch_up_synced)
qed

text \<open>C2: the cached derived history of a reached session is the derivation from scratch over the
  nodes and projected messages of the complete fold.\<close>

theorem derive_messages_correct:
  assumes "message_projections projections" and "reach projections s"
  shows "\<exists>res s'. fold_surface (ss_log s) projections = Inr res
       \<and> derive_messages projections s = Inr (List.map_filter
            (\<lambda>n. derive_event_message (ss_log s ! n) (fr_projected_messages res)) (fr_nodes res), s')"
proof -
  have ok: "session_ok projections s" using message_projections.reach_ok[OF assms] .
  then obtain st rs where f: "fold_surface_state projections (ss_log s) = Inr (st, rs)"
    using message_projections.session_ok_fold[OF assms(1)] by blast
  then show ?thesis
    using message_projections.derive_messages_ok[OF assms(1) ok f]
    by (auto simp: fold_surface_def derived_spec_def)
qed


abbreviation ex_projections :: "projection list" where
  "ex_projections \<equiv> [image_offload_projection 0]"

abbreviation ex_user_data :: event_data where
  "ex_user_data \<equiv> ev_data (ex_user 0 None)"

lemma ex_reach: "\<exists>s. reach ex_projections s \<and> ss_log s = [ex_user 0 (Some (JStr ''append''))]"
proof -
  have new: "\<exists>s. new_session ex_projections ''a'' None None Snapshot None 5 = Inr s \<and> ss_log s = []
      \<and> ss_surface s = new_manager 0"
    by (simp add: new_session_def snapshot_session_header_def validate_session_header_def
        safe_int_def max_safe_def check_lineage_def marked_seed_def mark_lifecycle_def constructed_def
        empty_session_def Let_def)
  then obtain s where s: "reach ex_projections s" "ss_log s = []" "ss_surface s = new_manager 0"
    using reach.created by blast
  have ev: "\<lparr>ev_seq = 0, ev_time = 0, ev_data = ex_user_data, ev_surface_op = Some (JStr ''append''),
      ev_source_event_seqs = None, ev_ignorable = False\<rparr> = ex_user 0 (Some (JStr ''append''))"
    by (simp add: ex_user_def)
  have valid: "validate_session_event_data ex_user_data = Inr ()"
    by (simp add: ex_user_def validate_session_event_data_def validate_message_role_def)
  have "\<exists>mg. validate_next ex_projections 0 [] (new_manager 0) (ex_user 0 (Some (JStr ''append''))) = Inr mg"
    by (simp add: validate_next_def sync_def assert_projections_def required_projections_def
        new_manager_def create_fold_state_def ex_user_plan Let_def)
  then have "\<exists>e s'. append_event ex_projections False 0 ex_user_data (Some (JStr ''append'')) None s = Inr (e, s')
      \<and> ss_log s' = [ex_user 0 (Some (JStr ''append''))]"
    using s valid by (auto simp: append_event_def commit_def Let_def ev)
  then show ?thesis using reach.appended[OF s(1)] by blast
qed

theorem session_log_valid_witness:
  "\<exists>s :: session. ss_log s = [ex_user 0 (Some (JStr ''append''))] \<and> contiguous (ss_log s)"
proof -
  obtain s where s: "reach ex_projections s" "ss_log s = [ex_user 0 (Some (JStr ''append''))]"
    using ex_reach by blast
  show ?thesis using session_log_valid[OF image_projections s(1)] s(2) by blast
qed

theorem cached_reads_correct_witness:
  "\<exists>s. ss_log s = [ex_user 0 (Some (JStr ''append''))] \<and> fst (request_header s) = None
     \<and> fst (snapshot_events s 0 1) = [ex_user 0 (Some (JStr ''append''))]"
proof -
  obtain s where s: "reach ex_projections s" "ss_log s = [ex_user 0 (Some (JStr ''append''))]"
    using ex_reach by blast
  show ?thesis
    using cached_reads_correct[OF image_projections s(1), of 0 1] s(2)
    by (auto simp: fold_request_header_def request_header_step_def ex_user_def)
qed

theorem tool_history_never_fails_witness:
  "\<exists>s st s'. ss_log s = [ex_user 0 (Some (JStr ''append''))]
     \<and> tool_history_of s = Inr (tool_history_snapshot st, s')"
  using tool_history_never_fails[OF image_projections] ex_reach by blast

theorem derive_messages_correct_witness:
  "\<exists>s ms s'. ss_log s = [ex_user 0 (Some (JStr ''append''))] \<and> derive_messages ex_projections s = Inr (ms, s')"
  using derive_messages_correct[OF image_projections] ex_reach by blast


section \<open>Forking\<close>

definition named_calls :: "session_event \<Rightarrow> bool" where
  \<comment> \<open>no tool call of an assistant message has the empty id\<close>
  "named_calls e =
     (case ev_data e of
        AssistantMessage _ _ m _ _ _ \<Rightarrow>
          list_all (\<lambda>b. case b of ToolCallBlock cid _ _ \<Rightarrow> cid \<noteq> [] | _ \<Rightarrow> True) (msg_content m)
      | _ \<Rightarrow> True)"

definition enveloped :: "session_event \<Rightarrow> bool" where
  "enveloped e \<longleftrightarrow> assert_session_event_envelope e (ev_seq e) = Inr ()"

lemma requests_call_block:
  assumes "requests_call e cid t s"
  obtains m st u i nm args where "ev_data e = AssistantMessage t s m st u i"
    and "ToolCallBlock cid nm args \<in> set (msg_content m)"
proof (cases "ev_data e")
  case (AssistantMessage t' s' m st u i)
  then obtain b where b: "b \<in> set (msg_content m)" "case b of ToolCallBlock c _ _ \<Rightarrow> c = cid | _ \<Rightarrow> False"
    using assms by (auto simp: requests_call_def list_ex_iff)
  from b(2) obtain nm args where "b = ToolCallBlock cid nm args" by (cases b) simp_all
  moreover have "t' = t" "s' = s" using AssistantMessage assms by (simp_all add: requests_call_def)
  ultimately show ?thesis using that[of m st u i nm args] AssistantMessage b(1) by simp
qed (use assms in \<open>simp_all add: requests_call_def\<close>)

lemma pending_named:
  assumes "list_all named_calls es" and "(cid, q) \<in> set (rv_pending (recover c es))"
  shows "cid \<noteq> []"
proof -
  have "pends (rv_pending (recover c es)) cid (pc_turn q) (pc_step q)"
    using assms(2) distinct_pending[of c es] by (auto simp: pends_def map_of_eq_Some_iff)
  then obtain i where i: "i < length es" "requests_call (es ! i) cid (pc_turn q) (pc_step q)"
    unfolding pends_iff_unanswered unanswered_def by blast
  then have "named_calls (es ! i)" using assms(1) by (simp add: list_all_length)
  with i(2) show ?thesis
    by (elim requests_call_block) (fastforce simp: named_calls_def list_all_iff)
qed

lemma validate_log_only:
  "message_of d = None \<Longrightarrow> (\<forall>h r b. d \<noteq> RequestHeader h r b) \<Longrightarrow> validate_session_event_data d = Inr ()"
  by (cases d) (auto simp: validate_session_event_data_def)

lemma enveloped_log_only:
  assumes "int n \<le> max_safe" and "safe_int t"
  shows "enveloped (log_only n t (EndSeed b))" and "enveloped (log_only n t (StepEnd x y))"
    and "enveloped (log_only n t (TurnEnd x r))"
  using assms
  by (simp_all add: enveloped_def assert_session_event_envelope_def log_only_def validate_log_only
      current_llm_shape_def message_event_shape_def)

lemma enveloped_result:
  assumes "int n \<le> max_safe" and "safe_int t" and "cid \<noteq> []"
  shows "enveloped (recovered_result c n t cid q)"
  using assms
  by (cases c) (simp_all add: enveloped_def assert_session_event_envelope_def recovered_result_def
      validate_session_event_data_def validate_message_role_def current_llm_shape_def
      message_event_shape_def expected_role_def Let_def)

context message_projections begin

lemma core_not_projected:
  "event_type d \<in> set core_event_types \<Longrightarrow> List.find (\<lambda>p. mp_type p = event_type d) projections = None"
  using plugin_owned by (metis (mono_tags, lifting) find_None_iff)

lemma plan_log_only:
  "plan_surface_event projections st (log_only n t (EndSeed b)) n es 0 = Inr NoPlan"
  "plan_surface_event projections st (log_only n t (StepEnd x y)) n es 0 = Inr NoPlan"
  "plan_surface_event projections st (log_only n t (TurnEnd x r)) n es 0 = Inr NoPlan"
  using core_not_projected[of "EndSeed b"] core_not_projected[of "StepEnd x y"]
    core_not_projected[of "TurnEnd x r"]
  by (simp_all add: plan_surface_event_def log_only_def validate_surface_metadata_def surface_op_of_def
      assert_developer_header_def core_event_types_def)

lemma plan_result:
  assumes "\<And>k. pc_call_seq q = Some k \<Longrightarrow> k < n" and "int n \<le> max_safe"
  shows "plan_surface_event projections st (recovered_result c n t cid q) n es 0 = Inr (AppendPlan n)"
proof -
  let ?d = "ev_data (recovered_result c n t cid q)"
  have "event_type ?d = ''tool/result''" by (simp add: recovered_result_def Let_def)
  then have "event_type ?d \<in> set core_event_types" by (simp add: core_event_types_def surface_event_types_def)
  from core_not_projected[OF this] assms show ?thesis
    by (cases "pc_call_seq q")
      (auto simp: plan_surface_event_def recovered_result_def validate_surface_metadata_def
        surface_op_of_def assert_source_event_references_def cited_sources_def assert_developer_header_def Let_def)
qed


lemma fold_snoc_ok:
  assumes "fold_surface_state projections es = Inr (st, rs)"
    and "plan_surface_event projections st e (length es) es 0 = Inr plan"
  shows "\<exists>st' rs'. fold_surface_state projections (es @ [e]) = Inr (st', rs')"
  using fold_snoc_iff[OF assms(1)] assms(2) by fastforce

lemma fold_results_ok:
  assumes "fold_surface_state projections es = Inr (st, rs)" and "n = length es"
    and "list_all (\<lambda>(cid, q). \<forall>k. pc_call_seq q = Some k \<longrightarrow> k < n) p"
    and "int (n + length p) \<le> max_safe"
  shows "\<exists>st' rs'. fold_surface_state projections (es @ results_from c n t p) = Inr (st', rs')"
  using assms
proof (induction c n t p arbitrary: es st rs rule: results_from.induct)
  case (2 c n t cid q p)
  have "plan_surface_event projections st (recovered_result c n t cid q) n es 0 = Inr (AppendPlan n)"
    using "2.prems" by (intro plan_result) auto
  then obtain st1 rs1 where 1: "fold_surface_state projections (es @ [recovered_result c n t cid q]) = Inr (st1, rs1)"
    using fold_snoc_ok "2.prems"(1,2) by blast
  have "list_all (\<lambda>(cid, q). \<forall>k. pc_call_seq q = Some k \<longrightarrow> k < Suc n) p"
    using "2.prems"(3) by (auto simp: list_all_iff less_SucI)
  then show ?case using "2.IH"[OF 1] "2.prems" by simp
qed auto

lemma pending_seq_bound:
  assumes "contiguous es"
  shows "list_all (\<lambda>(cid, q). \<forall>k. pc_call_seq q = Some k \<longrightarrow> k < length es) (rv_pending (recover c es))"
  using starts_recorded_recover[OF assms, of c]
  by (auto simp: starts_recorded_def records_start_def list_all_iff)

lemma fold_closers_ok:
  assumes "fold_surface_state projections es = Inr (st, rs)"
    and "int (length es + length (open_turn_closers es c)) \<le> max_safe"
  shows "\<exists>st' rs'. fold_surface_state projections (es @ open_turn_closers es c) = Inr (st', rs')"
proof (cases "fst (boundary_of es)")
  case None
  then show ?thesis using assms by (simp add: open_turn_closers_def)
next
  case (Some turn)
  have cont: "contiguous es" using fold_contiguous[OF assms(1)] .
  let ?p = "rv_pending (recover c es)"
  show ?thesis
  proof (rule open_turn_closers_eq[OF Some, of c])
    fix lst steps
    assume lst: "last_opt es = Some lst"
      and steps: "steps = (case snd (boundary_of es) of None \<Rightarrow> []
           | Some s \<Rightarrow> [log_only (ev_seq lst + length ?p + 1) (ev_time lst) (StepEnd turn s)])"
      and eq: "open_turn_closers es c = results_from c (ev_seq lst + 1) (ev_time lst) ?p @ steps @
           [log_only (ev_seq lst + length ?p + 1 + length steps) (ev_time lst) (TurnEnd turn (cause_end_reason c))]"
    have n: "ev_seq lst + 1 = length es" using lst cont by (auto simp: last_opt_eq_Some)
    let ?rs = "es @ results_from c (length es) (ev_time lst) ?p"
    have len: "length ?rs = ev_seq lst + length ?p + 1" using n by simp
    have "int (length es + length ?p) \<le> max_safe" using assms(2) unfolding eq by simp
    from fold_results_ok[OF assms(1) refl pending_seq_bound[OF cont] this]
    obtain st1 rs1 where 1: "fold_surface_state projections ?rs = Inr (st1, rs1)" by blast
    have "\<exists>st2 rs2. fold_surface_state projections (?rs @ steps) = Inr (st2, rs2)"
      using 1 fold_snoc_ok[OF 1 plan_log_only(2)] len steps by (auto split: option.splits)
    then obtain st2 rs2 where 2: "fold_surface_state projections (?rs @ steps) = Inr (st2, rs2)" by blast
    let ?fin = "log_only (ev_seq lst + length ?p + 1 + length steps) (ev_time lst) (TurnEnd turn (cause_end_reason c))"
    have l2: "ev_seq lst + length ?p + 1 + length steps = length (?rs @ steps)" using len by simp
    have "plan_surface_event projections st2 ?fin (length (?rs @ steps)) (?rs @ steps) 0 = Inr NoPlan"
      unfolding l2[symmetric] by (rule plan_log_only(3))
    from fold_snoc_ok[OF 2 this] show ?thesis unfolding eq n by (simp only: append_assoc)
  qed
qed

lemma admit_seed_ok:
  assumes "fold_surface_state projections es = Inr (st, rs)" and "list_all enveloped es"
  shows "\<exists>mg. admit_seed projections es = Inr (es, mg)"
  using assms
proof (induction es arbitrary: st rs rule: rev_induct)
  case Nil
  then show ?case by (simp add: admit_seed_def)
next
  case (snoc e es)
  obtain st0 rs0 plan where 0: "fold_surface_state projections es = Inr (st0, rs0)"
    and p: "plan_surface_event projections st0 e (length es) es 0 = Inr plan"
    using fold_snocE[OF snoc.prems(1)] .
  obtain mg where mg: "admit_seed projections es = Inr (es, mg)" using snoc.IH[OF 0] snoc.prems by auto
  have seq: "ev_seq e = length es" using plan_facts[OF p] by (simp add: plan_facts_def)
  have mok: "mg_ok es mg" using admit_seed_managed[OF mg] managed_ok by blast
  obtain mg' where "validate_next projections 0 es mg e = Inr mg'"
    using validate_next_ok[OF mok 0, of e] p by auto
  then have "admit_seed_event projections (es, mg) (length es, e) = Inr (es @ [e], mg')"
    using snoc.prems(2) seq by (simp add: admit_seed_event_def enveloped_def)
  then show ?case using mg by (simp add: admit_seed_def enumerate_append_eq foldE_append)
qed

end

lemma enveloped_closers:
  assumes "list_all enveloped es" and "list_all named_calls es" and "contiguous es"
    and "int (length es + length (open_turn_closers es c)) \<le> max_safe"
  shows "list_all enveloped (open_turn_closers es c)"
proof (cases "fst (boundary_of es)")
  case None
  then show ?thesis by (simp add: open_turn_closers_def)
next
  case (Some turn)
  let ?p = "rv_pending (recover c es)"
  have results: "list_all enveloped (results_from c n t p)"
    if "int (n + length p) \<le> max_safe" "safe_int t" "\<forall>(cid, q) \<in> set p. cid \<noteq> []" for n t p
    using that by (induction c n t p rule: results_from.induct) (auto intro: enveloped_result)
  have named: "\<forall>(cid, q) \<in> set ?p. cid \<noteq> []" using pending_named[OF assms(2)] by blast
  show ?thesis
  proof (rule open_turn_closers_eq[OF Some, of c])
    fix lst steps
    assume lst: "last_opt es = Some lst"
      and steps: "steps = (case snd (boundary_of es) of None \<Rightarrow> []
           | Some s \<Rightarrow> [log_only (ev_seq lst + length ?p + 1) (ev_time lst) (StepEnd turn s)])"
      and eq: "open_turn_closers es c = results_from c (ev_seq lst + 1) (ev_time lst) ?p @ steps @
           [log_only (ev_seq lst + length ?p + 1 + length steps) (ev_time lst) (TurnEnd turn (cause_end_reason c))]"
    have n: "ev_seq lst + 1 = length es" and mem: "lst \<in> set es"
      using lst assms(3) by (auto simp: last_opt_eq_Some)
    have "enveloped lst" using assms(1) mem by (simp add: list_all_iff)
    then have time: "safe_int (ev_time lst)"
      by (simp add: enveloped_def assert_session_event_envelope_def split: if_splits)
    show ?thesis
      unfolding eq using assms(4) n time named steps
      by (auto simp: eq intro!: results enveloped_log_only split: option.splits)
  qed
qed

lemma no_marker_in_closers: "list_all (\<lambda>e. \<not> is_inherited_marker e) (open_turn_closers es c)"
proof (cases "fst (boundary_of es)")
  case None
  then show ?thesis by (simp add: open_turn_closers_def)
next
  case (Some turn)
  have "list_all (\<lambda>e. \<not> is_inherited_marker e) (results_from c n t p)" for n t p
    by (induction c n t p rule: results_from.induct)
      (simp_all add: is_inherited_marker_def recovered_result_def Let_def)
  then show ?thesis
    by (rule_tac open_turn_closers_eq[OF Some, of c])
      (auto simp: is_inherited_marker_def log_only_def split: option.splits)
qed

lemma named_log_only: "named_calls (log_only n t (EndSeed b))"
  by (simp add: named_calls_def log_only_def)

definition fork_header :: "string \<Rightarrow> session_header \<Rightarrow> bool" where
  "fork_header sid h \<longleftrightarrow> validate_session_header sid h = Inr h \<and> sh_is_seeded h"

text \<open>C1: forking at any existing event of an accepted log whose events have valid envelopes and
  named tool calls always constructs the child: its log is the fork seed, contiguous, with no open
  turn, and it owns exactly the marker and the closers after the inherited prefix.\<close>

theorem fork_constructs_child:
  assumes "message_projections projections" and "fold_surface es projections = Inr res"
    and "list_all enveloped es" and "list_all named_calls es"
    and "boundary < length es" and "fork_header sid h"
    and "int (length (build_fork_seed es boundary)) \<le> max_safe"
  shows "\<exists>child. new_session projections sid (Some (build_fork_seed es boundary)) (Some h) Snapshot
              (Some (boundary + 1)) now = Inr child
       \<and> ss_log child = build_fork_seed es boundary
       \<and> contiguous (ss_log child) \<and> fst (boundary_of (ss_log child)) = None
       \<and> take (boundary + 1) (ss_log child) = take (boundary + 1) es
       \<and> ss_first_lifecycle_seq child = boundary + 1"
proof -
  let ?seed = "build_fork_seed es boundary"
  define prefix where "prefix = take (boundary + 1) es
      @ [log_only (boundary + 1) (ev_time (es ! boundary)) (EndSeed True)]"
  have seed: "?seed = prefix @ open_turn_closers prefix ByFork"
    by (simp add: build_fork_seed_def prefix_def)
  have len: "length (take (boundary + 1) es) = boundary + 1" using assms(5) by simp
  obtain acc where "fold_surface_state projections (take (boundary + 1) es @ drop (boundary + 1) es) = Inr acc"
    using assms(2) by (auto simp: fold_surface_def)
  then obtain st0 rs0 where 0: "fold_surface_state projections (take (boundary + 1) es) = Inr (st0, rs0)"
    using message_projections.fold_prefix[OF assms(1)] by (metis surj_pair)
  obtain st1 rs1 where 1: "fold_surface_state projections prefix = Inr (st1, rs1)"
    using message_projections.fold_snoc_ok[OF assms(1) 0] len
      message_projections.plan_log_only(1)[OF assms(1), where n = "boundary + 1"]
    unfolding prefix_def by metis
  have cont: "contiguous prefix" using message_projections.fold_contiguous[OF assms(1) 1] .
  have bound: "int (length prefix + length (open_turn_closers prefix ByFork)) \<le> max_safe"
    using assms(7) unfolding seed by simp
  obtain st2 rs2 where 2: "fold_surface_state projections ?seed = Inr (st2, rs2)"
    using message_projections.fold_closers_ok[OF assms(1) 1 bound] unfolding seed by blast
  have "enveloped (es ! boundary)" using assms(3,5) by (simp add: list_all_length)
  then have time: "safe_int (ev_time (es ! boundary))"
    by (simp add: enveloped_def assert_session_event_envelope_def split: if_splits)
  have env: "list_all enveloped prefix"
    using assms(3,7) time len unfolding prefix_def
    by (auto simp: list_all_iff seed prefix_def intro!: enveloped_log_only dest: in_set_takeD)
  have named: "list_all named_calls prefix"
    using assms(4) unfolding prefix_def
    by (auto simp: list_all_iff named_log_only dest: in_set_takeD)
  have "list_all enveloped ?seed"
    using env enveloped_closers[OF env named cont bound] by (simp add: seed)
  then obtain mg where mg: "admit_seed projections ?seed = Inr (?seed, mg)"
    using message_projections.admit_seed_ok[OF assms(1) 2] by blast
  have at: "nth_opt ?seed (boundary + 1) = Some (log_only (boundary + 1) (ev_time (es ! boundary)) (EndSeed True))"
    using len by (simp add: seed prefix_def nth_append)
  then have marked: "marked_seed ?seed (boundary + 1)"
    by (simp add: marked_seed_def is_inherited_marker_def log_only_def)
  have "drop (boundary + 2) ?seed = open_turn_closers prefix ByFork"
    using len by (simp add: seed prefix_def)
  then have last: "\<not> list_ex is_inherited_marker (drop (Suc (boundary + 1)) ?seed)"
    using no_marker_in_closers[of prefix ByFork] by (simp add: list_ex_iff list_all_iff)
  have le: "boundary + 1 \<le> length ?seed" using len by (simp add: seed prefix_def)
  define child where "child = constructed Snapshot h (boundary + 1) ?seed mg"
  have h: "validate_session_header sid h = Inr h" "sh_is_seeded h" using assms(6) by (auto simp: fork_header_def)
  have lin: "check_lineage Snapshot True h (Some (boundary + 1)) ?seed = Inr (boundary + 1)"
    using h(2) marked last le by (simp add: check_lineage_def Let_def)
  have "mark_lifecycle projections Snapshot True now child = Inr child"
    using h(2) marked by (simp add: mark_lifecycle_def child_def constructed_def empty_session_def)
  then have "new_session projections sid (Some ?seed) (Some h) Snapshot (Some (boundary + 1)) now = Inr child"
    using h(1) mg lin by (simp add: new_session_def snapshot_session_header_def child_def)
  moreover have "ss_log child = ?seed" "ss_first_lifecycle_seq child = boundary + 1"
    using h(2) by (simp_all add: child_def constructed_def)
  moreover have "contiguous ?seed" using message_projections.fold_contiguous[OF assms(1) 2] .
  moreover have "fst (boundary_of ?seed) = None" using closers_balance[of prefix ByFork] by (simp add: seed)
  moreover have "take (boundary + 1) ?seed = take (boundary + 1) es"
    using len by (simp add: seed prefix_def)
  ultimately show ?thesis by auto
qed

lemma ex_open_fold: "\<exists>res. fold_surface ex_open_log ex_projections = Inr res"
  by (simp add: ex_open_log_def fold_surface_def fold_surface_state_def fold_step_def
      apply_surface_event_def plan_surface_event_def validate_surface_metadata_def surface_op_of_def
      assert_source_event_references_def cited_sources_def assert_developer_header_def
      image_offload_projection_def create_fold_state_def log_only_def)

theorem fork_constructs_child_witness:
  "\<exists>child. new_session ex_projections ''c'' (Some (build_fork_seed ex_open_log 3))
      (Some \<lparr>sh_version = 6, sh_id = ''c'', sh_created_at = 1, sh_cwd = None, sh_parent_session = Some ''p'',
         sh_is_seeded = True, sh_origin_subagent = False, sh_delegation_depth = None, sh_agent_preset = None\<rparr>)
      Snapshot (Some 4) 9 = Inr child
     \<and> fst (boundary_of (ss_log child)) = None"
proof -
  obtain res where f: "fold_surface ex_open_log ex_projections = Inr res" using ex_open_fold by blast
  have env: "list_all enveloped ex_open_log"
    by (simp add: ex_open_log_def enveloped_def assert_session_event_envelope_def log_only_def
        validate_session_event_data_def validate_message_role_def create_assistant_message_def
        current_llm_shape_def message_event_shape_def expected_role_def settlement_shape_def
        safe_int_def max_safe_def)
  have named: "list_all named_calls ex_open_log"
    by (simp add: ex_open_log_def named_calls_def log_only_def create_assistant_message_def)
  have hdr: "fork_header ''c'' \<lparr>sh_version = 6, sh_id = ''c'', sh_created_at = 1, sh_cwd = None,
      sh_parent_session = Some ''p'', sh_is_seeded = True, sh_origin_subagent = False,
      sh_delegation_depth = None, sh_agent_preset = None\<rparr>"
    by (simp add: fork_header_def validate_session_header_def session_format_version_def safe_int_def max_safe_def)
  have len: "length ex_open_log = 4" by (simp add: ex_open_log_def)
  have "length (open_turn_closers es c) \<le> length (rv_pending (recover c es)) + 2" for es c
    by (auto simp: open_turn_closers_def results_def Let_def split: option.splits)
  moreover have "rv_pending (recover c (es @ [log_only n t (EndSeed b)])) = rv_pending (recover c es)" for c es n t b
    by (simp add: observe_def observe_pending_def log_only_def)
  ultimately have "length (open_turn_closers (ex_open_log @ [log_only n t (EndSeed True)]) ByFork)
      \<le> length (rv_pending (recover ByFork ex_open_log)) + 2" for n t
    by metis
  then have "length (build_fork_seed ex_open_log 3) \<le> 9"
    using len by (simp add: build_fork_seed_def ex_open_pending numeral_eq_Suc)
  then have "int (length (build_fork_seed ex_open_log 3)) \<le> max_safe" by (simp add: max_safe_def)
  then show ?thesis
    using fork_constructs_child[OF image_projections f env named _ hdr, of 3 9] len by auto
qed

section \<open>Log-only appends\<close>

definition log_only_data :: "projection list \<Rightarrow> event_data \<Rightarrow> bool" where
  \<comment> \<open>a payload that neither produces a message nor belongs to a projection\<close>
  "log_only_data projections d \<longleftrightarrow> message_of d = None \<and> \<not> is_surface_eligible_type d
     \<and> (case d of RequestHeader _ _ _ \<Rightarrow> False | _ \<Rightarrow> True) \<and> \<not> needs_message_projection d
     \<and> List.find (\<lambda>p. mp_type p = event_type d) projections = None"

context message_projections begin

lemma append_log_only:
  assumes "session_ok projections s" and "log_only_data projections d"
  shows "\<exists>s'. append_event projections False now d None None s = Inr (log_only (length (ss_log s)) now d, s')
       \<and> session_ok projections s' \<and> ss_log s' = ss_log s @ [log_only (length (ss_log s)) now d]"
proof -
  let ?e = "log_only (length (ss_log s)) now d"
  note mok = managed_ok[OF session_ok_managed[OF assms(1)]]
  then obtain st rs where f: "fold_surface_state projections (ss_log s) = Inr (st, rs)" by auto
  have "plan_surface_event projections st ?e (length (ss_log s)) (ss_log s) 0 = Inr NoPlan"
    using assms(2) by (cases d)
      (simp_all add: log_only_data_def plan_surface_event_def log_only_def validate_surface_metadata_def
        surface_op_of_def assert_developer_header_def)
  then obtain mg where "validate_next projections 0 (ss_log s) (ss_surface s) ?e = Inr mg"
    using validate_next_ok[OF conjunct1[OF mok] f, of ?e] by auto
  moreover have "validate_session_event_data d = Inr ()"
    using assms(2) by (intro validate_log_only) (auto simp: log_only_data_def)
  ultimately have "\<exists>s'. append_event projections False now d None None s = Inr (?e, s')"
    by (simp add: append_event_def Let_def log_only_def commit_def)
  then show ?thesis using session_ok_append[OF assms(1)] by blast
qed

end

section \<open>A fork that cannot be constructed\<close>

lemma foldE_bad_element:
  assumes "x \<in> set xs" and "\<And>s s'. f s x \<noteq> Inr s'"
  shows "foldE f s xs \<noteq> Inr t"
proof -
  obtain us vs where "xs = us @ x # vs" using assms(1) by (meson split_list)
  then show ?thesis using assms(2) by (auto simp: foldE_append)
qed

lemma admit_seed_envelope:
  assumes "e \<in> set seed" and "\<And>i. assert_session_event_envelope e i \<noteq> Inr ()"
  shows "admit_seed projections seed \<noteq> Inr r"
proof -
  obtain i where "(i, e) \<in> set (enumerate 0 seed)"
    using assms(1) by (metis in_set_impl_in_set_zip2 enumerate_eq_zip length_upt diff_zero add_0)
  then show ?thesis unfolding admit_seed_def
    by (rule foldE_bad_element) (use assms(2) in \<open>auto simp: admit_seed_event_def split: prod.splits\<close>)
qed

lemma unnamed_result_rejected:
  "assert_session_event_envelope (recovered_result c n t [] q) i \<noteq> Inr ()"
  by (simp add: recovered_result_def Let_def assert_session_event_envelope_def current_llm_shape_def
      message_event_shape_def expected_role_def create_tool_result_message_def split: sum.splits)

lemma results_from_member:
  "(cid, q) \<in> set p \<Longrightarrow> \<exists>m. recovered_result c m t cid q \<in> set (results_from c n t p)"
  by (induction c n t p rule: results_from.induct) auto

lemma closers_settle:
  assumes "fst (boundary_of es) = Some u" and "(cid, q) \<in> set (rv_pending (recover c es))"
  shows "\<exists>m lt. recovered_result c m lt cid q \<in> set (open_turn_closers es c)"
proof (rule open_turn_closers_eq[OF assms(1), of c])
  fix lst steps
  assume "open_turn_closers es c = results_from c (ev_seq lst + 1) (ev_time lst) (rv_pending (recover c es)) @ steps @
      [log_only (ev_seq lst + length (rv_pending (recover c es)) + 1 + length steps) (ev_time lst)
         (TurnEnd u (cause_end_reason c))]"
  then have "set (results_from c (ev_seq lst + 1) (ev_time lst) (rv_pending (recover c es)))
      \<subseteq> set (open_turn_closers es c)" by auto
  then show ?thesis using results_from_member[OF assms(2)] by (meson subsetD)
qed

text \<open>C40: a tool call with an empty id that is unanswered in the turn open at the boundary makes
  the log impossible to fork there: the synthetic result written for it does not satisfy the
  envelope that the child's constructor demands of its seed.\<close>
theorem unnamed_call_blocks_fork:
  assumes "prefix = take (boundary + 1) es
      @ [log_only (boundary + 1) (ev_time (es ! boundary)) (EndSeed True)]"
    and "fst (boundary_of prefix) \<noteq> None" and "unanswered prefix [] turn step"
  shows "new_session projections sid (Some (build_fork_seed es boundary)) source mode supplied now \<noteq> Inr child"
proof -
  obtain q where q: "([], q) \<in> set (rv_pending (recover ByFork prefix))"
    using assms(3) map_of_SomeD unfolding pends_iff_unanswered[of ByFork, symmetric] pends_def by fastforce
  obtain u where "fst (boundary_of prefix) = Some u" using assms(2) by blast
  then obtain m lt where "recovered_result ByFork m lt [] q \<in> set (open_turn_closers prefix ByFork)"
    using closers_settle[OF _ q] by blast
  then have "recovered_result ByFork m lt [] q \<in> set (build_fork_seed es boundary)"
    unfolding build_fork_seed_def assms(1)[symmetric] by (simp add: Let_def)
  from admit_seed_envelope[OF this unnamed_result_rejected]
  show ?thesis by (simp add: new_session_def)
qed

definition ex_unnamed_log :: "session_event list" where
  "ex_unnamed_log =
     [log_only 0 1 (TurnStart 1), log_only 1 2 (StepStart 1 1),
      (log_only 2 3 (AssistantMessage 1 1
         (create_assistant_message ''m'' [ToolCallBlock [] ''ls'' ''{}''] ''p'' ''x'' None) [] None False))
        \<lparr>ev_surface_op := Some (JStr ''append'')\<rparr>]"

theorem unnamed_call_blocks_fork_witness:
  "(\<exists>res. fold_surface ex_unnamed_log ex_projections = Inr res)
   \<and> list_all enveloped ex_unnamed_log
   \<and> (\<forall>child. new_session ex_projections ''c'' (Some (build_fork_seed ex_unnamed_log 2)) None Snapshot
        (Some 3) 9 \<noteq> Inr child)"
proof -
  let ?prefix = "take (2 + 1) ex_unnamed_log @ [log_only (2 + 1) (ev_time (ex_unnamed_log ! 2)) (EndSeed True)]"
  have "pends (rv_pending (recover ByFork ?prefix)) [] 1 1"
    by (simp add: ex_unnamed_log_def pends_def observe_def observe_pending_def log_only_def new_recovery_def
        create_assistant_message_def recover_def numeral_eq_Suc)
  moreover have "fst (boundary_of ?prefix) \<noteq> None"
    by (simp add: ex_unnamed_log_def boundary_of_def boundary_step_def log_only_def numeral_eq_Suc)
  ultimately have "\<forall>child. new_session ex_projections ''c'' (Some (build_fork_seed ex_unnamed_log 2)) None Snapshot
        (Some 3) 9 \<noteq> Inr child"
    using unnamed_call_blocks_fork[of ?prefix 2 ex_unnamed_log] unfolding pends_iff_unanswered by blast
  moreover have "\<exists>res. fold_surface ex_unnamed_log ex_projections = Inr res"
    by (simp add: ex_unnamed_log_def fold_surface_def fold_surface_state_def fold_step_def
        apply_surface_event_def plan_surface_event_def validate_surface_metadata_def surface_op_of_def
        assert_source_event_references_def cited_sources_def assert_developer_header_def
        image_offload_projection_def create_fold_state_def log_only_def)
  moreover have "list_all enveloped ex_unnamed_log"
    by (simp add: ex_unnamed_log_def enveloped_def assert_session_event_envelope_def log_only_def
        validate_session_event_data_def validate_message_role_def create_assistant_message_def
        current_llm_shape_def message_event_shape_def expected_role_def settlement_shape_def
        safe_int_def max_safe_def)
  ultimately show ?thesis by blast
qed

end
