(* ===== verification/SeqRanges.thy ===== *)
theory SeqRanges imports Prelude begin

text \<open>
  Range encoding of \<open>sourceEventSeqs\<close> arrays for JSONL storage
  (\<open>packages/core/session/src/seq-ranges.ts\<close>). In memory a list of event sequence numbers is a
  \<open>nat list\<close>; the stored form is a JSON array, and decoding reads a JSON value of any shape.
\<close>

section \<open>Encoding\<close>

fun is_strictly_increasing :: "nat list \<Rightarrow> bool" where
  "is_strictly_increasing (x # y # ys) = (x < y \<and> is_strictly_increasing (y # ys))"
| "is_strictly_increasing _ = True"

fun run_len :: "nat \<Rightarrow> nat list \<Rightarrow> nat" where
  \<comment> \<open>how far the inner loop moves \<open>end\<close> past a start holding x\<close>
  "run_len x (y # ys) = (if y = x + 1 then Suc (run_len y ys) else 0)"
| "run_len x [] = 0"

lemma run_len_le: "run_len x xs \<le> length xs"
  by (induction x xs rule: run_len.induct) auto

function encode_runs :: "nat list \<Rightarrow> json list" where
  "encode_runs [] = []"
| "encode_runs (x # xs) =
     (let n = run_len x xs in
      (if 2 \<le> n then [JArr [seq_json x, seq_json (last (x # take n xs))]]
       else map seq_json (x # take n xs)) @ encode_runs (drop n xs))"
  by pat_completeness auto
termination by (relation "measure length") auto

definition encode_seq_ranges :: "nat list \<Rightarrow> json list" where
  "encode_seq_ranges xs =
     (if \<not> is_strictly_increasing xs then map seq_json xs else encode_runs xs)"

section \<open>Decoding\<close>

datatype range_error =
    NotAnArray
  | BadSeq
  | TooMany
  | NotAPair
  | Reversed
  | NegativeZero
  | NotIncreasing

definition assert_seq :: "json \<Rightarrow> range_error + unit" where
  "assert_seq v =
     checkE (is_safe_integer v \<and> (case v of JInt n \<Rightarrow> 0 \<le> n | _ \<Rightarrow> True)) BadSeq"

definition session_seq :: "json \<Rightarrow> range_error + nat" where
  \<comment> \<open>\<open>SessionSeq\<close>: a non-negative safe integer other than negative zero\<close>
  "session_seq v = (if is_event_seq v then Inr (seq_of v) else Inl NegativeZero)"

definition decode_entry :: "nat \<Rightarrow> nat list \<times> bool \<Rightarrow> json \<Rightarrow> range_error + nat list \<times> bool" where
  "decode_entry maxEntries st entry = (case st of (decoded, hasRange) \<Rightarrow>
     (case entry of
        JArr es \<Rightarrow>
          if length es \<noteq> 2 then Inl NotAPair
          else let start = es ! 0; stop = es ! 1 in
            bindE (assert_seq start) (\<lambda>_. bindE (assert_seq stop) (\<lambda>_.
              if seq_of stop < seq_of start then Inl Reversed
              else if int (seq_of stop - seq_of start + 1) > int maxEntries - int (length decoded) then Inl TooMany
              else bindE (session_seq start) (\<lambda>_.
                Inr (decoded @ [seq_of start ..< Suc (seq_of stop)], True))))
      | JNull \<Rightarrow> Inl NotAPair
      | JBool b \<Rightarrow> Inl NotAPair
      | JStr s \<Rightarrow> Inl NotAPair
      | JObj kvs \<Rightarrow> Inl NotAPair
      | _ \<Rightarrow>
          bindE (assert_seq entry) (\<lambda>_.
            if length decoded \<ge> maxEntries then Inl TooMany
            else bindE (session_seq entry) (\<lambda>n. Inr (decoded @ [n], hasRange)))))"

definition decode_seq_ranges :: "nat \<Rightarrow> json \<Rightarrow> range_error + nat list" where
  "decode_seq_ranges maxEntries v =
     (case v of
        JArr entries \<Rightarrow>
          bindE (foldE (decode_entry maxEntries) ([], False) entries) (\<lambda>(decoded, hasRange).
            if hasRange \<and> \<not> is_strictly_increasing decoded then Inl NotIncreasing else Inr decoded)
      | _ \<Rightarrow> Inl NotAnArray)"

section \<open>Round trip\<close>

lemma run_len_take: "take (run_len x xs) xs = [Suc x ..< Suc x + run_len x xs]"
  by (induction x xs rule: run_len.induct) (auto simp: upt_rec[of "Suc _" "_ + _"])

lemma last_run: "last (x # take (run_len x xs) xs) = x + run_len x xs"
  unfolding run_len_take by (cases "run_len x xs") auto

lemma run_is_interval: "x # take (run_len x xs) xs = [x ..< Suc (x + run_len x xs)]"
  unfolding run_len_take by (simp add: upt_rec[of x])

lemma decode_singles:
  "list_all (\<lambda>n. int n \<le> max_safe) xs \<Longrightarrow> length ds + length xs \<le> m \<Longrightarrow>
   foldE (decode_entry m) (ds, r) (map seq_json xs) = Inr (ds @ xs, r)"
  by (induction xs arbitrary: ds)
    (simp_all add: decode_entry_def seq_json_def assert_seq_def session_seq_def safe_int_def max_safe_def)

lemma decode_range:
  assumes "int y \<le> max_safe" and "x \<le> y" and "length ds + (Suc y - x) \<le> m"
  shows "decode_entry m (ds, r) (JArr [seq_json x, seq_json y]) = Inr (ds @ [x ..< Suc y], True)"
  using assms
  by (simp add: decode_entry_def seq_json_def assert_seq_def session_seq_def safe_int_def max_safe_def Let_def)

lemma decode_runs:
  "list_all (\<lambda>n. int n \<le> max_safe) xs \<Longrightarrow> length ds + length xs \<le> m \<Longrightarrow>
   \<exists>r'. foldE (decode_entry m) (ds, r) (encode_runs xs) = Inr (ds @ xs, r')"
proof (induction xs arbitrary: ds r rule: encode_runs.induct)
  case (2 x xs)
  define n where "n = run_len x xs"
  let ?run = "x # take n xs" and ?rest = "drop n xs"
  have split: "?run @ ?rest = x # xs" by simp
  have safe: "list_all (\<lambda>n. int n \<le> max_safe) ?run" "list_all (\<lambda>n. int n \<le> max_safe) ?rest"
    using "2.prems"(1) unfolding split[symmetric] list_all_append by auto
  have len: "length ds + length ?run + length ?rest \<le> m"
    using "2.prems"(2) by (metis (no_types) split length_append add.assoc)
  have run: "?run = [x ..< Suc (x + n)]" unfolding n_def by (rule run_is_interval)
  have "\<exists>r1. foldE (decode_entry m) (ds, r)
      (if 2 \<le> n then [JArr [seq_json x, seq_json (last ?run)]] else map seq_json ?run)
      = Inr (ds @ ?run, r1)"
  proof (cases "2 \<le> n")
    case True
    have safe_end: "int (x + n) \<le> max_safe" using safe(1) unfolding run by (simp add: list_all_iff)
    have "length ?run = Suc n" unfolding run by simp
    then have fits: "length ds + (Suc (x + n) - x) \<le> m" using len by simp
    show ?thesis
      unfolding if_P[OF True] last_run[of x xs, folded n_def] unfolding run
      using decode_range[OF safe_end le_add1 fits, of r] by (intro exI[of _ True]) (simp del: upt_Suc)
  next
    case False
    then show ?thesis using decode_singles[OF safe(1), of ds m r] len by auto
  qed
  moreover have "\<exists>r'. foldE (decode_entry m) (ds @ ?run, r1) (encode_runs ?rest) = Inr ((ds @ ?run) @ ?rest, r')" for r1
    using "2.IH"[OF n_def safe(2), of "ds @ ?run" r1] len by simp
  ultimately show ?case
    unfolding encode_runs.simps Let_def n_def[symmetric] foldE_append
    by (metis (no_types, lifting) append.assoc bindE_simps(2) split)
qed simp

text \<open>C23: decoding the stored form gives back every list of sequence numbers, increasing or not,
  under any entry limit that admits the list.\<close>

theorem seq_ranges_roundtrip:
  assumes "list_all (\<lambda>n. int n \<le> max_safe) xs" and "length xs \<le> maxEntries"
  shows "decode_seq_ranges maxEntries (JArr (encode_seq_ranges xs)) = Inr xs"
proof (cases "is_strictly_increasing xs")
  case True
  then show ?thesis
    using decode_runs[OF assms(1), of "[]" maxEntries False] assms(2)
    by (auto simp: encode_seq_ranges_def decode_seq_ranges_def)
next
  case False
  then show ?thesis
    using decode_singles[OF assms(1), of "[]" maxEntries False] assms(2)
    by (simp add: encode_seq_ranges_def decode_seq_ranges_def)
qed

theorem seq_ranges_roundtrip_witness:
  "encode_seq_ranges [0, 1, 2, 3, 7, 8] = [JArr [JInt 0, JInt 3], JInt 7, JInt 8]
   \<and> decode_seq_ranges 6 (JArr (encode_seq_ranges [0, 1, 2, 3, 7, 8])) = Inr [0, 1, 2, 3, 7, 8]"
  using seq_ranges_roundtrip[of "[0, 1, 2, 3, 7, 8]" 6]
  by (simp add: encode_seq_ranges_def max_safe_def seq_json_def)

section \<open>What decoding admits\<close>

definition is_pair_entry :: "json \<Rightarrow> bool" where
  "is_pair_entry e = (case e of JArr _ \<Rightarrow> True | _ \<Rightarrow> False)"

lemma decode_entry_step:
  assumes "decode_entry m (ds, r) e = Inr (ds', r')" and "length ds \<le> m"
    and "list_all (\<lambda>n. int n \<le> max_safe) ds"
  shows "length ds' \<le> m \<and> list_all (\<lambda>n. int n \<le> max_safe) ds' \<and> r' = (r \<or> is_pair_entry e)"
proof (cases e)
  case (JInt n)
  then show ?thesis using assms
    by (auto simp: decode_entry_def assert_seq_def session_seq_def safe_int_def is_pair_entry_def split: if_splits)
next
  case (JArr es)
  then obtain s t where es: "es = [s, t]" and "is_event_seq s" and t: "assert_seq t = Inr ()"
    and "seq_of s \<le> seq_of t" and "Suc (seq_of t) - seq_of s + length ds \<le> m"
    and "ds' = ds @ [seq_of s ..< Suc (seq_of t)]" and "r'"
    using assms by (auto simp: decode_entry_def session_seq_def Let_def length_Suc_conv
        numeral_2_eq_2 split: if_splits)
  moreover have "int (seq_of t) \<le> max_safe"
    using t by (cases t) (auto simp: assert_seq_def safe_int_def max_safe_def)
  ultimately show ?thesis using assms JArr by (auto simp: list_all_iff is_pair_entry_def)
qed (use assms in \<open>auto simp: decode_entry_def session_seq_def assert_seq_def is_pair_entry_def
      split: if_splits\<close>)

lemma decode_entries_step:
  assumes "foldE (decode_entry m) (ds, r) es = Inr (ds', r')" and "length ds \<le> m"
    and "list_all (\<lambda>n. int n \<le> max_safe) ds"
  shows "length ds' \<le> m \<and> list_all (\<lambda>n. int n \<le> max_safe) ds' \<and> r' = (r \<or> list_ex is_pair_entry es)"
  using assms
proof (induction es arbitrary: ds r)
  case (Cons e es)
  then obtain ds1 r1 where "decode_entry m (ds, r) e = Inr (ds1, r1)"
    and "foldE (decode_entry m) (ds1, r1) es = Inr (ds', r')" by auto
  moreover from decode_entry_step[OF this(1)] Cons.prems
  have "length ds1 \<le> m" "list_all (\<lambda>n. int n \<le> max_safe) ds1" "r1 = (r \<or> is_pair_entry e)" by auto
  ultimately show ?case using Cons.IH[of ds1 r1] by auto
qed auto

text \<open>C24: whatever JSON array is read, an accepted list is no longer than the owning event allows
  and holds only safe sequence numbers, and a list that used a range is strictly increasing, so a
  stored range can neither exhaust memory nor repeat a source.\<close>

theorem decode_seq_ranges_bounded:
  assumes "decode_seq_ranges maxEntries (JArr entries) = Inr xs"
  shows "length xs \<le> maxEntries \<and> list_all (\<lambda>n. int n \<le> max_safe) xs
         \<and> (list_ex is_pair_entry entries \<longrightarrow> is_strictly_increasing xs)"
  using assms decode_entries_step[of maxEntries "[]" False entries]
  by (auto simp: decode_seq_ranges_def split: if_splits)

theorem decode_seq_ranges_bounded_witness:
  "decode_seq_ranges 5 (JArr [JInt 1, JArr [JInt 3, JInt 5]]) = Inr [1, 3, 4, 5]
   \<and> is_strictly_increasing [1, 3, 4, 5]"
proof -
  have d: "decode_seq_ranges 5 (JArr [JInt 1, JArr [JInt 3, JInt 5]]) = Inr [1, 3, 4, 5]"
    by (simp add: decode_seq_ranges_def decode_entry_def assert_seq_def session_seq_def
        safe_int_def max_safe_def upt_rec)
  show ?thesis using d decode_seq_ranges_bounded[OF d] by (simp add: is_pair_entry_def)
qed

end
