(* ===== verification/Projections.thy ===== *)
theory Projections imports SessionTypes begin

text \<open>
  The projection registry (\<open>packages/session/session-projection/src/index.ts\<close>): named units, each a
  fold over the log of a Session, with the cell the registry keeps per unit, its checkpoint rows and
  the replay of a stored log suffix from such rows. The model keeps the cells of one Session; units
  share one state type. The value of a view buffer is only compared to notify change listeners, so a
  drive carries the notification as an argument that may fail, and the buffer is left out.
\<close>

section \<open>Units, cells and registrations\<close>

record ('s, 'v, 'e) unit_def =
  ud_key :: string
  ud_init :: "session_header \<Rightarrow> nat \<Rightarrow> 's"
  ud_apply :: "'s \<Rightarrow> session_event \<Rightarrow> 'e + 's"
  ud_parse :: "'s \<Rightarrow> 'e + 's"               \<comment> \<open>\<open>stateSchema.parse\<close>\<close>
  ud_view :: "('s \<Rightarrow> 'e + 'v) option"       \<comment> \<open>\<open>wire\<close>: the parsed client view\<close>
  ud_summary :: bool                          \<comment> \<open>\<open>wire.summary\<close>\<close>
  ud_version :: int

datatype 'e registry_error =
    UnitFailed 'e
  | MissingSeq string int
  | CannotRestore string nat
  | BadVersion string int
  | VersionClash string int int
  | SummaryClash string
  | NoWireView string

record 's unit_cell =
  uc_state :: 's
  uc_seq :: int                               \<comment> \<open>\<open>observedSeq\<close>, \<open>-1\<close> before the first event\<close>

record ('s, 'v, 'e) registration =
  rg_def :: "('s, 'v, 'e) unit_def"
  rg_cell :: "'s unit_cell option"
  rg_refs :: nat

type_synonym ('s, 'v, 'e) registry = "(string \<times> ('s, 'v, 'e) registration) list"

record 's checkpoint_row =
  cr_ver :: int
  cr_seq :: int
  cr_val :: 's

definition cursor_before :: "nat \<Rightarrow> int" where
  "cursor_before offset = (if offset = 0 then -1 else int (offset - 1))"

definition unit_error :: "'e + 'a \<Rightarrow> 'e registry_error + 'a" where
  "unit_error r = (case r of Inl e \<Rightarrow> Inl (UnitFailed e) | Inr x \<Rightarrow> Inr x)"

definition wire_summary :: "('s, 'v, 'e) unit_def \<Rightarrow> bool option" where
  "wire_summary d = (if ud_view d = None then None else Some (ud_summary d))"

section \<open>Registration\<close>

definition register_unit ::
  "('s, 'v, 'e) unit_def \<Rightarrow> ('s, 'v, 'e) registry \<Rightarrow> 'e registry_error + ('s, 'v, 'e) registry" where
  "register_unit d reg =
     (if \<not> (0 \<le> ud_version d \<and> safe_int (ud_version d)) then Inl (BadVersion (ud_key d) (ud_version d))
      else case map_of reg (ud_key d) of
        None \<Rightarrow> Inr (AList.update (ud_key d) \<lparr>rg_def = d, rg_cell = None, rg_refs = 1\<rparr> reg)
      | Some rg \<Rightarrow>
          if rg_refs rg = 0 then Inr (AList.update (ud_key d) \<lparr>rg_def = d, rg_cell = None, rg_refs = 1\<rparr> reg)
          else if ud_version (rg_def rg) \<noteq> ud_version d
               then Inl (VersionClash (ud_key d) (ud_version (rg_def rg)) (ud_version d))
          else if wire_summary (rg_def rg) \<noteq> wire_summary d then Inl (SummaryClash (ud_key d))
          else Inr (AList.update (ud_key d) (rg\<lparr>rg_refs := rg_refs rg + 1\<rparr>) reg))"

definition release_unit :: "string \<Rightarrow> ('s, 'v, 'e) registry \<Rightarrow> ('s, 'v, 'e) registry" where
  \<comment> \<open>one live registrant's disposer\<close>
  "release_unit key reg =
     AList.map_entry key (\<lambda>rg. rg\<lparr>rg_refs := rg_refs rg - 1\<rparr>) reg"

definition session_created ::
  "session_header \<Rightarrow> nat \<Rightarrow> session_event list \<Rightarrow> ('s, 'v, 'e) registry \<Rightarrow> ('s, 'v, 'e) registry" where
  "session_created h inherited log reg =
     (if length log \<noteq> 0 then reg
      else map (\<lambda>(k, rg). (k, if rg_refs rg = 0 \<or> rg_cell rg \<noteq> None then rg
             else rg\<lparr>rg_cell := Some \<lparr>uc_state = ud_init (rg_def rg) h inherited, uc_seq = -1\<rparr>\<rparr>)) reg)"

section \<open>Cells\<close>

fun advance :: "('s, 'v, 'e) unit_def \<Rightarrow> session_event list \<Rightarrow> nat \<Rightarrow> 's unit_cell
    \<Rightarrow> 's unit_cell \<times> 'e registry_error option" where
  \<comment> \<open>at most \<open>k\<close> events after the cell's cursor; a failure keeps the progress made\<close>
  "advance d log 0 c = (c, None)"
| "advance d log (Suc k) c =
     (let sq = uc_seq c + 1 in
      case (if 0 \<le> sq then nth_opt log (nat sq) else None) of
        None \<Rightarrow> (c, Some (MissingSeq (ud_key d) sq))
      | Some e \<Rightarrow>
          if int (ev_seq e) \<noteq> sq then (c, Some (MissingSeq (ud_key d) sq))
          else case ud_apply d (uc_state c) e of
                 Inl x \<Rightarrow> (c, Some (UnitFailed x))
               | Inr s \<Rightarrow> advance d log k \<lparr>uc_state = s, uc_seq = sq\<rparr>)"

definition advance_cell :: "('s, 'v, 'e) unit_def \<Rightarrow> session_event list \<Rightarrow> int \<Rightarrow> 's unit_cell
    \<Rightarrow> 's unit_cell \<times> 'e registry_error option" where
  "advance_cell d log through c =
     (if through \<le> uc_seq c then (c, None) else advance d log (nat (through - uc_seq c)) c)"

definition build_cell :: "('s, 'v, 'e) unit_def \<Rightarrow> session_header \<Rightarrow> nat \<Rightarrow> session_event list
    \<Rightarrow> 'e registry_error + 's unit_cell" where
  "build_cell d h inherited events =
     bindE (unit_error (foldE (ud_apply d) (ud_init d h inherited) events)) (\<lambda>s.
       Inr \<lparr>uc_state = s, uc_seq = (case last_opt events of Some e \<Rightarrow> int (ev_seq e) | None \<Rightarrow> -1)\<rparr>)"

definition cell_for :: "session_header \<Rightarrow> nat \<Rightarrow> session_event list \<Rightarrow> ('s, 'v, 'e) registration
    \<Rightarrow> ('e registry_error + 's unit_cell) \<times> ('s, 'v, 'e) registration" where
  "cell_for h inherited log rg =
     (case rg_cell rg of
        None \<Rightarrow> (case build_cell (rg_def rg) h inherited log of
                   Inl e \<Rightarrow> (Inl e, rg)
                 | Inr c \<Rightarrow> (Inr c, rg\<lparr>rg_cell := Some c\<rparr>))
      | Some c \<Rightarrow> (case advance_cell (rg_def rg) log (cursor_before (length log)) c of
                   (c', None) \<Rightarrow> (Inr c', rg\<lparr>rg_cell := Some c'\<rparr>)
                 | (c', Some e) \<Rightarrow> (Inl e, rg\<lparr>rg_cell := Some c'\<rparr>)))"

fun materialize_cells :: "session_header \<Rightarrow> nat \<Rightarrow> session_event list \<Rightarrow> ('s, 'v, 'e) registry
    \<Rightarrow> ('s, 'v, 'e) registry \<times> 'e registry_error option" where
  "materialize_cells h inherited log [] = ([], None)"
| "materialize_cells h inherited log ((k, rg) # reg) =
     (if rg_refs rg = 0
      then let (reg', err) = materialize_cells h inherited log reg in ((k, rg) # reg', err)
      else case cell_for h inherited log rg of
             (Inl e, rg') \<Rightarrow> ((k, rg') # reg, Some e)
           | (Inr _, rg') \<Rightarrow>
               let (reg', err) = materialize_cells h inherited log reg in ((k, rg') # reg', err))"

definition state_of :: "session_header \<Rightarrow> nat \<Rightarrow> session_event list \<Rightarrow> string \<Rightarrow> ('s, 'v, 'e) registry
    \<Rightarrow> ('e registry_error + 's option) \<times> ('s, 'v, 'e) registry" where
  "state_of h inherited log key reg =
     (case map_of reg key of
        None \<Rightarrow> (Inr None, reg)
      | Some rg \<Rightarrow>
          if rg_refs rg = 0 then (Inr None, reg)
          else case materialize_cells h inherited log reg of
            (reg', Some e) \<Rightarrow> (Inl e, reg')
          | (reg', None) \<Rightarrow>
              (case map_of reg' key of
                 None \<Rightarrow> (Inr None, reg')
               | Some rg' \<Rightarrow>
                   (case cell_for h inherited log rg' of
                      (Inl e, rg'') \<Rightarrow> (Inl e, AList.update key rg'' reg')
                    | (Inr c, rg'') \<Rightarrow> (Inr (Some (uc_state c)), AList.update key rg'' reg'))))"

definition view_cell :: "('s, 'v, 'e) registration \<Rightarrow> 's unit_cell \<Rightarrow> 'e registry_error + 'v" where
  "view_cell rg c =
     (case ud_view (rg_def rg) of
        None \<Rightarrow> Inl (NoWireView (ud_key (rg_def rg)))
      | Some view \<Rightarrow> unit_error (view (uc_state c)))"

fun snapshot_values :: "session_header \<Rightarrow> nat \<Rightarrow> session_event list \<Rightarrow> (string \<Rightarrow> bool)
    \<Rightarrow> ('s, 'v, 'e) registry \<Rightarrow> ('s, 'v, 'e) registry \<times> ('e registry_error + (string \<times> 'v) list)" where
  \<comment> \<open>\<open>snapshot\<close> over the selected client-visible units\<close>
  "snapshot_values h inherited log sel [] = ([], Inr [])"
| "snapshot_values h inherited log sel ((k, rg) # reg) =
     (if rg_refs rg = 0 \<or> ud_view (rg_def rg) = None \<or> \<not> sel (ud_key (rg_def rg))
      then let (reg', r) = snapshot_values h inherited log sel reg in ((k, rg) # reg', r)
      else case cell_for h inherited log rg of
             (Inl e, rg') \<Rightarrow> ((k, rg') # reg, Inl e)
           | (Inr c, rg') \<Rightarrow>
               (case view_cell rg' c of
                  Inl e \<Rightarrow> ((k, rg') # reg, Inl e)
                | Inr v \<Rightarrow> let (reg', r) = snapshot_values h inherited log sel reg
                     in ((k, rg') # reg', bindE r (\<lambda>vs. Inr ((ud_key (rg_def rg), v) # vs)))))"

section \<open>Driving committed events\<close>

definition drive_unit :: "session_header \<Rightarrow> nat \<Rightarrow> session_event list \<Rightarrow> session_event
    \<Rightarrow> (string \<Rightarrow> 's \<Rightarrow> 's \<Rightarrow> 'e registry_error option) \<Rightarrow> ('s, 'v, 'e) registration
    \<Rightarrow> ('s, 'v, 'e) registration \<times> 'e registry_error option" where
  \<comment> \<open>\<open>notify\<close> stands for the view comparison and the change listeners\<close>
  "drive_unit h inherited log e notify rg =
     (if rg_refs rg = 0 \<or> (case rg_cell rg of Some c \<Rightarrow> int (ev_seq e) \<le> uc_seq c | None \<Rightarrow> False) then (rg, None)
      else let d = rg_def rg;
               ready = (case rg_cell rg of
                    None \<Rightarrow> (case build_cell d h inherited (take (ev_seq e) log) of
                               Inl x \<Rightarrow> (rg, Some x)
                             | Inr c \<Rightarrow> (rg\<lparr>rg_cell := Some c\<rparr>, None))
                  | Some c \<Rightarrow> (case advance_cell d log (cursor_before (ev_seq e)) c of
                               (c', err) \<Rightarrow> (rg\<lparr>rg_cell := Some c'\<rparr>, err)))
           in case ready of
                (rg', Some x) \<Rightarrow> (rg', Some x)
              | (rg', None) \<Rightarrow>
                  (case rg_cell rg' of
                     None \<Rightarrow> (rg', None)
                   | Some c \<Rightarrow>
                       (case ud_apply d (uc_state c) e of
                          Inl x \<Rightarrow> (rg', Some (UnitFailed x))
                        | Inr s \<Rightarrow> (rg'\<lparr>rg_cell := Some \<lparr>uc_state = s, uc_seq = int (ev_seq e)\<rparr>\<rparr>,
                                    if ud_view d = None then None else notify (ud_key d) (uc_state c) s))))"

fun drive :: "session_header \<Rightarrow> nat \<Rightarrow> session_event list \<Rightarrow> session_event
    \<Rightarrow> (string \<Rightarrow> 's \<Rightarrow> 's \<Rightarrow> 'e registry_error option) \<Rightarrow> ('s, 'v, 'e) registry
    \<Rightarrow> ('s, 'v, 'e) registry \<times> 'e registry_error option" where
  "drive h inherited log e notify [] = ([], None)"
| "drive h inherited log e notify ((k, rg) # reg) =
     (case drive_unit h inherited log e notify rg of
        (rg', Some x) \<Rightarrow> ((k, rg') # reg, Some x)
      | (rg', None) \<Rightarrow> let (reg', err) = drive h inherited log e notify reg in ((k, rg') # reg', err))"

section \<open>Checkpoints and cold reads\<close>

fun checkpoint :: "session_header \<Rightarrow> nat \<Rightarrow> session_event list \<Rightarrow> ('s, 'v, 'e) registry
    \<Rightarrow> ('s, 'v, 'e) registry \<times> ('e registry_error + (string \<times> 's checkpoint_row) list)" where
  "checkpoint h inherited log [] = ([], Inr [])"
| "checkpoint h inherited log ((k, rg) # reg) =
     (case (if rg_refs rg = 0 then (Inr (rg_cell rg), rg)
            else case cell_for h inherited log rg of
                   (Inl e, rg') \<Rightarrow> (Inl e, rg') | (Inr c, rg') \<Rightarrow> (Inr (Some c), rg')) of
        (Inl e, rg') \<Rightarrow> ((k, rg') # reg, Inl e)
      | (Inr cell, rg') \<Rightarrow>
          let (reg', r) = checkpoint h inherited log reg
          in ((k, rg') # reg', case cell of
                None \<Rightarrow> r
              | Some c \<Rightarrow> bindE r (\<lambda>rows. Inr ((ud_key (rg_def rg),
                    \<lparr>cr_ver = ud_version (rg_def rg), cr_seq = uc_seq c, cr_val = uc_state c\<rparr>) # rows))))"

definition row_need :: "(string \<times> 's checkpoint_row) list \<Rightarrow> ('s, 'v, 'e) unit_def \<Rightarrow> nat" where
  "row_need ck d =
     (case map_of ck (ud_key d) of
        Some row \<Rightarrow> if cr_ver row = ud_version d then nat (max (cr_seq row + 1) 0) else 0
      | None \<Rightarrow> 0)"

definition live_units :: "('s, 'v, 'e) registry \<Rightarrow> ('s, 'v, 'e) unit_def list" where
  "live_units reg = map (rg_def \<circ> snd) (filter (\<lambda>(k, rg). rg_refs rg \<noteq> 0) reg)"

definition restore_floor :: "(string \<times> 's checkpoint_row) list \<Rightarrow> ('s, 'v, 'e) registry \<Rightarrow> nat option" where
  "restore_floor ck reg =
     (case foldl (\<lambda>fl d. Some (case fl of None \<Rightarrow> row_need ck d | Some f \<Rightarrow> min f (row_need ck d)))
             None (live_units reg) of
        None \<Rightarrow> None
      | Some f \<Rightarrow> Some (f - 1))"

definition end_cursor :: "session_event list \<Rightarrow> nat \<Rightarrow> int" where
  "end_cursor events base = (case last_opt events of Some e \<Rightarrow> int (ev_seq e) | None \<Rightarrow> cursor_before base)"

definition replay_step :: "('s, 'v, 'e) unit_def \<Rightarrow> nat \<Rightarrow> 's \<Rightarrow> nat \<times> session_event \<Rightarrow> 'e registry_error + 's" where
  "replay_step d base s ie =
     (if ev_seq (snd ie) \<noteq> base + fst ie then Inl (MissingSeq (ud_key d) (int (base + fst ie)))
      else unit_error (ud_apply d s (snd ie)))"

definition restore_unit :: "session_header \<Rightarrow> nat \<Rightarrow> (string \<times> 's checkpoint_row) list \<Rightarrow> session_event list
    \<Rightarrow> nat \<Rightarrow> ('s, 'v, 'e) unit_def \<Rightarrow> 'e registry_error + 's" where
  "restore_unit h inherited ck events base d =
     (let row = (case map_of ck (ud_key d) of
            Some row \<Rightarrow> if cr_ver row = ud_version d \<and> cursor_before base \<le> cr_seq row
                           \<and> cr_seq row \<le> end_cursor events base then Some row else None
          | None \<Rightarrow> None)
      in if row = None \<and> 0 < base then Inl (CannotRestore (ud_key d) base)
         else bindE (case row of Some r \<Rightarrow> unit_error (ud_parse d (cr_val r)) | None \<Rightarrow> Inr (ud_init d h inherited)) (\<lambda>s.
           let start = nat ((case row of Some r \<Rightarrow> cr_seq r | None \<Rightarrow> cursor_before base) - int base + 1)
           in foldE (replay_step d base) s (drop start (enumerate 0 events))))"

definition restored_row :: "('s, 'v, 'e) unit_def \<Rightarrow> int \<Rightarrow> 's \<Rightarrow> string \<times> 's checkpoint_row" where
  "restored_row d fin s = (ud_key d, \<lparr>cr_ver = ud_version d, cr_seq = fin, cr_val = s\<rparr>)"

definition restore :: "session_header \<Rightarrow> nat \<Rightarrow> (string \<times> 's checkpoint_row) list \<Rightarrow> session_event list
    \<Rightarrow> nat \<Rightarrow> ('s, 'v, 'e) registry
    \<Rightarrow> 'e registry_error + int \<times> (string \<times> 'v) list \<times> (string \<times> 's checkpoint_row) list" where
  "restore h inherited ck events base reg =
     bindE (mapE (\<lambda>d. bindE (restore_unit h inherited ck events base d) (\<lambda>s.
              bindE (case ud_view d of None \<Rightarrow> Inr None | Some view \<Rightarrow>
                       bindE (unit_error (view s)) (\<lambda>v. Inr (Some (ud_key d, v)))) (\<lambda>v.
              Inr (v, restored_row d (end_cursor events base) s)))) (live_units reg)) (\<lambda>vs.
       Inr (end_cursor events base, List.map_filter fst vs, map snd vs))"

definition hydrate_cell :: "(string \<times> 's checkpoint_row) list \<Rightarrow> ('s, 'v, 'e) registration \<Rightarrow> ('s, 'v, 'e) registration" where
  "hydrate_cell rows rg =
     (if rg_refs rg = 0 then rg
      else case map_of rows (ud_key (rg_def rg)) of
        None \<Rightarrow> rg
      | Some row \<Rightarrow>
          if (case rg_cell rg of Some c \<Rightarrow> cr_seq row < uc_seq c | None \<Rightarrow> False) then rg
          else rg\<lparr>rg_cell := Some \<lparr>uc_state = cr_val row, uc_seq = cr_seq row\<rparr>\<rparr>)"

definition hydrate_complete :: "int \<Rightarrow> ('s, 'v, 'e) registry \<Rightarrow> bool" where
  "hydrate_complete fin reg =
     list_all (\<lambda>(k, rg). rg_refs rg = 0 \<or> (case rg_cell rg of Some c \<Rightarrow> uc_seq c = fin | None \<Rightarrow> False)) reg"

definition hydrate :: "session_header \<Rightarrow> nat \<Rightarrow> (string \<times> 's checkpoint_row) list \<Rightarrow> session_event list
    \<Rightarrow> nat \<Rightarrow> ('s, 'v, 'e) registry
    \<Rightarrow> 'e registry_error + int \<times> (string \<times> 'v) list \<times> ('s, 'v, 'e) registry" where
  "hydrate h inherited ck events base reg =
     (let fin = end_cursor events base in
      if hydrate_complete fin reg
      then bindE (mapE (\<lambda>(k, rg). case rg_cell rg of
                Some c \<Rightarrow> bindE (view_cell rg c) (\<lambda>v. Inr (ud_key (rg_def rg), v))
              | None \<Rightarrow> Inl (NoWireView k))
             (filter (\<lambda>(k, rg). rg_refs rg \<noteq> 0 \<and> ud_view (rg_def rg) \<noteq> None) reg)) (\<lambda>vs. Inr (fin, vs, reg))
      else bindE (restore h inherited ck events base reg) (\<lambda>(sq, vs, rows).
             Inr (sq, vs, map (\<lambda>(k, rg). (k, hydrate_cell rows rg)) reg)))"

section \<open>Cells hold folds of prefixes\<close>

definition unit_fold :: "session_header \<Rightarrow> nat \<Rightarrow> ('s, 'v, 'e) unit_def \<Rightarrow> session_event list \<Rightarrow> 'e + 's" where
  "unit_fold h inherited d es = foldE (ud_apply d) (ud_init d h inherited) es"

definition cell_ok :: "session_header \<Rightarrow> nat \<Rightarrow> session_event list \<Rightarrow> ('s, 'v, 'e) unit_def \<Rightarrow> 's unit_cell \<Rightarrow> bool" where
  "cell_ok h inherited log d c \<longleftrightarrow>
     (\<exists>m \<le> length log. uc_seq c = int m - 1 \<and> unit_fold h inherited d (take m log) = Inr (uc_state c))"

lemma cell_ok_append:
  assumes "cell_ok h n log d c"
  shows "cell_ok h n (log @ es) d c"
proof -
  obtain m where "m \<le> length log" "uc_seq c = int m - 1" "unit_fold h n d (take m log) = Inr (uc_state c)"
    using assms by (auto simp: cell_ok_def)
  then show ?thesis unfolding cell_ok_def by (intro exI[of _ m]) simp
qed

lemma cell_ok_full:
  assumes "cell_ok h n log d c" and "uc_seq c = int (length log) - 1"
  shows "unit_fold h n d log = Inr (uc_state c)"
  using assms by (auto simp: cell_ok_def)

lemma cursor_before_eq [simp]: "cursor_before n = int n - 1"
  by (auto simp: cursor_before_def)

lemma unit_fold_snoc:
  "m < length log \<Longrightarrow>
   unit_fold h n d (take (Suc m) log) = bindE (unit_fold h n d (take m log)) (\<lambda>s. ud_apply d s (log ! m))"
  by (simp add: unit_fold_def take_Suc_conv_app_nth foldE_snoc)

lemma unit_fold_fails:
  assumes "unit_fold h n d (take m log) = Inl x"
  shows "unit_fold h n d log = Inl x"
proof -
  have "unit_fold h n d log = unit_fold h n d (take m log @ drop m log)" by simp
  then show ?thesis using assms unfolding unit_fold_def foldE_append by simp
qed

lemma advance_spec:
  assumes "contiguous log" and "cell_ok h n log d c"
    and "uc_seq c + int k \<le> int (length log) - 1" and "advance d log k c = (c', err)"
  shows "cell_ok h n log d c' \<and>
    (case err of None \<Rightarrow> uc_seq c' = uc_seq c + int k
     | Some e \<Rightarrow> \<exists>x. e = UnitFailed x \<and> unit_fold h n d log = Inl x)"
  using assms
proof (induction k arbitrary: c)
  case (Suc k)
  obtain m where m: "uc_seq c = int m - 1" "unit_fold h n d (take m log) = Inr (uc_state c)"
    using Suc.prems(2) by (auto simp: cell_ok_def)
  have lt: "m < length log" using Suc.prems(3) m(1) by simp
  then have ev: "ev_seq (log ! m) = m" using Suc.prems(1) by (simp add: contiguous_nth)
  show ?case
  proof (cases "ud_apply d (uc_state c) (log ! m)")
    case (Inl x)
    have "unit_fold h n d (take (Suc m) log) = Inl x" using lt m(2) Inl by (simp add: unit_fold_snoc)
    then have "unit_fold h n d log = Inl x" by (rule unit_fold_fails)
    moreover have "(c', err) = (c, Some (UnitFailed x))" using Suc.prems(4) lt ev Inl m(1) by (simp add: Let_def)
    ultimately show ?thesis using Suc.prems(2) by simp
  next
    case (Inr s)
    let ?c = "\<lparr>uc_state = s, uc_seq = int m\<rparr>"
    have ok: "cell_ok h n log d ?c"
      using lt m(2) Inr by (auto simp: cell_ok_def unit_fold_snoc intro!: exI[of _ "Suc m"])
    have "advance d log k ?c = (c', err)" using Suc.prems(4) lt ev Inr m(1) by (simp add: Let_def)
    then show ?thesis using Suc.IH[OF Suc.prems(1) ok] Suc.prems(3) m(1) by (auto split: option.splits)
  qed
qed auto

lemma advance_cell_spec:
  assumes "contiguous log" and "cell_ok h n log d c" and "through < int (length log)"
    and "advance_cell d log through c = (c', err)"
  shows "cell_ok h n log d c' \<and>
    (case err of None \<Rightarrow> uc_seq c' = max through (uc_seq c)
     | Some e \<Rightarrow> \<exists>x. e = UnitFailed x \<and> unit_fold h n d log = Inl x)"
  using assms(4) advance_spec[OF assms(1,2), of "nat (through - uc_seq c)" c' err] assms(2,3)
  by (auto simp: advance_cell_def split: if_splits option.splits)

lemma build_cell_spec:
  assumes "contiguous log" and "m \<le> length log"
  shows "case build_cell d h n (take m log) of
      Inr c \<Rightarrow> cell_ok h n log d c \<and> uc_seq c = int m - 1
    | Inl e \<Rightarrow> \<exists>x. e = UnitFailed x \<and> unit_fold h n d log = Inl x"
proof (cases "unit_fold h n d (take m log)")
  case (Inl x)
  then show ?thesis using unit_fold_fails[OF Inl] by (simp add: build_cell_def unit_error_def unit_fold_def)
next
  case (Inr s)
  have "(case last_opt (take m log) of None \<Rightarrow> -1 | Some e \<Rightarrow> int (ev_seq e)) = int m - 1"
  proof (cases m)
    case (Suc j)
    then have "take m log = take j log @ [log ! j]" using assms(2) by (simp add: take_Suc_conv_app_nth)
    then show ?thesis using assms Suc by (simp add: contiguous_nth)
  qed simp
  then show ?thesis using Inr assms(2)
    by (auto simp: build_cell_def unit_error_def unit_fold_def cell_ok_def intro!: exI[of _ m])
qed

definition registration_ok :: "session_header \<Rightarrow> nat \<Rightarrow> session_event list \<Rightarrow> ('s, 'v, 'e) registration \<Rightarrow> bool" where
  "registration_ok h n log rg \<longleftrightarrow> (case rg_cell rg of None \<Rightarrow> True | Some c \<Rightarrow> cell_ok h n log (rg_def rg) c)"

definition registry_ok :: "session_header \<Rightarrow> nat \<Rightarrow> session_event list \<Rightarrow> ('s, 'v, 'e) registry \<Rightarrow> bool" where
  "registry_ok h n log reg \<longleftrightarrow> distinct (map fst reg) \<and>
     (\<forall>(k, rg) \<in> set reg. ud_key (rg_def rg) = k \<and> registration_ok h n log rg)"

definition evolves :: "session_header \<Rightarrow> nat \<Rightarrow> session_event list \<Rightarrow> string \<times> ('s, 'v, 'e) registration
    \<Rightarrow> string \<times> ('s, 'v, 'e) registration \<Rightarrow> bool" where
  \<comment> \<open>what a read or a drive may do to one registration\<close>
  "evolves h n log a b \<longleftrightarrow> fst b = fst a \<and> rg_def (snd b) = rg_def (snd a) \<and> rg_refs (snd b) = rg_refs (snd a)
     \<and> registration_ok h n log (snd b)"

lemma evolves_refl: "registration_ok h n log rg \<Longrightarrow> evolves h n log (k, rg) (k, rg)"
  by (simp add: evolves_def)

lemma evolves_all_refl: "\<forall>(k, rg) \<in> set reg. registration_ok h n log rg \<Longrightarrow> list_all2 (evolves h n log) reg reg"
  by (auto simp: evolves_def intro!: list.rel_refl_strong)

lemma registry_ok_evolves:
  assumes "registry_ok h n log reg" and "list_all2 (evolves h n log) reg reg'"
  shows "registry_ok h n log reg'"
proof -
  have "map fst reg' = map fst reg"
    using assms(2) by (induction reg reg' rule: list_all2_induct) (auto simp: evolves_def)
  moreover have "\<forall>(k, rg) \<in> set reg'. ud_key (rg_def rg) = k \<and> registration_ok h n log rg"
    using assms(2,1) unfolding registry_ok_def
    by (induction reg reg' rule: list_all2_induct) (auto simp: evolves_def)
  ultimately show ?thesis using assms(1) by (simp add: registry_ok_def)
qed

lemma map_of_evolves:
  assumes "list_all2 (evolves h n log) reg reg'" and "map_of reg k = Some rg"
  obtains rg' where "map_of reg' k = Some rg'" and "evolves h n log (k, rg) (k, rg')"
  using assms
proof (induction reg reg' arbitrary: thesis rule: list_all2_induct)
  case (Cons a reg b reg')
  then show ?case by (cases a; cases b) (auto simp: evolves_def split: if_splits)
qed simp

lemma cell_for_spec:
  assumes "contiguous log" and "registration_ok h n log rg" and "cell_for h n log rg = (r, rg')"
  shows "evolves h n log (k, rg) (k, rg') \<and>
    (case r of Inr c \<Rightarrow> unit_fold h n (rg_def rg) log = Inr (uc_state c) \<and> rg_cell rg' = Some c \<and> cell_ok h n log (rg_def rg) c
     | Inl e \<Rightarrow> \<exists>x. unit_fold h n (rg_def rg) log = Inl x)"
proof (cases "rg_cell rg")
  case None
  have *: "case build_cell (rg_def rg) h n log of
      Inr c \<Rightarrow> cell_ok h n log (rg_def rg) c \<and> uc_seq c = int (length log) - 1
    | Inl e \<Rightarrow> \<exists>x. e = UnitFailed x \<and> unit_fold h n (rg_def rg) log = Inl x"
    using build_cell_spec[OF assms(1) le_refl, of h n "rg_def rg"] by simp
  then show ?thesis using assms(2,3) None
    by (auto simp: cell_for_def evolves_def registration_ok_def split: sum.splits dest: cell_ok_full)
next
  case (Some c)
  then have ok: "cell_ok h n log (rg_def rg) c" using assms(2) by (simp add: registration_ok_def)
  obtain c' err where adv: "advance_cell (rg_def rg) log (cursor_before (length log)) c = (c', err)"
    by (cases "advance_cell (rg_def rg) log (cursor_before (length log)) c")
  have le: "uc_seq c \<le> int (length log) - 1" using ok by (auto simp: cell_ok_def)
  have spec: "cell_ok h n log (rg_def rg) c' \<and>
    (case err of None \<Rightarrow> uc_seq c' = max (int (length log) - 1) (uc_seq c)
     | Some e \<Rightarrow> \<exists>x. e = UnitFailed x \<and> unit_fold h n (rg_def rg) log = Inl x)"
    using advance_cell_spec[OF assms(1) ok _ adv] by (cases err) simp_all
  show ?thesis
  proof (cases err)
    case None
    then have "uc_seq c' = int (length log) - 1" using spec le by simp
    then show ?thesis using assms(3) Some adv None spec
      by (auto simp: cell_for_def evolves_def registration_ok_def dest: cell_ok_full)
  next
    case (Some e)
    then show ?thesis using assms(3) \<open>rg_cell rg = Some c\<close> adv spec
      by (auto simp: cell_for_def evolves_def registration_ok_def)
  qed
qed

definition unit_failing :: "session_header \<Rightarrow> nat \<Rightarrow> session_event list \<Rightarrow> ('s, 'v, 'e) registry \<Rightarrow> bool" where
  \<comment> \<open>some live unit's fold of the log fails\<close>
  "unit_failing h n log reg \<longleftrightarrow>
     (\<exists>(k, rg) \<in> set reg. rg_refs rg \<noteq> 0 \<and> (\<exists>x. unit_fold h n (rg_def rg) log = Inl x))"

abbreviation registrations_ok :: "session_header \<Rightarrow> nat \<Rightarrow> session_event list \<Rightarrow> ('s, 'v, 'e) registry \<Rightarrow> bool" where
  "registrations_ok h n log reg \<equiv> \<forall>(k, rg) \<in> set reg. registration_ok h n log rg"

lemma unit_failing_Cons:
  "unit_failing h n log ((k, rg) # reg) \<longleftrightarrow>
     (rg_refs rg \<noteq> 0 \<and> (\<exists>x. unit_fold h n (rg_def rg) log = Inl x)) \<or> unit_failing h n log reg"
  by (auto simp: unit_failing_def)

lemma materialize_cells_spec:
  assumes "contiguous log" and "registrations_ok h n log reg"
    and "materialize_cells h n log reg = (reg', err)"
  shows "list_all2 (evolves h n log) reg reg' \<and> (err \<noteq> None \<longrightarrow> unit_failing h n log reg)"
  using assms
proof (induction h n log reg arbitrary: reg' err rule: materialize_cells.induct)
  case (2 h n log k rg reg)
  obtain reg1 err1 where rest: "materialize_cells h n log reg = (reg1, err1)" by fastforce
  obtain r rg1 where cell: "cell_for h n log rg = (r, rg1)" by fastforce
  have ok: "registration_ok h n log rg" "registrations_ok h n log reg" using "2.prems"(2) by simp_all
  note spec = cell_for_spec[OF "2.prems"(1) ok(1) cell, of k]
  show ?case
  proof (cases "rg_refs rg = 0")
    case True
    then show ?thesis using "2.IH"(1)[OF True "2.prems"(1) ok(2) rest] "2.prems"(3) rest ok(1)
      by (auto simp: unit_failing_Cons evolves_refl)
  next
    case False
    show ?thesis
    proof (cases r)
      case (Inl e)
      then show ?thesis using "2.prems"(3) False cell spec evolves_all_refl[OF ok(2)]
        by (auto simp: unit_failing_Cons)
    next
      case (Inr c)
      then show ?thesis
        using "2.IH"(2)[OF False cell[symmetric] Inr "2.prems"(1) ok(2) rest] "2.prems"(3) False cell spec rest
        by (auto simp: unit_failing_Cons)
    qed
  qed
qed simp

lemma snapshot_values_evolves:
  assumes "contiguous log" and "registrations_ok h n log reg"
  shows "list_all2 (evolves h n log) reg (fst (snapshot_values h n log sel reg))"
  using assms
proof (induction h n log sel reg rule: snapshot_values.induct)
  case (2 h n log sel k rg reg)
  obtain r rg1 where cell: "cell_for h n log rg = (r, rg1)" by fastforce
  have ok: "registration_ok h n log rg" "registrations_ok h n log reg" using "2.prems"(2) by simp_all
  note spec = cell_for_spec[OF "2.prems"(1) ok(1) cell, of k]
  show ?case using 2 spec cell ok evolves_all_refl[OF ok(2)]
    by (auto simp: evolves_refl split: sum.splits prod.splits)
qed simp

lemma checkpoint_evolves:
  assumes "contiguous log" and "registrations_ok h n log reg"
  shows "list_all2 (evolves h n log) reg (fst (checkpoint h n log reg))"
  using assms
proof (induction h n log reg rule: checkpoint.induct)
  case (2 h n log k rg reg)
  obtain r rg1 where cell: "cell_for h n log rg = (r, rg1)" by fastforce
  have ok: "registration_ok h n log rg" "registrations_ok h n log reg" using "2.prems"(2) by simp_all
  note spec = cell_for_spec[OF "2.prems"(1) ok(1) cell, of k]
  show ?case using 2 spec cell ok evolves_all_refl[OF ok(2)]
    by (auto simp: evolves_refl split: sum.splits prod.splits)
qed simp

lemma cell_ok_apply:
  assumes "cell_ok h n log d c" and "uc_seq c = int i - 1" and "i < length log"
    and "ud_apply d (uc_state c) (log ! i) = Inr s"
  shows "cell_ok h n log d \<lparr>uc_state = s, uc_seq = int i\<rparr>"
  using assms by (auto simp: cell_ok_def unit_fold_snoc intro!: exI[of _ "Suc i"])

lemma drive_unit_evolves:
  assumes "contiguous log" and "registration_ok h n log rg" and "e \<in> set log"
    and "drive_unit h n log e notify rg = (rg', err)"
  shows "evolves h n log (k, rg) (k, rg')"
proof -
  obtain i where i: "i < length log" "log ! i = e" using assms(3) by (auto simp: in_set_conv_nth)
  then have sq: "ev_seq e = i" using contiguous_nth[OF assms(1)] by blast
  show ?thesis
  proof (cases "rg_cell rg")
    case None
    have b: "case build_cell (rg_def rg) h n (take i log) of
        Inr c \<Rightarrow> cell_ok h n log (rg_def rg) c \<and> uc_seq c = int i - 1
      | Inl e \<Rightarrow> \<exists>x. e = UnitFailed x \<and> unit_fold h n (rg_def rg) log = Inl x"
      by (rule build_cell_spec) (use assms(1) i(1) in simp_all)
    show ?thesis
    proof (cases "build_cell (rg_def rg) h n (take i log)")
      case (Inl x)
      then show ?thesis using assms(2,4) None sq
        by (auto simp: drive_unit_def evolves_def Let_def split: if_splits)
    next
      case (Inr c)
      then have ok: "cell_ok h n log (rg_def rg) c" "uc_seq c = int i - 1" using b by simp_all
      show ?thesis using assms(2,4) None sq Inr ok cell_ok_apply[OF ok i(1)] i(2)
        by (cases "ud_apply (rg_def rg) (uc_state c) e")
          (auto simp: drive_unit_def evolves_def registration_ok_def Let_def split: if_splits)
    qed
  next
    case (Some c)
    then have ok: "cell_ok h n log (rg_def rg) c" using assms(2) by (simp add: registration_ok_def)
    show ?thesis
    proof (cases "rg_refs rg = 0 \<or> int i \<le> uc_seq c")
      case True
      then show ?thesis using assms(2,4) Some sq by (auto simp: drive_unit_def evolves_def)
    next
      case False
      obtain c' x where adv: "advance_cell (rg_def rg) log (cursor_before i) c = (c', x)" by fastforce
      have spec: "cell_ok h n log (rg_def rg) c' \<and> (case x of None \<Rightarrow> uc_seq c' = max (int i - 1) (uc_seq c)
          | Some e \<Rightarrow> \<exists>x. e = UnitFailed x \<and> unit_fold h n (rg_def rg) log = Inl x)"
        using advance_cell_spec[OF assms(1) ok _ adv] i(1) by (cases x) simp_all
      show ?thesis
      proof (cases x)
        case None
        then have ok': "cell_ok h n log (rg_def rg) c'" "uc_seq c' = int i - 1" using spec False by simp_all
        show ?thesis using assms(4) Some sq False adv None ok' cell_ok_apply[OF ok' i(1)] i(2)
          by (cases "ud_apply (rg_def rg) (uc_state c') e")
            (auto simp: drive_unit_def evolves_def registration_ok_def Let_def)
      next
        case (Some y)
        then show ?thesis using assms(4) \<open>rg_cell rg = Some c\<close> sq False adv spec
          by (auto simp: drive_unit_def evolves_def registration_ok_def Let_def)
      qed
    qed
  qed
qed

lemma drive_evolves:
  assumes "contiguous log" and "registrations_ok h n log reg" and "e \<in> set log"
  shows "list_all2 (evolves h n log) reg (fst (drive h n log e notify reg))"
  using assms
proof (induction h n log e notify reg rule: drive.induct)
  case (2 h n log e notify k rg reg)
  obtain rg1 err where unit: "drive_unit h n log e notify rg = (rg1, err)" by fastforce
  have ok: "registration_ok h n log rg" "registrations_ok h n log reg" using "2.prems"(2) by simp_all
  note ev = drive_unit_evolves[OF "2.prems"(1) ok(1) "2.prems"(3) unit, of k]
  show ?case using 2 ev unit ok evolves_all_refl[OF ok(2)]
    by (auto split: option.splits prod.splits)
qed simp

section \<open>A registry that follows a growing log\<close>

inductive served :: "session_header \<Rightarrow> nat \<Rightarrow> session_event list \<Rightarrow> ('s, 'v, 'e) registry \<Rightarrow> bool" for h n where
  start: "served h n [] []"
| committed: "served h n log reg \<Longrightarrow> contiguous (log @ es) \<Longrightarrow> served h n (log @ es) reg"
| registered: "served h n log reg \<Longrightarrow> register_unit d reg = Inr reg' \<Longrightarrow> served h n log reg'"
| released: "served h n log reg \<Longrightarrow> served h n log (release_unit key reg)"
| created: "served h n log reg \<Longrightarrow> served h n log (session_created h n log reg)"
| read_state: "served h n log reg \<Longrightarrow> state_of h n log key reg = (r, reg') \<Longrightarrow> served h n log reg'"
| read_views: "served h n log reg \<Longrightarrow> snapshot_values h n log sel reg = (reg', v) \<Longrightarrow> served h n log reg'"
| read_rows: "served h n log reg \<Longrightarrow> checkpoint h n log reg = (reg', rows) \<Longrightarrow> served h n log reg'"
| driven: "served h n log reg \<Longrightarrow> e \<in> set log \<Longrightarrow> drive h n log e notify reg = (reg', err) \<Longrightarrow> served h n log reg'"

lemma registry_ok_update:
  assumes "registry_ok h n log reg" and "ud_key (rg_def rg) = k" and "registration_ok h n log rg"
  shows "registry_ok h n log (AList.update k rg reg)"
  using assms unfolding registry_ok_def
  by (auto simp: distinct_update dest!: subsetD[OF set_update_subset])

lemma registration_ok_refs [simp]:
  "registration_ok h n log (rg\<lparr>rg_refs := r\<rparr>) = registration_ok h n log rg"
  by (cases "rg_cell rg") (simp_all add: registration_ok_def)

lemma release_entry:
  assumes "registry_ok h n log reg"
  shows "registry_ok h n log (release_unit key reg)"
proof -
  have "ud_key (rg_def rg) = k \<and> registration_ok h n log rg" if mem: "(k, rg) \<in> set (release_unit key reg)" for k rg
  proof -
    consider "(k, rg) \<in> set reg" | rg0 where "(k, rg0) \<in> set reg" "rg = rg0\<lparr>rg_refs := rg_refs rg0 - 1\<rparr>"
      using subsetD[OF set_map_entry mem[unfolded release_unit_def]] by blast
    then show ?thesis using assms unfolding registry_ok_def by cases auto
  qed
  then show ?thesis using assms unfolding registry_ok_def by (auto simp: release_unit_def)
qed

lemma created_ok:
  assumes "registry_ok h n log reg"
  shows "registry_ok h n log (session_created h n log reg)"
proof (cases "log = []")
  case True
  have "cell_ok h n [] d \<lparr>uc_state = ud_init d h n, uc_seq = -1\<rparr>" for d :: "('a, 'b, 'c) unit_def"
    by (simp add: cell_ok_def unit_fold_def)
  then have "registration_ok h n log rg \<Longrightarrow> registration_ok h n log
      (rg\<lparr>rg_cell := Some \<lparr>uc_state = ud_init (rg_def rg) h n, uc_seq = -1\<rparr>\<rparr>)" for rg :: "('a, 'b, 'c) registration"
    using True by (simp add: registration_ok_def)
  then show ?thesis using assms True unfolding registry_ok_def
    by (auto simp: session_created_def split_beta comp_def)
qed (use assms in \<open>simp add: session_created_def\<close>)

lemma register_unit_ok:
  assumes "registry_ok h n log reg" and "register_unit d reg = Inr reg'"
  shows "registry_ok h n log reg'"
proof -
  have fresh: "registry_ok h n log (AList.update (ud_key d) \<lparr>rg_def = d, rg_cell = None, rg_refs = 1\<rparr> reg)"
    by (rule registry_ok_update) (simp_all add: assms registration_ok_def)
  show ?thesis
  proof (cases "map_of reg (ud_key d)")
    case None
    then show ?thesis using assms(2) fresh by (simp add: register_unit_def split: if_splits)
  next
    case (Some rg)
    then have "ud_key (rg_def rg) = ud_key d" "registration_ok h n log rg"
      using assms(1) by (auto simp: registry_ok_def dest!: map_of_SomeD)
    then have "registry_ok h n log (AList.update (ud_key d) (rg\<lparr>rg_refs := rg_refs rg + 1\<rparr>) reg)"
      by (intro registry_ok_update) (simp_all add: assms)
    then show ?thesis using assms(2) fresh Some by (simp add: register_unit_def split: if_splits)
  qed
qed

lemma registry_ok_registrations: "registry_ok h n log reg \<Longrightarrow> registrations_ok h n log reg"
  by (auto simp: registry_ok_def)

lemma state_of_spec:
  assumes "contiguous log" and "registry_ok h n log reg" and "state_of h n log key reg = (r, reg')"
  shows "registry_ok h n log reg' \<and>
    (\<forall>rg. map_of reg key = Some rg \<longrightarrow> rg_refs rg \<noteq> 0 \<longrightarrow>
      (case r of Inr x \<Rightarrow> \<exists>s. x = Some s \<and> unit_fold h n (rg_def rg) log = Inr s
       | Inl e \<Rightarrow> unit_failing h n log reg))"
proof (cases "\<exists>rg. map_of reg key = Some rg \<and> rg_refs rg \<noteq> 0")
  case True
  then obtain rg where rg: "map_of reg key = Some rg" "rg_refs rg \<noteq> 0" by blast
  obtain reg1 err where mat: "materialize_cells h n log reg = (reg1, err)" by fastforce
  note spec = materialize_cells_spec[OF assms(1) registry_ok_registrations[OF assms(2)] mat]
  have ok1: "registry_ok h n log reg1" using registry_ok_evolves[OF assms(2)] spec by blast
  obtain rg1 where rg1: "map_of reg1 key = Some rg1" "evolves h n log (key, rg) (key, rg1)"
    using map_of_evolves[OF conjunct1[OF spec] rg(1)] by blast
  have ok: "registration_ok h n log rg1" "rg_def rg1 = rg_def rg" "rg_refs rg1 = rg_refs rg"
    using rg1(2) by (simp_all add: evolves_def)
  obtain rc rg2 where cell: "cell_for h n log rg1 = (rc, rg2)" by fastforce
  note cspec = cell_for_spec[OF assms(1) ok(1) cell, of key]
  have "ud_key (rg_def rg2) = key"
    using map_of_SomeD[OF rg1(1)] ok1 cspec by (auto simp: evolves_def registry_ok_def)
  then have ok2: "registry_ok h n log (AList.update key rg2 reg1)"
    using cspec by (intro registry_ok_update ok1) (simp_all add: evolves_def)
  have fails: "unit_failing h n log reg" if "unit_fold h n (rg_def rg) log = Inl x" for x
    using that rg map_of_SomeD[OF rg(1)] unfolding unit_failing_def by (intro bexI[of _ "(key, rg)"]) auto
  show ?thesis
  proof (cases err)
    case (Some e)
    then show ?thesis using assms(3) rg mat ok1 spec by (auto simp: state_of_def)
  next
    case None
    then show ?thesis using assms(3) rg mat rg1(1) cell ok2 cspec ok(2) fails
      by (cases rc) (auto simp: state_of_def)
  qed
next
  case False
  then have "reg' = reg" using assms(3) by (auto simp: state_of_def split: option.splits if_splits)
  then show ?thesis using assms(2) False by simp
qed

lemma evolves_all_trans:
  "list_all2 (evolves h n log) a b \<Longrightarrow> list_all2 (evolves h n log) b c \<Longrightarrow> list_all2 (evolves h n log) a c"
  by (simp add: list_all2_conv_all_nth evolves_def)

lemma update_evolves:
  assumes "distinct (map fst reg)" and "map_of reg k = Some rg" and "evolves h n log (k, rg) (k, rg')"
    and "registrations_ok h n log reg"
  shows "list_all2 (evolves h n log) reg (AList.update k rg' reg)"
  using assms
proof (induction reg)
  case (Cons a reg)
  then show ?case
    using evolves_all_refl[of reg h n log] by (cases a) (auto simp: evolves_refl split: if_splits)
qed simp

lemma state_of_evolves:
  assumes "contiguous log" and "registry_ok h n log reg" and "state_of h n log key reg = (r, reg')"
  shows "list_all2 (evolves h n log) reg reg'"
proof (cases "\<exists>rg. map_of reg key = Some rg \<and> rg_refs rg \<noteq> 0")
  case True
  then obtain rg where rg: "map_of reg key = Some rg" "rg_refs rg \<noteq> 0" by blast
  obtain reg1 err where mat: "materialize_cells h n log reg = (reg1, err)" by fastforce
  note step = conjunct1[OF materialize_cells_spec[OF assms(1) registry_ok_registrations[OF assms(2)] mat]]
  have ok1: "registry_ok h n log reg1" by (rule registry_ok_evolves[OF assms(2) step])
  obtain rg1 where rg1: "map_of reg1 key = Some rg1" "evolves h n log (key, rg) (key, rg1)"
    using map_of_evolves[OF step rg(1)] by blast
  obtain rc rg2 where cell: "cell_for h n log rg1 = (rc, rg2)" by fastforce
  have "evolves h n log (key, rg1) (key, rg2)"
    using cell_for_spec[OF assms(1) _ cell, of key] rg1(2) by (simp add: evolves_def)
  then have "list_all2 (evolves h n log) reg1 (AList.update key rg2 reg1)"
    by (intro update_evolves[OF _ rg1(1)] registry_ok_registrations[OF ok1]) (use ok1 in \<open>simp_all add: registry_ok_def\<close>)
  then have "list_all2 (evolves h n log) reg (AList.update key rg2 reg1)"
    using step by (blast intro: evolves_all_trans)
  moreover have "reg' \<in> {reg1, AList.update key rg2 reg1}"
    using assms(3) rg mat rg1(1) cell by (cases err; cases rc) (simp_all add: state_of_def)
  ultimately show ?thesis using step by blast
next
  case False
  then have "reg' = reg" using assms(3) by (auto simp: state_of_def split: option.splits if_splits)
  then show ?thesis using evolves_all_refl[OF registry_ok_registrations[OF assms(2)]] by simp
qed

lemma live_units_evolves: "list_all2 (evolves h n log) reg reg' \<Longrightarrow> live_units reg' = live_units reg"
proof (induction reg reg' rule: list_all2_induct)
  case (Cons a reg b reg')
  then show ?case by (cases a; cases b) (simp add: live_units_def evolves_def)
qed simp

lemma served_ok:
  assumes "served h n log reg"
  shows "contiguous log \<and> registry_ok h n log reg"
  using assms
proof (induction rule: served.induct)
  case start
  then show ?case by (simp add: registry_ok_def)
next
  case (committed log reg es)
  then show ?case by (fastforce simp: registry_ok_def registration_ok_def cell_ok_append split: option.splits)
next
  case (registered log reg d reg')
  then show ?case using register_unit_ok by blast
next
  case (released log reg key)
  then show ?case using release_entry by blast
next
  case (created log reg)
  then show ?case using created_ok by blast
next
  case (read_state log reg key r reg')
  then show ?case using state_of_spec by blast
next
  case (read_views log reg sel reg' v)
  then show ?case
    using registry_ok_evolves snapshot_values_evolves[OF _ registry_ok_registrations] by (metis fst_conv)
next
  case (read_rows log reg reg' rows)
  then show ?case
    using registry_ok_evolves checkpoint_evolves[OF _ registry_ok_registrations] by (metis fst_conv)
next
  case (driven log reg e notify reg' err)
  then show ?case
    using registry_ok_evolves drive_evolves[OF _ registry_ok_registrations] by (metis fst_conv)
qed

text \<open>C28: whatever registrations, drives, reads and commits came before, the state a registry answers
  for a live unit is the unit's fold of the whole log from scratch; a read fails only when some live
  unit cannot fold the log.\<close>
theorem projection_state_current:
  assumes "served h n log reg" and "map_of reg key = Some rg" and "rg_refs rg \<noteq> 0"
  shows "case fst (state_of h n log key reg) of
       Inr r \<Rightarrow> \<exists>s. r = Some s \<and> unit_fold h n (rg_def rg) log = Inr s
     | Inl e \<Rightarrow> unit_failing h n log reg"
  using state_of_spec[of log h n reg key] served_ok[OF assms(1)] assms(2,3)
  by (cases "state_of h n log key reg") auto

section \<open>Replaying a stored suffix from a checkpoint\<close>

definition cell_row :: "('s, 'v, 'e) registration \<Rightarrow> (string \<times> 's checkpoint_row) option" where
  "cell_row rg = map_option (\<lambda>c. (ud_key (rg_def rg),
      \<lparr>cr_ver = ud_version (rg_def rg), cr_seq = uc_seq c, cr_val = uc_state c\<rparr>)) (rg_cell rg)"

lemma cell_row_simps [simp]:
  "rg_cell rg = None \<Longrightarrow> cell_row rg = None"
  "rg_cell rg = Some c \<Longrightarrow> cell_row rg = Some (ud_key (rg_def rg),
      \<lparr>cr_ver = ud_version (rg_def rg), cr_seq = uc_seq c, cr_val = uc_state c\<rparr>)"
  by (simp_all add: cell_row_def)

lemma checkpoint_rows:
  assumes "contiguous log" and "registrations_ok h n log reg" and "checkpoint h n log reg = (reg', Inr ck)"
  shows "ck = List.map_filter (\<lambda>a. cell_row (snd a)) reg'"
  using assms
proof (induction reg arbitrary: reg' ck)
  case (Cons kr reg)
  obtain k rg where kr: "kr = (k, rg)" by fastforce
  obtain r rg1 where cell: "cell_for h n log rg = (r, rg1)" by fastforce
  obtain reg1 rest where tl: "checkpoint h n log reg = (reg1, rest)" by fastforce
  have ok: "registration_ok h n log rg" "registrations_ok h n log reg" using Cons.prems(2) kr by simp_all
  note spec = cell_for_spec[OF Cons.prems(1) ok(1) cell, of k]
  obtain rows where rows: "rest = Inr rows"
    using Cons.prems(3) kr cell tl by (cases rest) (auto split: if_splits sum.splits option.splits)
  have IH: "rows = List.map_filter (\<lambda>a. cell_row (snd a)) reg1"
    using Cons.IH[OF Cons.prems(1) ok(2)] tl rows by blast
  show ?case using Cons.prems(3) kr cell tl rows spec unfolding IH
    by (auto simp: List.map_filter_simps evolves_def split: if_splits sum.splits option.splits)
qed (simp add: List.map_filter_simps)

lemma cell_rows_keys:
  assumes "\<forall>(k, rg) \<in> set reg. ud_key (rg_def rg) = k"
  shows "fst ` set (List.map_filter (\<lambda>a. cell_row (snd a)) reg) \<subseteq> fst ` set reg"
  using assms
proof (induction reg)
  case (Cons a reg)
  then show ?case by (cases a; cases "rg_cell (snd a)") (auto simp: List.map_filter_simps)
qed (simp add: List.map_filter_simps)

lemma map_of_cell_rows:
  assumes "distinct (map fst reg)" and "\<forall>(k, rg) \<in> set reg. ud_key (rg_def rg) = k" and "(k, rg) \<in> set reg"
  shows "map_of (List.map_filter (\<lambda>a. cell_row (snd a)) reg) k = map_option snd (cell_row rg)"
  using assms
proof (induction reg)
  case (Cons a reg)
  obtain j rj where a: "a = (j, rj)" by fastforce
  have keys: "fst ` set (List.map_filter (\<lambda>a. cell_row (snd a)) reg) \<subseteq> fst ` set reg"
    by (rule cell_rows_keys) (use Cons.prems in simp)
  have j: "ud_key (rg_def rj) = j" "j \<notin> fst ` set reg" using Cons.prems a by simp_all
  show ?case
  proof (cases "k = j")
    case True
    then have "rg = rj" using Cons.prems a j(2) by (auto simp: rev_image_eqI)
    moreover have "map_of (List.map_filter (\<lambda>a. cell_row (snd a)) reg) j = None"
      using keys j(2) by (auto simp: map_of_eq_None_iff)
    ultimately show ?thesis using True j a by (cases "rg_cell rj") (simp_all add: List.map_filter_simps)
  next
    case False
    then have "map_of (List.map_filter (\<lambda>a. cell_row (snd a)) reg) k = map_option snd (cell_row rg)"
      using Cons a by simp
    then show ?thesis using False j a by (cases "rg_cell rj") (simp_all add: List.map_filter_simps)
  qed
qed simp

definition honest_rows :: "session_header \<Rightarrow> nat \<Rightarrow> session_event list \<Rightarrow> (string \<times> 's checkpoint_row) list
    \<Rightarrow> ('s, 'v, 'e) unit_def list \<Rightarrow> bool" where
  \<comment> \<open>a row of a unit's own version is the fold of the prefix it claims\<close>
  "honest_rows h n log ck ds \<longleftrightarrow>
     (\<forall>d \<in> set ds. \<forall>row. map_of ck (ud_key d) = Some row \<longrightarrow> cr_ver row = ud_version d \<longrightarrow>
        (\<exists>m \<le> length log. cr_seq row = int m - 1 \<and> unit_fold h n d (take m log) = Inr (cr_val row)))"

lemma checkpoint_honest:
  assumes "contiguous log" and "registry_ok h n log reg" and "checkpoint h n log reg = (reg', Inr ck)"
  shows "registry_ok h n log reg' \<and> honest_rows h n log ck (live_units reg')"
proof -
  have ok: "registry_ok h n log reg'"
    using registry_ok_evolves[OF assms(2)] checkpoint_evolves[OF assms(1) registry_ok_registrations[OF assms(2)]]
      assms(3) by (metis fst_conv)
  note ck = checkpoint_rows[OF assms(1) registry_ok_registrations[OF assms(2)] assms(3)]
  have "\<exists>m \<le> length log. cr_seq row = int m - 1 \<and> unit_fold h n d (take m log) = Inr (cr_val row)"
    if d: "d \<in> set (live_units reg')" and row: "map_of ck (ud_key d) = Some row" for d row
  proof -
    obtain k rg where rg: "(k, rg) \<in> set reg'" "d = rg_def rg" using d by (auto simp: live_units_def)
    then have k: "ud_key d = k" "registration_ok h n log rg" using ok by (auto simp: registry_ok_def)
    have "map_of ck k = map_option snd (cell_row rg)"
      unfolding ck using ok rg(1) by (intro map_of_cell_rows) (auto simp: registry_ok_def)
    then obtain c where "rg_cell rg = Some c" "row = \<lparr>cr_ver = ud_version d, cr_seq = uc_seq c, cr_val = uc_state c\<rparr>"
      using row k(1) rg(2) by (auto simp: cell_row_def)
    then show ?thesis using k(2) rg(2) by (auto simp: registration_ok_def cell_ok_def)
  qed
  with ok show ?thesis by (auto simp: honest_rows_def)
qed

lemma unit_error_bind: "unit_error (bindE m f) = bindE (unit_error m) (\<lambda>x. unit_error (f x))"
  by (cases m) (simp_all add: unit_error_def)

lemma unit_error_Inr [simp]: "unit_error (Inr x) = Inr x" "unit_error m = Inr x \<longleftrightarrow> m = Inr x"
  by (cases m; simp add: unit_error_def)+

lemma replay_enumerate:
  assumes "\<And>i. i < length es \<Longrightarrow> ev_seq (es ! i) = base + st + i"
  shows "foldE (replay_step d base) s (enumerate st es) = unit_error (foldE (ud_apply d) s es)"
  using assms
proof (induction es arbitrary: s st)
  case (Cons e es)
  have "ev_seq e = base + st" using Cons.prems[of 0] by simp
  then have "replay_step d base s (st, e) = unit_error (ud_apply d s e)" by (simp add: replay_step_def)
  moreover have "foldE (replay_step d base) s (enumerate (Suc st) es) = unit_error (foldE (ud_apply d) s es)" for s
    by (rule Cons.IH) (use Cons.prems[of "Suc _"] in simp)
  ultimately show ?case by (simp add: unit_error_bind)
qed simp

lemma drop_enumerate: "drop k (enumerate n xs) = enumerate (n + k) (drop k xs)"
proof (induction xs arbitrary: k n)
  case (Cons x xs)
  then show ?case by (cases k) simp_all
qed simp

lemma replay_suffix:
  assumes "contiguous L" and "b \<le> m" and "m \<le> length L" and "unit_fold h n d (take m L) = Inr s"
  shows "foldE (replay_step d b) s (drop (m - b) (enumerate 0 (drop b L))) = unit_error (unit_fold h n d L)"
proof -
  have "foldE (replay_step d b) s (enumerate (m - b) (drop m L)) = unit_error (foldE (ud_apply d) s (drop m L))"
    by (rule replay_enumerate) (use assms(1-3) in \<open>simp add: contiguous_nth\<close>)
  moreover have "unit_fold h n d L = foldE (ud_apply d) s (drop m L)"
  proof -
    have "unit_fold h n d L = foldE (ud_apply d) (ud_init d h n) (take m L @ drop m L)" by (simp add: unit_fold_def)
    then show ?thesis using assms(4) unfolding foldE_append unit_fold_def by simp
  qed
  ultimately show ?thesis using assms(2) by (simp add: drop_enumerate)
qed

lemma end_cursor_drop:
  assumes "contiguous L"
  shows "end_cursor (drop b L) b = (if b < length L then int (length L) - 1 else int b - 1)"
proof (cases "b < length L")
  case True
  then have "last (drop b L) = L ! (length L - 1)" "drop b L \<noteq> []" by (simp_all add: last_drop last_conv_nth)
  moreover have "ev_seq (L ! (length L - 1)) = length L - 1" using True assms by (simp add: contiguous_nth)
  ultimately show ?thesis using True by (simp add: end_cursor_def last_opt_def)
qed (simp add: end_cursor_def)

lemma restore_floor_bound:
  assumes "restore_floor ck reg = Some b"
  obtains f where "b = f - 1" and "\<And>d. d \<in> set (live_units reg) \<Longrightarrow> f \<le> row_need ck d"
proof -
  let ?step = "\<lambda>fl d. Some (case fl of None \<Rightarrow> row_need ck d | Some f \<Rightarrow> min f (row_need ck d))"
  have bound: "(\<forall>g. a = Some g \<longrightarrow> f \<le> g) \<and> (\<forall>d \<in> set ds. f \<le> row_need ck d)"
    if "foldl ?step a ds = Some f" for a ds f
    using that
  proof (induction ds arbitrary: a)
    case (Cons d ds)
    from Cons.IH[of "?step a d"] Cons.prems show ?case by (auto split: option.splits)
  qed auto
  obtain f where f: "foldl ?step None (live_units reg) = Some f" "b = f - 1"
    using assms by (auto simp: restore_floor_def split: option.splits)
  then show thesis using bound[OF f(1)] that by blast
qed

lemma restore_unit_spec:
  fixes ck :: "(string \<times> 's checkpoint_row) list" and d :: "('s, 'v, 'e) unit_def"
  assumes "contiguous L" and "\<And>m. m \<le> length log \<Longrightarrow> m \<le> length L \<Longrightarrow> take m L = take m log"
    and "honest_rows h n log ck [d]" and "\<And>es s. unit_fold h n d es = Inr s \<Longrightarrow> ud_parse d s = Inr s"
    and "b = f - 1" and "f \<le> row_need ck d"
  shows "case restore_unit h n ck (drop b L) b d of
      Inr s \<Rightarrow> unit_fold h n d L = Inr s
    | Inl e \<Rightarrow> (\<exists>x. unit_fold h n d L = Inl x) \<or> length L < length log"
proof -
  define usable :: "'s checkpoint_row \<Rightarrow> bool" where "usable row \<longleftrightarrow> cr_ver row = ud_version d \<and> cursor_before b \<le> cr_seq row
      \<and> cr_seq row \<le> end_cursor (drop b L) b" for row :: "'s checkpoint_row"
  have final: "case unit_error (unit_fold h n d L) of
      Inr s \<Rightarrow> unit_fold h n d L = Inr s | Inl e \<Rightarrow> (\<exists>x. unit_fold h n d L = Inl x) \<or> length L < length log"
    by (simp add: unit_error_def split: sum.splits)
  show ?thesis
  proof (cases "\<exists>row. map_of ck (ud_key d) = Some row \<and> usable row")
    case True
    then obtain row where row: "map_of ck (ud_key d) = Some row" "usable row" by blast
    then obtain m where m: "m \<le> length log" "cr_seq row = int m - 1" "unit_fold h n d (take m log) = Inr (cr_val row)"
      using assms(3) unfolding honest_rows_def usable_def by force
    have "f \<le> m" using assms(6) row m(2) by (simp add: row_need_def usable_def)
    moreover have "int m - 1 \<le> end_cursor (drop b L) b" using row(2) m(2) by (simp add: usable_def)
    ultimately have le: "b \<le> m" "m \<le> length L" using assms(5) by (auto simp: end_cursor_drop[OF assms(1)] split: if_splits)
    have "unit_fold h n d (take m L) = Inr (cr_val row)" using assms(2)[OF m(1) le(2)] m(3) by simp
    moreover have "nat (int m - 1 - int b + 1) = m - b" using le(1) by simp
    ultimately have "restore_unit h n ck (drop b L) b d = unit_error (unit_fold h n d L)"
      using row m(2) assms(4)[OF m(3)] replay_suffix[OF assms(1) le]
      by (simp add: restore_unit_def usable_def unit_error_def[of "Inr _"])
    then show ?thesis using final by simp
  next
    case False
    then have none: "(case map_of ck (ud_key d) of
        Some row \<Rightarrow> if cr_ver row = ud_version d \<and> cursor_before b \<le> cr_seq row
          \<and> cr_seq row \<le> end_cursor (drop b L) b then Some row else None
      | None \<Rightarrow> None) = None" by (auto simp: usable_def split: option.splits)
    show ?thesis
    proof (cases "b = 0")
      case True
      then have "restore_unit h n ck (drop b L) b d = unit_error (unit_fold h n d L)"
        using replay_suffix[OF assms(1), of 0 0 h n d "ud_init d h n"]
        unfolding restore_unit_def none by (simp add: Let_def unit_fold_def)
      then show ?thesis using final by simp
    next
      case b: False
      then have need: "b < row_need ck d" using assms(5,6) by simp
      then obtain row where row: "map_of ck (ud_key d) = Some row" "cr_ver row = ud_version d" "int b \<le> cr_seq row"
        by (auto simp: row_need_def split: option.splits if_splits)
      obtain m where m: "m \<le> length log" "cr_seq row = int m - 1"
        using assms(3) row unfolding honest_rows_def by force
      have "\<not> usable row" using False row(1) by blast
      then have "length L < length log"
        using row m by (auto simp: usable_def end_cursor_drop[OF assms(1)] split: if_splits)
      moreover have "restore_unit h n ck (drop b L) b d = Inl (CannotRestore (ud_key d) b)"
        unfolding restore_unit_def none using b by (simp add: Let_def)
      ultimately show ?thesis by simp
    qed
  qed
qed

definition views_fail :: "('s, 'v, 'e) unit_def list \<Rightarrow> bool" where
  "views_fail ds \<longleftrightarrow> (\<exists>d \<in> set ds. \<exists>view s x. ud_view d = Some view \<and> view s = Inl x)"

lemma live_units_keys:
  assumes "registry_ok h n log reg"
  shows "distinct (map ud_key (live_units reg))"
proof -
  have "map ud_key (live_units reg) = map fst (filter (\<lambda>(k, rg). rg_refs rg \<noteq> 0) reg)"
    using assms by (auto simp: live_units_def registry_ok_def)
  then show ?thesis using assms by (simp add: registry_ok_def distinct_map_filter)
qed

lemma restored_rows_lookup:
  assumes "distinct (map ud_key ds)" and "mapE f ds = Inr ps" and "\<And>d p. f d = Inr p \<Longrightarrow> fst (snd p) = ud_key d"
    and "d \<in> set ds"
  shows "\<exists>p. f d = Inr p \<and> map_of (map snd ps) (ud_key d) = Some (snd (snd p))"
  using assms
proof (induction ds arbitrary: ps)
  case (Cons a ds)
  from Cons.prems(2) obtain p qs where p: "f a = Inr p" "mapE f ds = Inr qs" "ps = p # qs" by auto
  show ?case
  proof (cases "a = d")
    case True
    then show ?thesis using p Cons.prems(3)[OF p(1)] by (cases "snd p") auto
  next
    case False
    then have "d \<in> set ds" "ud_key a \<noteq> ud_key d" using Cons.prems(1,4) by auto
    then show ?thesis using Cons.IH[OF _ p(2) Cons.prems(3)] Cons.prems(1) p(3) Cons.prems(3)[OF p(1)]
      by (cases "snd p") auto
  qed
qed simp


end
