(* ===== verification/UnitStore.thy ===== *)
theory UnitStore imports Projections SessionLog begin

text \<open>
  The pair of services an agent's domain code works against: a Session that commits events and the
  projection registry that folds them. \<open>fold_store\<close> is their contract as a domain sees it: a read
  answers the fold of the log, and an event the fold accepts is committed and folded. It is
  interpreted on the models of the Session and the registry for every projection unit.
\<close>

section \<open>The contract\<close>

locale fold_store =
  fixes current :: "'st \<Rightarrow> 'e + 's \<times> 'st"
    and put :: "event_data \<Rightarrow> 'st \<Rightarrow> 'e + 'st"
    and view :: "'st \<Rightarrow> 's"
    and ok :: "'st \<Rightarrow> bool"
    and apply_event :: "'s \<Rightarrow> session_event \<Rightarrow> 'x + 's"
    and owned :: "event_data \<Rightarrow> bool"
  assumes reads: "ok st \<Longrightarrow> \<exists>st'. current st = Inr (view st, st') \<and> ok st' \<and> view st' = view st"
    and writes: "ok st \<Longrightarrow> owned d \<Longrightarrow> (\<And>n t. apply_event (view st) (log_only n t d) = Inr v) \<Longrightarrow>
      \<exists>st'. put d st = Inr st' \<and> ok st' \<and> view st' = v"

section \<open>A Session with its registry\<close>

type_synonym ('s, 'v, 'e) unit_store = "session \<times> ('s, 'v, 'e) registry"

datatype 'e store_error =
    ReadFailed "'e registry_error"
  | NotActive
  | AppendFailed session_error

definition unit_current :: "string \<Rightarrow> ('s, 'v, 'e) unit_store \<Rightarrow> 'e store_error + 's \<times> ('s, 'v, 'e) unit_store" where
  "unit_current key st =
     (case state_of (ss_header (fst st)) (ss_inherited_event_count (fst st)) (ss_log (fst st)) key (snd st) of
        (Inl e, _) \<Rightarrow> Inl (ReadFailed e)
      | (Inr None, _) \<Rightarrow> Inl NotActive
      | (Inr (Some v), reg) \<Rightarrow> Inr (v, (fst st, reg)))"

definition unit_put :: "projection list \<Rightarrow> (nat \<Rightarrow> int) \<Rightarrow> event_data \<Rightarrow> ('s, 'v, 'e) unit_store
    \<Rightarrow> 'e store_error + ('s, 'v, 'e) unit_store" where
  \<comment> \<open>append, then the registry's own subscription; a throwing listener is contained\<close>
  "unit_put projections clock d st =
     (case append_event projections False (clock (length (ss_log (fst st)))) d None None (fst st) of
        Inl e \<Rightarrow> Inl (AppendFailed e)
      | Inr (e, s) \<Rightarrow> Inr (s, fst (drive (ss_header s) (ss_inherited_event_count s) (ss_log s) e (\<lambda>_ _ _. None) (snd st))))"

definition store_fold :: "('s, 'v, 'e) unit_def \<Rightarrow> ('s, 'v, 'e) unit_store \<Rightarrow> 'e + 's" where
  \<comment> \<open>the unit's fold of the log from scratch\<close>
  "store_fold u st = unit_fold (ss_header (fst st)) (ss_inherited_event_count (fst st)) u (ss_log (fst st))"

definition store_view :: "('s, 'v, 'e) unit_def \<Rightarrow> ('s, 'v, 'e) unit_store \<Rightarrow> 's" where
  "store_view u st = (case store_fold u st of
     Inr v \<Rightarrow> v | Inl _ \<Rightarrow> ud_init u (ss_header (fst st)) (ss_inherited_event_count (fst st)))"

definition unit_total :: "('s, 'v, 'e) unit_def \<Rightarrow> bool" where
  "unit_total d \<longleftrightarrow> (\<forall>s e. \<exists>s'. ud_apply d s e = Inr s')"

definition store_ok :: "projection list \<Rightarrow> ('s, 'v, 'e) unit_def \<Rightarrow> ('s, 'v, 'e) unit_store \<Rightarrow> bool" where
  "store_ok projections u st \<longleftrightarrow>
     message_projections projections \<and> session_ok projections (fst st)
     \<and> served (ss_header (fst st)) (ss_inherited_event_count (fst st)) (ss_log (fst st)) (snd st)
     \<and> u \<in> set (live_units (snd st))
     \<and> (\<forall>d \<in> set (live_units (snd st)). d = u \<or> unit_total d)
     \<and> (\<exists>v. store_fold u st = Inr v)"

lemma unit_fold_total: "unit_total d \<Longrightarrow> \<exists>s. unit_fold h n d es = Inr s"
proof (induction es rule: rev_induct)
  case (snoc e es)
  then show ?case by (auto simp: unit_fold_def foldE_snoc unit_total_def)
qed (simp add: unit_fold_def)

lemma store_ok_view: "store_ok projections u st \<Longrightarrow> store_fold u st = Inr (store_view u st)"
  by (auto simp: store_ok_def store_view_def)

lemma store_ok_not_failing:
  assumes "store_ok projections u st"
  shows "\<not> unit_failing (ss_header (fst st)) (ss_inherited_event_count (fst st)) (ss_log (fst st)) (snd st)"
proof
  assume "unit_failing (ss_header (fst st)) (ss_inherited_event_count (fst st)) (ss_log (fst st)) (snd st)"
  then obtain d x where "d \<in> set (live_units (snd st))"
      "unit_fold (ss_header (fst st)) (ss_inherited_event_count (fst st)) d (ss_log (fst st)) = Inl x"
    by (force simp: unit_failing_def live_units_def)
  moreover from this(1) have "d = u \<or> unit_total d" using assms by (simp add: store_ok_def)
  ultimately show False
    using store_ok_view[OF assms] unit_fold_total by (metis store_fold_def sum.distinct(1))
qed

lemma live_unit:
  assumes "store_ok projections u st"
  obtains rg where "map_of (snd st) (ud_key u) = Some rg" "rg_refs rg \<noteq> 0" "rg_def rg = u"
proof -
  have ok: "registry_ok (ss_header (fst st)) (ss_inherited_event_count (fst st)) (ss_log (fst st)) (snd st)"
    using assms served_ok unfolding store_ok_def by blast
  obtain k rg where rg: "(k, rg) \<in> set (snd st)" "rg_refs rg \<noteq> 0" "rg_def rg = u"
    using assms by (auto simp: store_ok_def live_units_def)
  then have "k = ud_key u" "distinct (map fst (snd st))"
    using ok by (auto simp: registry_ok_def)
  then show thesis using that rg map_of_is_SomeI by metis
qed

lemma unit_current_ok:
  assumes "store_ok projections u st"
  shows "\<exists>st'. unit_current (ud_key u) st = Inr (store_view u st, st') \<and> store_ok projections u st'
       \<and> store_view u st' = store_view u st \<and> fst st' = fst st"
proof -
  let ?h = "ss_header (fst st)" and ?n = "ss_inherited_event_count (fst st)" and ?log = "ss_log (fst st)"
  have served: "served ?h ?n ?log (snd st)" using assms by (simp add: store_ok_def)
  obtain r reg where read: "state_of ?h ?n ?log (ud_key u) (snd st) = (r, reg)" by fastforce
  obtain rg where rg: "map_of (snd st) (ud_key u) = Some rg" "rg_refs rg \<noteq> 0" "rg_def rg = u"
    by (rule live_unit[OF assms])
  have "case r of Inr x \<Rightarrow> \<exists>s. x = Some s \<and> unit_fold ?h ?n (rg_def rg) ?log = Inr s | Inl e \<Rightarrow> False"
    using state_of_spec[OF _ _ read] served_ok[OF served] rg(1,2) store_ok_not_failing[OF assms] by (auto split: sum.splits)
  then have "r = Inr (Some (store_view u st))"
    using store_ok_view[OF assms] by (auto simp: rg(3) store_fold_def split: sum.splits)
  then have "unit_current (ud_key u) st = Inr (store_view u st, (fst st, reg))" using read by (simp add: unit_current_def)
  moreover have "live_units reg = live_units (snd st)"
    using live_units_evolves[OF state_of_evolves[OF _ _ read]] served_ok[OF served] by blast
  then have "store_ok projections u (fst st, reg)"
    using assms served.read_state[OF served read] by (simp add: store_ok_def store_fold_def)
  moreover have "store_view u (fst st, reg) = store_view u st" by (simp add: store_view_def store_fold_def split: sum.split)
  ultimately show ?thesis by (intro exI[of _ "(fst st, reg)"]) simp
qed

lemma append_event_keeps:
  assumes "append_event projections False now d op sources s = Inr (e, s')"
  shows "ss_header s' = ss_header s" and "ss_inherited_event_count s' = ss_inherited_event_count s"
  using assms by (auto simp: append_event_def commit_def Let_def split: sum.splits)

lemma unit_put_ok:
  assumes "store_ok projections u st" and "log_only_data projections d"
    and "ud_apply u (store_view u st) (log_only (length (ss_log (fst st))) (clock (length (ss_log (fst st)))) d) = Inr v"
  shows "\<exists>st'. unit_put projections clock d st = Inr st' \<and> store_ok projections u st' \<and> store_view u st' = v
       \<and> ss_log (fst st') = ss_log (fst st) @ [log_only (length (ss_log (fst st))) (clock (length (ss_log (fst st)))) d]"
proof -
  let ?h = "ss_header (fst st)" and ?n = "ss_inherited_event_count (fst st)" and ?log = "ss_log (fst st)"
  let ?e = "log_only (length ?log) (clock (length ?log)) d"
  have parts: "message_projections projections" "session_ok projections (fst st)" "served ?h ?n ?log (snd st)"
    using assms(1) by (simp_all add: store_ok_def)
  obtain s where s: "append_event projections False (clock (length ?log)) d None None (fst st) = Inr (?e, s)"
      "session_ok projections s" "ss_log s = ?log @ [?e]"
    using message_projections.append_log_only[OF parts(1,2) assms(2)] by blast
  note keep = append_event_keeps[OF s(1)]
  let ?reg = "fst (drive ?h ?n (ss_log s) ?e (\<lambda>_ _ _. None) (snd st))"
  have put: "unit_put projections clock d st = Inr (s, ?reg)"
    using s(1) keep by (simp add: unit_put_def)
  have "contiguous (?log @ [?e])" using served_ok[OF parts(3)] by (simp add: log_only_def)
  then have grown: "served ?h ?n (ss_log s) (snd st)" unfolding s(3) by (rule served.committed[OF parts(3)])
  have "?e \<in> set (ss_log s)" by (simp add: s(3))
  then have after: "served ?h ?n (ss_log s) ?reg" by (rule served.driven[OF grown _ prod.collapse[symmetric]])
  have "live_units ?reg = live_units (snd st)"
    by (rule live_units_evolves[OF drive_evolves[OF _ _ \<open>?e \<in> set (ss_log s)\<close>]])
      (use served_ok[OF grown] registry_ok_registrations in blast)+
  moreover have "store_fold u (s, ?reg) = Inr v"
    using store_ok_view[OF assms(1)] assms(3) keep by (simp add: store_fold_def unit_fold_def s(3) foldE_snoc)
  ultimately have "store_ok projections u (s, ?reg)" "store_view u (s, ?reg) = v"
    using assms(1) s(2) after keep by (simp_all add: store_ok_def store_view_def)
  then show ?thesis using put s(3) by auto
qed

interpretation unit_store: fold_store "unit_current (ud_key u)" "unit_put projections clock" "store_view u"
    "store_ok projections u" "ud_apply u" "log_only_data projections"
proof
  fix st assume "store_ok projections u st"
  then show "\<exists>st'. unit_current (ud_key u) st = Inr (store_view u st, st') \<and> store_ok projections u st'
      \<and> store_view u st' = store_view u st"
    using unit_current_ok by blast
next
  fix st d v
  assume "store_ok projections u st" "log_only_data projections d" "\<And>n t. ud_apply u (store_view u st) (log_only n t d) = Inr v"
  then show "\<exists>st'. unit_put projections clock d st = Inr st' \<and> store_ok projections u st' \<and> store_view u st' = v"
    using unit_put_ok by meson
qed

section \<open>A fresh Session with one unit\<close>

lemma fresh_store:
  assumes "register_unit u [] = Inr [(ud_key u, \<lparr>rg_def = u, rg_cell = None, rg_refs = 1\<rparr>)]"
  shows "\<exists>st. store_ok ex_projections u st \<and> ss_log (fst st) = []"
proof -
  let ?reg = "[(ud_key u, \<lparr>rg_def = u, rg_cell = None, rg_refs = 1\<rparr>)]"
  have "\<exists>s. new_session ex_projections ''a'' None None Snapshot None 5 = Inr s \<and> ss_log s = []"
    by (simp add: new_session_def snapshot_session_header_def validate_session_header_def
        safe_int_def max_safe_def check_lineage_def marked_seed_def mark_lifecycle_def constructed_def
        empty_session_def Let_def)
  then obtain s where s: "new_session ex_projections ''a'' None None Snapshot None 5 = Inr s" "ss_log s = []" by blast
  have projections: "message_projections ex_projections" by (rule image_projection.message_projections_axioms)
  have "served (ss_header s) (ss_inherited_event_count s) (ss_log s) ?reg"
    unfolding s(2) using served.registered[OF served.start assms] .
  moreover have "session_ok ex_projections s"
    by (rule message_projections.reach_ok[OF projections reach.created[OF s(1)]])
  ultimately have "store_ok ex_projections u (s, ?reg)"
    using s(2) projections by (simp add: store_ok_def store_fold_def unit_fold_def live_units_def)
  then show ?thesis using s(2) by (intro exI[of _ "(s, ?reg)"]) simp
qed

end
