(* ===== verification/Inbox.thy ===== *)
theory Inbox imports UnitStore begin

text \<open>
  The agent inbox (\<open>packages/core/agent-loop/src/inbox.ts\<close>): the projection that rebuilds the two
  pending-message lists from durable splices, and the command facade that normalises each mutation,
  commits it as one event and reads its state back through the projection registry. The facade's
  operations take the two services it calls as arguments; their contract is the locale
  \<open>inbox_store\<close>, which extends \<open>fold_store\<close> and is interpreted on a Session with its registry. Live
  notifications are values, in emission order.
\<close>

section \<open>The durable fold\<close>

record inbox_state =
  ib_next_turn :: "message list"
  ib_next_step :: "message list"

datatype inbox_error = InvalidPersistedSplice nat

definition empty_inbox :: inbox_state where
  "empty_inbox = \<lparr>ib_next_turn = [], ib_next_step = []\<rparr>"

fun pending_list :: "inbox_target \<Rightarrow> inbox_state \<Rightarrow> message list" where
  "pending_list NextTurn st = ib_next_turn st"
| "pending_list NextStep st = ib_next_step st"

fun set_pending :: "inbox_target \<Rightarrow> message list \<Rightarrow> inbox_state \<Rightarrow> inbox_state" where
  "set_pending NextTurn ms st = st\<lparr>ib_next_turn := ms\<rparr>"
| "set_pending NextStep ms st = st\<lparr>ib_next_step := ms\<rparr>"

definition all_pending :: "inbox_state \<Rightarrow> message list" where
  "all_pending st = ib_next_turn st @ ib_next_step st"

fun unique_ids :: "string list \<Rightarrow> message list \<Rightarrow> bool" where
  \<comment> \<open>the scan with the set of ids seen so far\<close>
  "unique_ids ids [] = True"
| "unique_ids ids (m # ms) = (if msg_id m \<in> set ids then False else unique_ids (msg_id m # ids) ms)"

definition inbox_apply :: "inbox_state \<Rightarrow> session_event \<Rightarrow> inbox_error + inbox_state" where
  "inbox_apply st e =
     (case ev_data e of
        InboxSpliced sp \<Rightarrow>
          let inbox = pending_list (sp_target sp) st;
              removed = (case sp_removed_count sp of None \<Rightarrow> 0 | Some n \<Rightarrow> n)
          in if \<not> safe_int (sp_start sp) \<or> sp_start sp < 0 \<or> int (length inbox) < sp_start sp
                \<or> \<not> safe_int removed \<or> removed < 0 \<or> int (length inbox) < sp_start sp + removed
             then Inl (InvalidPersistedSplice (ev_seq e))
             else let st' = set_pending (sp_target sp)
                        (to_spliced (nat (sp_start sp)) (nat removed) (sp_inserted sp) inbox) st
                  in if unique_ids [] (all_pending st') then Inr st'
                     else Inl (InvalidPersistedSplice (ev_seq e))
      | _ \<Rightarrow> Inr st)"

definition inbox_unit :: "(inbox_state, inbox_state, inbox_error) unit_def" where
  \<comment> \<open>\<open>inboxProjectionDefinition\<close>; its schema accepts every pair of lists\<close>
  "inbox_unit = \<lparr>ud_key = ''inbox'', ud_init = (\<lambda>_ _. empty_inbox), ud_apply = inbox_apply,
     ud_parse = Inr, ud_view = Some Inr, ud_summary = True, ud_version = 1\<rparr>"

section \<open>The command facade\<close>

datatype number = NaN | NegInf | PosInf | Whole int   \<comment> \<open>a number after \<open>Math.trunc\<close>\<close>

fun splice_start :: "number \<Rightarrow> nat \<Rightarrow> nat" where
  "splice_start NaN len = 0"
| "splice_start NegInf len = 0"
| "splice_start PosInf len = len"
| "splice_start (Whole n) len = (if n < 0 then nat (max (int len + n) 0) else nat (min n (int len)))"

fun splice_count :: "number \<Rightarrow> nat \<Rightarrow> nat" where
  \<comment> \<open>the delete count, bounded by the entries after the start\<close>
  "splice_count NaN room = 0"
| "splice_count NegInf room = 0"
| "splice_count PosInf room = room"
| "splice_count (Whole n) room = nat (min (max n 0) (int room))"

datatype 'e inbox_failure = StoreFailed 'e | AlreadyPending

datatype inbox_note = Inserted message | Discarded message | Claimed message nat

type_synonym ('st, 'e) inbox_result = "'e inbox_failure + message list \<times> inbox_note list \<times> 'st"

type_synonym ('st, 'e) inbox_reader = "'st \<Rightarrow> 'e + inbox_state \<times> 'st"
type_synonym ('st, 'e) inbox_writer = "event_data \<Rightarrow> 'st \<Rightarrow> 'e + 'st"

definition store :: "'e + 'a \<Rightarrow> 'e inbox_failure + 'a" where
  "store r = (case r of Inl e \<Rightarrow> Inl (StoreFailed e) | Inr x \<Rightarrow> Inr x)"

definition mutate :: "('st, 'e) inbox_reader \<Rightarrow> ('st, 'e) inbox_writer \<Rightarrow> inbox_target \<Rightarrow> number \<Rightarrow> number
    \<Rightarrow> message list \<Rightarrow> bool \<Rightarrow> 'st \<Rightarrow> ('st, 'e) inbox_result" where
  "mutate current put target start deleteCount inserted discardRemoved st =
     bindE (store (current st)) (\<lambda>(state, st).
       let inbox = pending_list target state;
           s = splice_start start (length inbox);
           n = splice_count deleteCount (length inbox - s)
       in if n = 0 \<and> inserted = [] then Inr ([], [], st)
          else if \<not> unique_ids [] (all_pending (set_pending target (to_spliced s n inserted inbox) state))
          then Inl AlreadyPending
          else let splice = \<lparr>sp_target = target, sp_start = int s,
                     sp_removed_count = (if n = 0 then None else Some (int n)),
                     sp_inserted = inserted, sp_canceled = (discardRemoved \<and> 0 < n)\<rparr>;
                   removed = take n (drop s inbox)
               in bindE (store (put (InboxSpliced splice) st)) (\<lambda>st.
                    Inr (removed, (if discardRemoved then map Discarded removed else []) @ map Inserted inserted, st)))"

definition inbox_splice_op :: "('st, 'e) inbox_reader \<Rightarrow> ('st, 'e) inbox_writer \<Rightarrow> inbox_target \<Rightarrow> number
    \<Rightarrow> number \<Rightarrow> message list \<Rightarrow> 'st \<Rightarrow> ('st, 'e) inbox_result" where
  "inbox_splice_op current put target start deleteCount inserted =
     mutate current put target start deleteCount inserted True"

definition inbox_clear :: "('st, 'e) inbox_reader \<Rightarrow> ('st, 'e) inbox_writer \<Rightarrow> 'st \<Rightarrow> ('st, 'e) inbox_result" where
  "inbox_clear current put st =
     bindE (store (current st)) (\<lambda>(state, st).
     bindE (inbox_splice_op current put NextStep (Whole 0) (Whole (int (length (ib_next_step state)))) [] st)
       (\<lambda>(r1, n1, st).
     bindE (store (current st)) (\<lambda>(state, st).
     bindE (inbox_splice_op current put NextTurn (Whole 0) (Whole (int (length (ib_next_turn state)))) [] st)
       (\<lambda>(r2, n2, st). Inr (r1 @ r2, n1 @ n2, st)))))"

definition inbox_claim :: "('st, 'e) inbox_reader \<Rightarrow> ('st, 'e) inbox_writer \<Rightarrow> inbox_target \<Rightarrow> nat \<Rightarrow> 'st
    \<Rightarrow> ('st, 'e) inbox_result" where
  "inbox_claim current put target turn st =
     bindE (store (current st)) (\<lambda>(state, st).
     bindE (mutate current put NextStep (Whole 0) (Whole (int (length (ib_next_step state)))) [] False st)
       (\<lambda>(r1, n1, st).
     bindE (if target = NextTurn then mutate current put NextTurn (Whole 0) (Whole 1) [] False st
            else Inr ([], [], st)) (\<lambda>(r2, n2, st).
       let claimed = r1 @ r2 in Inr (claimed, n1 @ n2 @ map (\<lambda>m. Claimed m turn) claimed, st))))"

definition inbox_append :: "('st, 'e) inbox_reader \<Rightarrow> ('st, 'e) inbox_writer \<Rightarrow> inbox_target \<Rightarrow> message
    \<Rightarrow> 'st \<Rightarrow> ('st, 'e) inbox_result" where
  "inbox_append current put target m st =
     bindE (store (current st)) (\<lambda>(state, st).
       inbox_splice_op current put target (Whole (int (length (pending_list target state)))) (Whole 0) [m] st)"

definition inbox_prepend :: "('st, 'e) inbox_reader \<Rightarrow> ('st, 'e) inbox_writer \<Rightarrow> inbox_target \<Rightarrow> message
    \<Rightarrow> 'st \<Rightarrow> ('st, 'e) inbox_result" where
  "inbox_prepend current put target m = inbox_splice_op current put target (Whole 0) (Whole 0) [m]"

fun find_index :: "('a \<Rightarrow> bool) \<Rightarrow> 'a list \<Rightarrow> nat option" where
  "find_index P [] = None"
| "find_index P (x # xs) = (if P x then Some 0 else map_option Suc (find_index P xs))"

definition locate :: "string \<Rightarrow> inbox_state \<Rightarrow> (inbox_target \<times> nat) option" where
  "locate mid state =
     (case find_index (\<lambda>m. msg_id m = mid) (ib_next_turn state) of
        Some i \<Rightarrow> Some (NextTurn, i)
      | None \<Rightarrow> map_option (Pair NextStep) (find_index (\<lambda>m. msg_id m = mid) (ib_next_step state)))"

definition inbox_replace :: "('st, 'e) inbox_reader \<Rightarrow> ('st, 'e) inbox_writer \<Rightarrow> string \<Rightarrow> message
    \<Rightarrow> 'st \<Rightarrow> 'e inbox_failure + bool \<times> inbox_note list \<times> 'st" where
  "inbox_replace current put mid m st =
     bindE (store (current st)) (\<lambda>(state, st).
       case locate mid state of
         None \<Rightarrow> Inr (False, [], st)
       | Some (target, i) \<Rightarrow>
           bindE (inbox_splice_op current put target (Whole (int i)) (Whole 1) [m] st)
             (\<lambda>(_, notes, st). Inr (True, notes, st)))"

definition inbox_remove :: "('st, 'e) inbox_reader \<Rightarrow> ('st, 'e) inbox_writer \<Rightarrow> string
    \<Rightarrow> 'st \<Rightarrow> 'e inbox_failure + bool \<times> inbox_note list \<times> 'st" where
  "inbox_remove current put mid st =
     bindE (store (current st)) (\<lambda>(state, st).
       case locate mid state of
         None \<Rightarrow> Inr (False, [], st)
       | Some (target, i) \<Rightarrow>
           bindE (inbox_splice_op current put target (Whole (int i)) (Whole 1) [] st)
             (\<lambda>(_, notes, st). Inr (True, notes, st)))"

definition has_pending :: "inbox_state \<Rightarrow> bool" where
  "has_pending state \<longleftrightarrow> length (ib_next_turn state) > 0 \<or> length (ib_next_step state) > 0"

section \<open>The store behind the facade\<close>

text \<open>
  What the facade relies on: a read answers the state the log folds to, and a splice the fold accepts
  is committed. \<open>view\<close> is the folded state, \<open>ok\<close> the condition under which the store
  answers at all.
\<close>

abbreviation pending_ids :: "inbox_state \<Rightarrow> string list" where
  "pending_ids st \<equiv> map msg_id (all_pending st)"

abbreviation splice_event :: "event_data \<Rightarrow> bool" where
  "splice_event d \<equiv> (\<exists>sp. d = InboxSpliced sp)"

locale inbox_store = fold_store current put view ok inbox_apply splice_event
  for current :: "('st, 'e) inbox_reader"
    and put :: "('st, 'e) inbox_writer"
    and view :: "'st \<Rightarrow> inbox_state"
    and ok :: "'st \<Rightarrow> bool" +
  assumes ids_distinct: "ok st \<Longrightarrow> distinct (pending_ids (view st))"

lemma unique_ids_iff: "unique_ids ids ms \<longleftrightarrow> distinct (map msg_id ms) \<and> set ids \<inter> msg_id ` set ms = {}"
  by (induction ids ms rule: unique_ids.induct) auto

lemma pending_list_set [simp]:
  "pending_list t (set_pending t ms st) = ms"
  "t \<noteq> u \<Longrightarrow> pending_list u (set_pending t ms st) = pending_list u st"
  by (cases t; cases u; simp)+

lemma set_pending_same [simp]: "set_pending t (pending_list t st) st = st"
  by (cases t) simp_all

lemma mset_all_pending:
  "mset (all_pending (set_pending t ms st)) + mset (pending_list t st) = mset (all_pending st) + mset ms"
  by (cases t) (simp_all add: all_pending_def)

lemma splice_start_le: "splice_start x len \<le> len"
  by (cases x) auto

lemma splice_count_le: "splice_count x room \<le> room"
  by (cases x) auto

lemma splice_count_whole [simp]: "splice_count (Whole (int n)) room = min n room"
  by simp

lemma splice_start_whole [simp]: "splice_start (Whole (int n)) len = min n len"
  by simp

definition spliced_state :: "inbox_target \<Rightarrow> number \<Rightarrow> number \<Rightarrow> message list \<Rightarrow> inbox_state \<Rightarrow> inbox_state" where
  \<comment> \<open>standard splice semantics on one of the two lists\<close>
  "spliced_state t start cnt ins st =
     (let xs = pending_list t st; s = splice_start start (length xs)
      in set_pending t (to_spliced s (splice_count cnt (length xs - s)) ins xs) st)"

definition spliced_out :: "inbox_target \<Rightarrow> number \<Rightarrow> number \<Rightarrow> inbox_state \<Rightarrow> message list" where
  "spliced_out t start cnt st =
     (let xs = pending_list t st; s = splice_start start (length xs)
      in take (splice_count cnt (length xs - s)) (drop s xs))"

lemma multiset_exchange:
  fixes A B C D E I :: "'a multiset"
  assumes "A + B = C + D" and "D + E = B + I"
  shows "A + E = C + I"
proof -
  have "A + E + B = C + D + E" using assms(1) by (simp add: ac_simps)
  also have "\<dots> = C + (B + I)" using assms(2) by (simp add: ac_simps)
  finally show ?thesis by (simp add: ac_simps)
qed

lemma spliced_conserves:
  "mset (all_pending (spliced_state t start cnt ins st)) + mset (spliced_out t start cnt st)
     = mset (all_pending st) + mset ins"
proof -
  let ?xs = "pending_list t st"
  let ?s = "splice_start start (length ?xs)"
  let ?n = "splice_count cnt (length ?xs - ?s)"
  have "?s + ?n \<le> length ?xs"
    using splice_start_le[of start "length ?xs"] splice_count_le[of cnt "length ?xs - ?s"] by linarith
  from multiset_exchange[OF mset_all_pending mset_to_spliced[OF this]]
  show ?thesis unfolding spliced_state_def spliced_out_def Let_def .
qed

lemma spliced_ids_distinct:
  assumes "distinct (pending_ids st)"
  shows "distinct (pending_ids (spliced_state t start cnt [] st))"
proof -
  have "mset (all_pending (spliced_state t start cnt [] st) @ spliced_out t start cnt st) = mset (all_pending st)"
    using spliced_conserves[of t start cnt "[]" st] by simp
  then have "mset (map msg_id (all_pending (spliced_state t start cnt [] st) @ spliced_out t start cnt st))
      = mset (pending_ids st)" by (simp only: mset_map)
  from mset_eq_imp_distinct_iff[OF this] show ?thesis using assms by simp
qed

lemma inbox_apply_splice:
  assumes "s \<le> length (pending_list t st)" and "c \<le> length (pending_list t st) - s"
    and "int (length (pending_list t st)) \<le> max_safe"
    and "distinct (pending_ids (set_pending t (to_spliced s c ins (pending_list t st)) st))"
  shows "inbox_apply st (log_only n u (InboxSpliced \<lparr>sp_target = t, sp_start = int s,
      sp_removed_count = (if c = 0 then None else Some (int c)), sp_inserted = ins, sp_canceled = x\<rparr>))
    = Inr (set_pending t (to_spliced s c ins (pending_list t st)) st)"
proof -
  have "(case if c = 0 then None else Some (int c) of None \<Rightarrow> 0 | Some n \<Rightarrow> n) = int c" by simp
  moreover have "int s + int c \<le> int (length (pending_list t st))" using assms(1,2) by linarith
  ultimately show ?thesis using assms
    by (simp add: inbox_apply_def log_only_def Let_def safe_int_def max_safe_def unique_ids_iff)
qed

definition without_id :: "string \<Rightarrow> inbox_state \<Rightarrow> inbox_state" where
  "without_id mid st = \<lparr>ib_next_turn = filter (\<lambda>m. msg_id m \<noteq> mid) (ib_next_turn st),
     ib_next_step = filter (\<lambda>m. msg_id m \<noteq> mid) (ib_next_step st)\<rparr>"

lemma find_index_None: "find_index P xs = None \<longleftrightarrow> (\<forall>x \<in> set xs. \<not> P x)"
  by (induction xs) auto

lemma find_index_Some: "find_index P xs = Some i \<Longrightarrow> i < length xs \<and> P (xs ! i)"
  by (induction xs arbitrary: i) (auto split: if_splits)

lemma filter_other_ids:
  assumes "distinct (map f xs)" and "i < length xs"
  shows "filter (\<lambda>x. f x \<noteq> f (xs ! i)) xs = take i xs @ drop (Suc i) xs"
    and "filter (\<lambda>x. f x = f (xs ! i)) xs = [xs ! i]"
proof -
  have split: "xs = take i xs @ xs ! i # drop (Suc i) xs" using assms(2) by (rule id_take_nth_drop)
  have "distinct (map f (take i xs @ xs ! i # drop (Suc i) xs))" by (rule subst[OF split, of "\<lambda>ys. distinct (map f ys)", OF assms(1)])
  moreover have "\<forall>x \<in> set us \<union> set ws. f x \<noteq> f v" if "distinct (map f (us @ v # ws))" for us v ws
    using that by (auto simp: image_iff)
  ultimately have other: "\<forall>x \<in> set (take i xs) \<union> set (drop (Suc i) xs). f x \<noteq> f (xs ! i)" by blast
  have eq: "filter P xs = filter P (take i xs @ xs ! i # drop (Suc i) xs)" for P
    by (rule arg_cong[OF split, of "filter P"])
  have parts: "filter (\<lambda>x. f x \<noteq> c) (us @ v # ws) = us @ ws" "filter (\<lambda>x. f x = c) (us @ v # ws) = [v]"
    if "\<forall>x \<in> set us \<union> set ws. f x \<noteq> c" "f v = c" for us v ws c
    using that by (auto simp: filter_id_conv filter_empty_conv)
  show "filter (\<lambda>x. f x \<noteq> f (xs ! i)) xs = take i xs @ drop (Suc i) xs"
    by (rule trans[OF eq parts(1)]) (use other in simp_all)
  show "filter (\<lambda>x. f x = f (xs ! i)) xs = [xs ! i]"
    by (rule trans[OF eq parts(2)]) (use other in simp_all)
qed

lemma locate_None:
  assumes "locate mid st = None"
  shows "mid \<notin> set (pending_ids st)" and "without_id mid st = st"
    and "filter (\<lambda>m. msg_id m = mid) (all_pending st) = []"
proof -
  have "\<forall>m \<in> set (ib_next_turn st). msg_id m \<noteq> mid" "\<forall>m \<in> set (ib_next_step st). msg_id m \<noteq> mid"
    using assms by (auto simp: locate_def find_index_None split: option.splits)
  then show "mid \<notin> set (pending_ids st)" "without_id mid st = st"
    "filter (\<lambda>m. msg_id m = mid) (all_pending st) = []"
    by (auto simp: all_pending_def without_id_def filter_empty_conv)
qed

lemma locate_Some:
  assumes "locate mid st = Some (t, i)" and "distinct (pending_ids st)"
  shows "i < length (pending_list t st)" and "mid \<in> set (pending_ids st)"
    and "set_pending t (take i (pending_list t st) @ drop (Suc i) (pending_list t st)) st = without_id mid st"
    and "filter (\<lambda>m. msg_id m = mid) (all_pending st) = [pending_list t st ! i]"
proof -
  have at: "i < length (pending_list t st) \<and> msg_id (pending_list t st ! i) = mid"
    using assms(1) by (cases t) (auto simp: locate_def dest: find_index_Some split: option.splits)
  have "distinct (map msg_id (pending_list t st))" using assms(2) by (cases t) (auto simp: all_pending_def)
  note own = filter_other_ids[OF this conjunct1[OF at], unfolded conjunct2[OF at]]
  let ?u = "case t of NextTurn \<Rightarrow> NextStep | NextStep \<Rightarrow> NextTurn"
  have mem: "mid \<in> msg_id ` set (pending_list t st)" using at by (metis image_eqI nth_mem)
  moreover have "msg_id ` set (pending_list t st) \<inter> msg_id ` set (pending_list ?u st) = {}"
    using assms(2) by (cases t) (auto simp: all_pending_def)
  ultimately have "\<forall>m \<in> set (pending_list ?u st). msg_id m \<noteq> mid" by blast
  then have other: "filter (\<lambda>m. msg_id m \<noteq> mid) (pending_list ?u st) = pending_list ?u st"
    "filter (\<lambda>m. msg_id m = mid) (pending_list ?u st) = []" by (simp_all add: filter_empty_conv)
  show "i < length (pending_list t st)" using at by simp
  show "mid \<in> set (pending_ids st)" using mem by (cases t) (auto simp: all_pending_def)
  show "set_pending t (take i (pending_list t st) @ drop (Suc i) (pending_list t st)) st = without_id mid st"
    using own(1) other(1) by (cases t) (simp_all add: without_id_def)
  show "filter (\<lambda>m. msg_id m = mid) (all_pending st) = [pending_list t st ! i]"
    using own(2) other(2) by (cases t) (simp_all add: all_pending_def)
qed

context inbox_store begin

lemma mutate_spec:
  assumes "ok st" and "int (length (pending_list t (view st))) \<le> max_safe"
  shows "if distinct (pending_ids (spliced_state t start cnt ins (view st)))
    then \<exists>st'. mutate current put t start cnt ins d st = Inr (spliced_out t start cnt (view st),
             (if d then map Discarded (spliced_out t start cnt (view st)) else []) @ map Inserted ins, st')
           \<and> ok st' \<and> view st' = spliced_state t start cnt ins (view st)
    else mutate current put t start cnt ins d st = Inl AlreadyPending"
proof -
  define xs where "xs = pending_list t (view st)"
  define s where "s = splice_start start (length xs)"
  define n where "n = splice_count cnt (length xs - s)"
  define sp where "sp = \<lparr>sp_target = t, sp_start = int s, sp_removed_count = (if n = 0 then None else Some (int n)),
                   sp_inserted = ins, sp_canceled = (d \<and> 0 < n)\<rparr>"
  obtain st1 where st1: "current st = Inr (view st, st1)" "ok st1" "view st1 = view st"
    using reads[OF assms(1)] by blast
  have le: "s \<le> length xs" "n \<le> length xs - s" unfolding s_def n_def by (rule splice_start_le splice_count_le)+
  define v where "v = set_pending t (to_spliced s n ins xs) (view st)"
  have state: "spliced_state t start cnt ins (view st) = v" "spliced_out t start cnt (view st) = take n (drop s xs)"
    by (simp_all add: spliced_state_def spliced_out_def Let_def v_def n_def s_def xs_def)
  have mut: "mutate current put t start cnt ins d st =
      (if n = 0 \<and> ins = [] then Inr ([], [], st1)
       else if \<not> distinct (pending_ids v) then Inl AlreadyPending
       else bindE (store (put (InboxSpliced sp) st1)) (\<lambda>st2.
          Inr (take n (drop s xs), (if d then map Discarded (take n (drop s xs)) else []) @ map Inserted ins, st2)))"
    using st1(1) unfolding mutate_def store_def
    by (simp add: Let_def unique_ids_iff xs_def[symmetric] s_def[symmetric] n_def[symmetric] v_def[symmetric] sp_def)
  show ?thesis
  proof (cases "n = 0 \<and> ins = []")
    case True
    then have "v = view st" by (simp add: v_def xs_def to_spliced_def)
    then show ?thesis using st1 True ids_distinct[OF assms(1)] unfolding state mut by simp
  next
    case False
    show ?thesis
    proof (cases "distinct (pending_ids v)")
      case dist: True
      have "inbox_apply (view st1) (log_only k u (InboxSpliced sp)) = Inr v" for k u
        unfolding st1(3) sp_def v_def xs_def
        by (rule inbox_apply_splice) (use dist le assms(2) in \<open>simp_all add: v_def xs_def\<close>)
      then obtain st2 where "put (InboxSpliced sp) st1 = Inr st2" "ok st2" "view st2 = v"
        using writes[OF st1(2), of "InboxSpliced sp" v] by blast
      then show ?thesis using dist False unfolding state mut by (auto simp: store_def)
    next
      case False
      then show ?thesis using \<open>\<not> (n = 0 \<and> ins = [])\<close> unfolding state mut by auto
    qed
  qed
qed

lemma splice_spec:
  assumes "ok st" and "int (length (pending_list t (view st))) \<le> max_safe"
  shows "if distinct (pending_ids (spliced_state t start cnt ins (view st)))
    then \<exists>st'. inbox_splice_op current put t start cnt ins st = Inr (spliced_out t start cnt (view st),
             map Discarded (spliced_out t start cnt (view st)) @ map Inserted ins, st')
           \<and> ok st' \<and> view st' = spliced_state t start cnt ins (view st)
    else inbox_splice_op current put t start cnt ins st = Inl AlreadyPending"
  using mutate_spec[OF assms, of start cnt ins True] by (auto simp: inbox_splice_op_def split: if_splits)

lemma removal_spec:
  assumes "ok st" and "int (length (pending_list t (view st))) \<le> max_safe"
  shows "\<exists>st'. mutate current put t (Whole 0) (Whole (int k)) [] d st = Inr (take k (pending_list t (view st)),
             (if d then map Discarded (take k (pending_list t (view st))) else []), st')
           \<and> ok st' \<and> view st' = set_pending t (drop k (pending_list t (view st))) (view st)"
proof -
  let ?xs = "pending_list t (view st)"
  have out: "spliced_out t (Whole 0) (Whole (int k)) (view st) = take k ?xs"
    by (simp add: spliced_out_def Let_def del: splice_count.simps) (metis min.commute take_take take_all_iff order_refl)
  have state: "spliced_state t (Whole 0) (Whole (int k)) [] (view st) = set_pending t (drop k ?xs) (view st)"
    by (simp add: spliced_state_def to_spliced_def Let_def min_def del: splice_count.simps)
  show ?thesis
    using mutate_spec[OF assms, of "Whole 0" "Whole (int k)" "[]" d] spliced_ids_distinct[OF ids_distinct[OF assms(1)]]
    unfolding out state[symmetric] by (auto simp del: splice_start.simps splice_count.simps)
qed

lemma claim_spec:
  assumes "ok st" and "int (length (all_pending (view st))) \<le> max_safe"
  shows "\<exists>claimed st'. inbox_claim current put target turn st = Inr (claimed, map (\<lambda>m. Claimed m turn) claimed, st') \<and> ok st'
       \<and> claimed = ib_next_step (view st) @ (if target = NextTurn then take 1 (ib_next_turn (view st)) else [])
       \<and> view st' = \<lparr>ib_next_turn = (if target = NextTurn then drop 1 else id) (ib_next_turn (view st)), ib_next_step = []\<rparr>"
proof -
  have bound: "int (length (pending_list t (view st))) \<le> max_safe" for t
    using assms(2) by (cases t) (simp_all add: all_pending_def)
  obtain st1 where st1: "current st = Inr (view st, st1)" "ok st1" "view st1 = view st"
    using reads[OF assms(1)] by blast
  obtain st2 where st2: "mutate current put NextStep (Whole 0) (Whole (int (length (ib_next_step (view st))))) [] False st1
      = Inr (ib_next_step (view st), [], st2)" "ok st2" "view st2 = (view st)\<lparr>ib_next_step := []\<rparr>"
    using removal_spec[OF st1(2), of NextStep "length (ib_next_step (view st))" False] bound[of NextStep] st1(3) by auto
  show ?thesis
  proof (cases target)
    case NextTurn
    have "int (length (pending_list NextTurn (view st2))) \<le> max_safe" using bound[of NextTurn] st2(3) by simp
    from removal_spec[OF st2(2) this, of 1 False]
    obtain st3 where "mutate current put NextTurn (Whole 0) (Whole 1) [] False st2
        = Inr (take 1 (ib_next_turn (view st)), [], st3)" "ok st3"
      "view st3 = (view st2)\<lparr>ib_next_turn := drop 1 (ib_next_turn (view st))\<rparr>"
      using st2(3) by auto
    then show ?thesis using NextTurn st1(1) st2 by (simp add: inbox_claim_def store_def Let_def)
  next
    case NextStep
    then show ?thesis using st1(1) st2 by (simp add: inbox_claim_def store_def Let_def)
  qed
qed

lemma clear_spec:
  assumes "ok st" and "int (length (all_pending (view st))) \<le> max_safe"
  shows "\<exists>st'. inbox_clear current put st = Inr (ib_next_step (view st) @ ib_next_turn (view st),
             map Discarded (ib_next_step (view st) @ ib_next_turn (view st)), st') \<and> ok st' \<and> view st' = empty_inbox"
proof -
  have bound: "int (length (pending_list t (view st))) \<le> max_safe" for t
    using assms(2) by (cases t) (simp_all add: all_pending_def)
  obtain st1 where st1: "current st = Inr (view st, st1)" "ok st1" "view st1 = view st"
    using reads[OF assms(1)] by blast
  obtain st2 where st2: "mutate current put NextStep (Whole 0) (Whole (int (length (ib_next_step (view st))))) [] True st1
      = Inr (ib_next_step (view st), map Discarded (ib_next_step (view st)), st2)" "ok st2"
      "view st2 = (view st)\<lparr>ib_next_step := []\<rparr>"
    using removal_spec[OF st1(2), of NextStep "length (ib_next_step (view st))" True] bound[of NextStep] st1(3) by auto
  obtain st3 where st3: "current st2 = Inr (view st2, st3)" "ok st3" "view st3 = view st2"
    using reads[OF st2(2)] by blast
  have "int (length (pending_list NextTurn (view st3))) \<le> max_safe" using bound[of NextTurn] st2(3) st3(3) by simp
  from removal_spec[OF st3(2) this, of "length (ib_next_turn (view st))" True]
  obtain st4 where "mutate current put NextTurn (Whole 0) (Whole (int (length (ib_next_turn (view st))))) [] True st3
      = Inr (ib_next_turn (view st), map Discarded (ib_next_turn (view st)), st4)" "ok st4" "view st4 = empty_inbox"
    using st2(3) st3(3) by (auto simp: empty_inbox_def)
  then show ?thesis using st1(1) st2 st3 by (simp add: inbox_clear_def inbox_splice_op_def store_def)
qed

lemma remove_spec:
  assumes "ok st" and "int (length (all_pending (view st))) \<le> max_safe"
  shows "\<exists>notes st'. inbox_remove current put mid st = Inr (mid \<in> set (pending_ids (view st)), notes, st') \<and> ok st'
       \<and> view st' = without_id mid (view st)
       \<and> notes = map Discarded (filter (\<lambda>m. msg_id m = mid) (all_pending (view st)))"
proof -
  obtain st1 where st1: "current st = Inr (view st, st1)" "ok st1" "view st1 = view st"
    using reads[OF assms(1)] by blast
  note dist = ids_distinct[OF assms(1)]
  show ?thesis
  proof (cases "locate mid (view st)")
    case None
    from locate_None[OF this] show ?thesis using st1 None
      by (auto simp: inbox_remove_def store_def)
  next
    case (Some loc)
    obtain t i where loc: "loc = (t, i)" by fastforce
    note at = locate_Some[OF Some[unfolded loc] dist]
    have bound: "int (length (pending_list t (view st1))) \<le> max_safe"
      using assms(2) st1(3) by (cases t) (simp_all add: all_pending_def)
    let ?xs = "pending_list t (view st)"
    have out: "spliced_out t (Whole (int i)) (Whole 1) (view st) = [?xs ! i]"
      "spliced_state t (Whole (int i)) (Whole 1) [] (view st) = set_pending t (take i ?xs @ drop (Suc i) ?xs) (view st)"
      using at(1) by (simp_all add: spliced_out_def spliced_state_def Let_def to_spliced_def min_def Cons_nth_drop_Suc[symmetric])
    have "distinct (pending_ids (spliced_state t (Whole (int i)) (Whole 1) [] (view st1)))"
      unfolding st1(3) by (rule spliced_ids_distinct[OF dist])
    then obtain st2 where "inbox_splice_op current put t (Whole (int i)) (Whole 1) [] st1 =
        Inr ([?xs ! i], [Discarded (?xs ! i)], st2)" "ok st2" "view st2 = without_id mid (view st)"
      using splice_spec[OF st1(2) bound, of "Whole (int i)" "Whole 1" "[]"] at(3) unfolding st1(3) out
      by (auto simp del: splice_start.simps splice_count.simps)
    then show ?thesis using st1(1) Some loc at by (simp add: inbox_remove_def store_def)
  qed
qed

end

section \<open>A Session with its registry as the store\<close>

type_synonym agent_store = "(inbox_state, inbox_state, inbox_error) unit_store"

definition session_current :: "(agent_store, inbox_error store_error) inbox_reader" where
  "session_current = unit_current ''inbox''"

definition session_put :: "projection list \<Rightarrow> (nat \<Rightarrow> int) \<Rightarrow> (agent_store, inbox_error store_error) inbox_writer" where
  "session_put projections clock = unit_put projections clock"

definition durable_inbox :: "session_event list \<Rightarrow> inbox_error + inbox_state" where
  "durable_inbox es = foldE inbox_apply empty_inbox es"

abbreviation session_view :: "agent_store \<Rightarrow> inbox_state" where
  "session_view \<equiv> store_view inbox_unit"

definition agent_ok :: "projection list \<Rightarrow> agent_store \<Rightarrow> bool" where
  "agent_ok projections st \<longleftrightarrow> store_ok projections inbox_unit st
     \<and> (\<forall>sp. log_only_data projections (InboxSpliced sp)) \<and> distinct (pending_ids (session_view st))"

lemma unit_fold_inbox: "unit_fold h n inbox_unit es = durable_inbox es"
  by (simp add: unit_fold_def inbox_unit_def durable_inbox_def)

lemma inbox_unit_fields:
  "ud_key inbox_unit = ''inbox''" "ud_version inbox_unit = 1" "ud_view inbox_unit = Some Inr"
  "ud_apply inbox_unit = inbox_apply"
  by (simp_all add: inbox_unit_def)

lemma inbox_apply_distinct:
  assumes "inbox_apply st e = Inr v" and "distinct (pending_ids st)"
  shows "distinct (pending_ids v)"
  using assms unfolding inbox_apply_def
  by (cases "ev_data e") (auto simp: Let_def unique_ids_iff split: if_splits)

lemma agent_ok_view:
  assumes "agent_ok projections st"
  shows "durable_inbox (ss_log (fst st)) = Inr (session_view st)"
  using store_ok_view[of projections inbox_unit st] assms by (simp add: agent_ok_def store_fold_def unit_fold_inbox)

interpretation session_inbox: inbox_store session_current "session_put projections clock" session_view "agent_ok projections"
proof unfold_locales
  fix st assume "agent_ok projections st"
  then show "\<exists>st'. session_current st = Inr (session_view st, st') \<and> agent_ok projections st' \<and> session_view st' = session_view st"
    using unit_store.reads[of projections inbox_unit st] by (auto simp: agent_ok_def session_current_def inbox_unit_fields)
next
  fix st d v
  assume ok: "agent_ok projections st" and d: "splice_event d"
    and v: "\<And>n t. inbox_apply (session_view st) (log_only n t d) = Inr v"
  then have "distinct (pending_ids v)" using inbox_apply_distinct[OF v] by (simp add: agent_ok_def)
  then show "\<exists>st'. session_put projections clock d st = Inr st' \<and> agent_ok projections st' \<and> session_view st' = v"
    using unit_store.writes[of projections inbox_unit st d v clock] ok d v
    by (auto simp: agent_ok_def session_put_def inbox_unit_fields)
qed (simp add: agent_ok_def)

section \<open>Properties of the agent inbox\<close>



text \<open>Removing a message by id answers whether it was pending and durably removes exactly that
  message, reporting it as discarded; an id that is not pending leaves the inbox as it was.\<close>
theorem inbox_remove_exact:
  assumes "agent_ok projections st" and "int (length (all_pending (session_view st))) \<le> max_safe"
  shows "\<exists>st'. inbox_remove session_current (session_put projections clock) mid st
         = Inr (mid \<in> set (pending_ids (session_view st)),
                map Discarded (filter (\<lambda>m. msg_id m = mid) (all_pending (session_view st))), st')
       \<and> durable_inbox (ss_log (fst st')) = Inr (without_id mid (session_view st))"
  using session_inbox.remove_spec[OF assms, where clock = clock and mid = mid] agent_ok_view by metis

lemma ex_agent_ok: "\<exists>st. agent_ok ex_projections st \<and> session_view st = empty_inbox"
proof -
  have "register_unit inbox_unit [] = Inr [(ud_key inbox_unit, \<lparr>rg_def = inbox_unit, rg_cell = None, rg_refs = 1\<rparr>)]"
    by (simp add: register_unit_def inbox_unit_def safe_int_def max_safe_def)
  then obtain st where st: "store_ok ex_projections inbox_unit st" "ss_log (fst st) = []" using fresh_store by blast
  have view: "session_view st = empty_inbox"
    by (simp add: store_view_def store_fold_def unit_fold_inbox durable_inbox_def st(2))
  then have "agent_ok ex_projections st"
    using st(1) by (simp add: agent_ok_def empty_inbox_def all_pending_def log_only_data_def image_offload_projection_def)
  then show ?thesis using view by blast
qed

abbreviation ex_pending :: message where
  "ex_pending \<equiv> \<lparr>msg_id = ''u'', msg_role = User, msg_content = [TextBlock ''hi''],
     msg_source = UserSource, msg_tool_call_id = None, msg_is_error = None\<rparr>"

lemma ex_agent_pending:
  "\<exists>st. agent_ok ex_projections st \<and> session_view st = \<lparr>ib_next_turn = [ex_pending], ib_next_step = []\<rparr>"
proof -
  obtain st where st: "agent_ok ex_projections st" "session_view st = empty_inbox" using ex_agent_ok by blast
  then show ?thesis
    using session_inbox.splice_spec[OF st(1), where t = NextTurn and clock = "\<lambda>_. 0" and start = "Whole 0" and cnt = "Whole 0" and ins = "[ex_pending]"]
    by (auto simp: empty_inbox_def spliced_state_def to_spliced_def all_pending_def max_safe_def)
qed



theorem inbox_remove_exact_witness:
  "\<exists>st st'. inbox_remove session_current (session_put ex_projections (\<lambda>_. 0)) ''u'' st = Inr (True, [Discarded ex_pending], st')
     \<and> durable_inbox (ss_log (fst st')) = Inr empty_inbox"
proof -
  obtain st where st: "agent_ok ex_projections st" "session_view st = \<lparr>ib_next_turn = [ex_pending], ib_next_step = []\<rparr>"
    using ex_agent_pending by blast
  show ?thesis
    using inbox_remove_exact[OF st(1), of "\<lambda>_. 0" "''u''"] st(2)
    by (cases st) (auto simp: all_pending_def max_safe_def without_id_def empty_inbox_def)
qed

section \<open>Projection witnesses\<close>

abbreviation ex_header :: session_header where
  "ex_header \<equiv> \<lparr>sh_version = 6, sh_id = ''a'', sh_created_at = 1, sh_cwd = None, sh_parent_session = None,
     sh_is_seeded = False, sh_origin_subagent = False, sh_delegation_depth = None, sh_agent_preset = None\<rparr>"

abbreviation ex_splice :: session_event where
  "ex_splice \<equiv> log_only 0 1 (InboxSpliced \<lparr>sp_target = NextStep, sp_start = 0, sp_removed_count = None,
     sp_inserted = [ex_pending], sp_canceled = False\<rparr>)"

abbreviation ex_registered :: "(inbox_state, inbox_state, inbox_error) registry" where
  "ex_registered \<equiv> [(''inbox'', \<lparr>rg_def = inbox_unit, rg_cell = None, rg_refs = 1\<rparr>)]"

lemma ex_served: "served ex_header 0 [ex_splice] ex_registered"
proof -
  have "register_unit inbox_unit [] = Inr ex_registered"
    by (simp add: register_unit_def inbox_unit_def safe_int_def max_safe_def)
  from served.committed[OF served.registered[OF served.start this], of "[ex_splice]"]
  show ?thesis by (simp add: contiguous_def log_only_def)
qed

lemma ex_fold: "unit_fold ex_header 0 inbox_unit [ex_splice] = Inr \<lparr>ib_next_turn = [], ib_next_step = [ex_pending]\<rparr>"
  by (simp add: unit_fold_inbox durable_inbox_def inbox_apply_def log_only_def empty_inbox_def Let_def
      safe_int_def max_safe_def to_spliced_def all_pending_def)

theorem projection_state_current_witness:
  "fst (state_of ex_header 0 [ex_splice] ''inbox'' ex_registered) = Inr (Some \<lparr>ib_next_turn = [], ib_next_step = [ex_pending]\<rparr>)"
proof -
  have "\<not> unit_failing ex_header 0 [ex_splice] ex_registered" by (simp add: unit_failing_def ex_fold)
  then show ?thesis
    using projection_state_current[OF ex_served, of "''inbox''" "\<lparr>rg_def = inbox_unit, rg_cell = None, rg_refs = 1\<rparr>"]
    by (auto simp: ex_fold split: sum.splits)
qed


end
