(* ===== verification/Effects.thy ===== *)
theory Effects imports Prelude begin

text \<open>
  Programs that read and replace a state and may throw: the state survives a throw, as the fields of
  an object do. \<open>holds P f Q E\<close> says what a program leaves behind when it returns and when it
  throws; the rules below let a component's invariant be checked statement by statement.
\<close>

type_synonym ('s, 'e, 'a) prog = "'s \<Rightarrow> ('e + 'a) \<times> 's"

definition returnS :: "'a \<Rightarrow> ('s, 'e, 'a) prog" where
  "returnS x st = (Inr x, st)"

definition throwS :: "'e \<Rightarrow> ('s, 'e, 'a) prog" where
  "throwS e st = (Inl e, st)"

definition bindS :: "('s, 'e, 'a) prog \<Rightarrow> ('a \<Rightarrow> ('s, 'e, 'b) prog) \<Rightarrow> ('s, 'e, 'b) prog" where
  "bindS f g st = (case f st of (Inl e, st') \<Rightarrow> (Inl e, st') | (Inr x, st') \<Rightarrow> g x st')"

definition thenS :: "('s, 'e, 'a) prog \<Rightarrow> ('s, 'e, 'b) prog \<Rightarrow> ('s, 'e, 'b) prog" where
  "thenS f g = bindS f (\<lambda>_. g)"

definition modifyS :: "('s \<Rightarrow> 's) \<Rightarrow> ('s, 'e, unit) prog" where
  "modifyS f st = (Inr (), f st)"

definition whenS :: "bool \<Rightarrow> ('s, 'e, unit) prog \<Rightarrow> ('s, 'e, unit) prog" where
  "whenS b f = (if b then f else returnS ())"

definition withS :: "('s \<Rightarrow> ('s, 'e, 'a) prog) \<Rightarrow> ('s, 'e, 'a) prog" where
  \<comment> \<open>a program that reads fields of the state first\<close>
  "withS f st = f st st"

definition catchS :: "('s, 'e, 'a) prog \<Rightarrow> ('e \<Rightarrow> ('s, 'f, 'a) prog) \<Rightarrow> ('s, 'f, 'a) prog" where
  \<comment> \<open>\<open>try { f } catch (error) { g }\<close>\<close>
  "catchS f g st = (case f st of (Inl e, st') \<Rightarrow> g e st' | (Inr x, st') \<Rightarrow> (Inr x, st'))"

primrec each :: "('a \<Rightarrow> ('s, 'e, unit) prog) \<Rightarrow> 'a list \<Rightarrow> ('s, 'e, unit) prog" where
  \<comment> \<open>\<open>for (const x of xs) f(x)\<close>\<close>
  "each f [] = returnS ()"
| "each f (x # xs) = thenS (f x) (each f xs)"

lemma bindS_Inr: "f st = (Inr x, st') \<Longrightarrow> bindS f g st = g x st'"
  by (simp add: bindS_def)

section \<open>Triples\<close>

definition holds :: "('s \<Rightarrow> bool) \<Rightarrow> ('s, 'e, 'a) prog \<Rightarrow> ('a \<Rightarrow> 's \<Rightarrow> bool) \<Rightarrow> ('s \<Rightarrow> bool) \<Rightarrow> bool" where
  "holds P f Q E \<longleftrightarrow> (\<forall>st. P st \<longrightarrow> (case f st of (Inr x, st') \<Rightarrow> Q x st' | (Inl _, st') \<Rightarrow> E st'))"

named_theorems triples \<open>triples of the statements\<close>

lemma holdsD:
  assumes "holds P f Q E" and "P st"
  shows "f st = (Inr x, st') \<Longrightarrow> Q x st'" and "f st = (Inl e, st') \<Longrightarrow> E st'"
  using assms by (fastforce simp: holds_def)+

lemma holdsI:
  assumes "\<And>st x st'. P st \<Longrightarrow> f st = (Inr x, st') \<Longrightarrow> Q x st'"
    and "\<And>st e st'. P st \<Longrightarrow> f st = (Inl e, st') \<Longrightarrow> E st'"
  shows "holds P f Q E"
  using assms by (auto simp: holds_def split: prod.split sum.split)

lemma holds_returnS: "(\<And>st. P st \<Longrightarrow> Q x st) \<Longrightarrow> holds P (returnS x) Q E"
  by (simp add: holds_def returnS_def)

lemma holds_throwS: "(\<And>st. P st \<Longrightarrow> E st) \<Longrightarrow> holds P (throwS e) Q E"
  by (simp add: holds_def throwS_def)

lemma holds_modifyS: "(\<And>st. P st \<Longrightarrow> Q () (f st)) \<Longrightarrow> holds P (modifyS f) Q E"
  by (simp add: holds_def modifyS_def)

lemma holds_bindS:
  assumes "holds P f R E" and "\<And>x. holds (R x) (g x) Q E"
  shows "holds P (bindS f g) Q E"
  using assms by (fastforce simp: holds_def bindS_def split: prod.splits sum.splits)

lemma holds_thenS:
  assumes "holds P f (\<lambda>_. R) E" and "holds R g Q E"
  shows "holds P (thenS f g) Q E"
  unfolding thenS_def by (rule holds_bindS[OF assms(1)]) (rule assms(2))

lemma holds_whenS:
  assumes "b \<Longrightarrow> holds P f (\<lambda>_. Q) E" and "\<And>st. \<not> b \<Longrightarrow> P st \<Longrightarrow> Q st"
  shows "holds P (whenS b f) (\<lambda>_. Q) E"
  using assms by (auto simp: whenS_def holds_def returnS_def)

lemma holds_each:
  assumes "\<And>x. x \<in> set xs \<Longrightarrow> holds P (f x) (\<lambda>_. P) E"
  shows "holds P (each f xs) (\<lambda>_. P) E"
  using assms
proof (induction xs)
  case Nil
  then show ?case by (auto intro: holds_returnS)
next
  case (Cons x xs)
  have "holds P (f x) (\<lambda>_. P) E" "holds P (each f xs) (\<lambda>_. P) E" using Cons by auto
  then show ?case by (auto intro: holds_thenS)
qed

lemma holds_weaken:
  assumes "holds P f Q E" and "\<And>st. P' st \<Longrightarrow> P st" and "\<And>x st. Q x st \<Longrightarrow> Q' x st" and "\<And>st. E st \<Longrightarrow> E' st"
  shows "holds P' f Q' E'"
  using assms by (fastforce simp: holds_def split: prod.splits sum.splits)

lemma holds_catchS:
  assumes "holds P f Q R" and "\<And>e. holds R (g e) Q E"
  shows "holds P (catchS f g) Q E"
  using assms by (fastforce simp: holds_def catchS_def split: prod.splits sum.splits)

lemma holds_if:
  assumes "b \<Longrightarrow> holds P f Q E" and "\<not> b \<Longrightarrow> holds P g Q E"
  shows "holds P (if b then f else g) Q E"
  using assms by simp

section \<open>Relations that every step of a program keeps\<close>

text \<open>
  A frame is a relation between the states before and after, reflexive on the good states and
  transitive: what a program keeps when each of its steps does, whether it returns or throws.
\<close>

locale host_frame =
  fixes ok :: "'h \<Rightarrow> bool" and related :: "'h \<Rightarrow> 'h \<Rightarrow> bool"
  assumes related_refl: "ok h \<Longrightarrow> related h h"
    and related_trans: "related h h1 \<Longrightarrow> related h1 h2 \<Longrightarrow> related h h2"
    and related_ok: "related h h' \<Longrightarrow> ok h'"
begin

definition keeps :: "('h, 'e, 'a) prog \<Rightarrow> bool" where
  "keeps f \<longleftrightarrow> (\<forall>h. ok h \<longrightarrow> related h (snd (f h)))"

lemma keepsI: "(\<And>h r h'. ok h \<Longrightarrow> f h = (r, h') \<Longrightarrow> related h h') \<Longrightarrow> keeps f"
  unfolding keeps_def by (metis prod.collapse)

lemma keepsD: "keeps f \<Longrightarrow> ok h \<Longrightarrow> f h = (r, h') \<Longrightarrow> related h h'"
  by (fastforce simp: keeps_def)

lemma keeps_returnS: "keeps (returnS x)" and keeps_throwS: "keeps (throwS e)"
  by (simp_all add: keeps_def returnS_def throwS_def related_refl)

lemma keeps_bindS: "keeps f \<Longrightarrow> (\<And>x. keeps (g x)) \<Longrightarrow> keeps (bindS f g)"
  unfolding keeps_def bindS_def using related_trans related_ok
  by (fastforce split: prod.split sum.split)

lemma keeps_catchS: "keeps f \<Longrightarrow> (\<And>e. keeps (g e)) \<Longrightarrow> keeps (catchS f g)"
  unfolding keeps_def catchS_def using related_trans related_ok
  by (fastforce split: prod.split sum.split)

lemma keeps_if: "keeps f \<Longrightarrow> keeps g \<Longrightarrow> keeps (if b then f else g)"
  by simp

lemma keeps_withS: "(\<And>h. keeps (f h)) \<Longrightarrow> keeps (withS f)"
  by (simp add: keeps_def withS_def)

lemmas keeps_rules = keeps_returnS keeps_throwS keeps_bindS keeps_catchS keeps_if keeps_withS

end

end
