(* ===== verification/ToolCalls.thy ===== *)
theory ToolCalls imports Effects SessionTypes "HOL-Library.Sublist" begin

text \<open>
  The tool-call scheduler of one assistant step (\<open>packages/core/agent-loop/src/tool-calls.ts\<close>):
  exclusive calls are barriers, parallel calls run in a bounded rolling pool, results commit in
  model order. Everything the scheduler awaits is a field of \<open>tool_runtime\<close> over an arbitrary
  world; at each await the world chooses which running dispatches settle meanwhile, in which order
  and with which outcome, so a theorem about an arbitrary runtime is about every interleaving. A
  dispatch is taken to settle eventually. The trace lists what the scheduler did to the Session
  and to the runtime.
\<close>

section \<open>Calls, outcomes and the runtime\<close>

record planned_call =
  pc_id :: string
  pc_name :: string
  pc_arguments :: string
  pc_input :: json

datatype tool_mode = ParallelMode | ExclusiveMode

record tool_outcome =
  to_content :: "content_block list"
  to_is_error :: bool
  to_error_info :: "tool_error option"
  to_meta :: "json option"
  to_contexts :: "message list"
  to_concludes :: bool

datatype preparation =
    PrepDispatch
  | PrepPost tool_outcome
  | PrepFinal tool_outcome

record slot =                                  \<comment> \<open>also the outcome of a dispatch\<close>
  sl_result :: tool_outcome
  sl_needs_post :: bool

record ('w, 'e) tool_runtime =
  rt_aborted :: "'w \<Rightarrow> bool"                  \<comment> \<open>\<open>signal.aborted\<close>\<close>
  rt_max_parallel :: "'w \<Rightarrow> nat"
  rt_mode :: "planned_call \<Rightarrow> 'w \<Rightarrow> tool_mode"
  rt_prepare :: "planned_call \<Rightarrow> 'w \<Rightarrow> ('e + preparation) \<times> 'w"
  rt_dispatch :: "planned_call \<Rightarrow> 'w \<Rightarrow> 'w"
  rt_finalize :: "planned_call \<Rightarrow> tool_outcome \<Rightarrow> 'w \<Rightarrow> ('e + tool_outcome) \<times> 'w"
  rt_finish :: "planned_call \<Rightarrow> tool_outcome \<Rightarrow> 'w \<Rightarrow> ('e + tool_outcome) \<times> 'w"
  rt_pause :: "nat list \<Rightarrow> 'w \<Rightarrow> (nat \<times> ('e + slot)) list \<times> 'w"  \<comment> \<open>what settles during an await\<close>
  rt_settle :: "nat list \<Rightarrow> 'w \<Rightarrow> (nat \<times> ('e + slot)) \<times> 'w"      \<comment> \<open>the next to settle\<close>
  rt_append :: "event_data \<Rightarrow> json option \<Rightarrow> json option \<Rightarrow> 'w \<Rightarrow> ('e + nat) \<times> 'w"
  rt_message_id :: "'w \<Rightarrow> string"
  rt_accept :: "message \<Rightarrow> 'w \<Rightarrow> ('e + unit) \<times> 'w"

datatype tool_action =
    CallLogged planned_call nat
  | ResultLogged planned_call tool_outcome "nat option"
  | Dispatched nat tool_mode
  | Settled nat

record ('w, 'e) sched =
  sc_world :: 'w
  sc_trace :: "tool_action list"
  sc_slots :: "slot option list"
  sc_call_seqs :: "nat option list"
  sc_next :: nat
  sc_committed :: nat
  sc_started :: nat
  sc_aborted :: bool
  sc_concluded :: bool
  sc_failure :: "'e option"
  sc_in_flight :: "(nat \<times> bool) list"        \<comment> \<open>insertion order; whether it settled\<close>

type_synonym ('w, 'e, 'a) scheduler = "(('w, 'e) sched, 'e, 'a) prog"

definition parse_arguments :: "(string \<Rightarrow> json option) \<Rightarrow> string \<Rightarrow> json" where
  \<comment> \<open>\<open>JSON.parse\<close> is the argument; None when it throws\<close>
  "parse_arguments parse raw =
     (if raw = [] then JObj [] else case parse raw of Some v \<Rightarrow> v | None \<Rightarrow> JStr raw)"

definition plan_call :: "(string \<Rightarrow> json option) \<Rightarrow> string \<times> string \<times> string \<Rightarrow> planned_call" where
  "plan_call parse b = (case b of (cid, nm, args) \<Rightarrow>
     \<lparr>pc_id = cid, pc_name = nm, pc_arguments = args, pc_input = parse_arguments parse args\<rparr>)"

section \<open>Settlement\<close>

definition unsettled :: "('w, 'e) sched \<Rightarrow> nat list" where
  "unsettled st = map fst (filter (\<lambda>p. \<not> snd p) (sc_in_flight st))"

definition logged :: "tool_action \<Rightarrow> ('w, 'e) sched \<Rightarrow> ('w, 'e) sched" where
  "logged a st = st\<lparr>sc_trace := sc_trace st @ [a]\<rparr>"

definition settle :: "('w, 'e) sched \<Rightarrow> nat \<times> ('e + slot) \<Rightarrow> ('w, 'e) sched" where
  \<comment> \<open>the handlers attached to a dispatch; only a running dispatch settles\<close>
  "settle st ir =
     (case ir of (i, r) \<Rightarrow>
        if i \<notin> set (unsettled st) then st
        else let st' = logged (Settled i) (st\<lparr>sc_in_flight := map (\<lambda>(j, b). (j, b \<or> j = i)) (sc_in_flight st)\<rparr>)
             in case r of
                  Inr d \<Rightarrow> st'\<lparr>sc_slots := (sc_slots st')[i := Some d]\<rparr>
                | Inl e \<Rightarrow> st'\<lparr>sc_failure := (case sc_failure st' of None \<Rightarrow> Some e | Some f \<Rightarrow> Some f)\<rparr>)"

definition paused :: "('w, 'e) tool_runtime \<Rightarrow> ('w, 'e) sched \<Rightarrow> ('w, 'e) sched" where
  "paused rt st = (case rt_pause rt (unsettled st) (sc_world st) of
     (rs, w) \<Rightarrow> foldl settle (st\<lparr>sc_world := w\<rparr>) rs)"

definition settle_next :: "('w, 'e) tool_runtime \<Rightarrow> ('w, 'e) sched \<Rightarrow> nat \<times> ('w, 'e) sched" where
  "settle_next rt st =
     (case rt_settle rt (unsettled st) (sc_world st) of
        ((j, r), w) \<Rightarrow>
          let i = (if j \<in> set (unsettled st) then j else hd (unsettled st))
          in (i, settle (st\<lparr>sc_world := w\<rparr>) (i, r)))"

definition call_rt :: "('w \<Rightarrow> ('e + 'a) \<times> 'w) \<Rightarrow> ('w, 'e, 'a) scheduler" where
  "call_rt f st = (case f (sc_world st) of (r, w) \<Rightarrow> (r, st\<lparr>sc_world := w\<rparr>))"

definition await :: "('w, 'e) tool_runtime \<Rightarrow> ('w, 'e, 'a) scheduler \<Rightarrow> ('w, 'e, 'a) scheduler" where
  \<comment> \<open>\<open>await f()\<close>: other dispatches may settle before it resumes, also when it throws\<close>
  "await rt f st = (case f st of (r, st') \<Rightarrow> (r, paused rt st'))"

definition throw_scheduler_failure :: "('w, 'e, unit) scheduler" where
  "throw_scheduler_failure st =
     (case sc_failure st of Some e \<Rightarrow> (Inl e, st) | None \<Rightarrow> (Inr (), st))"

section \<open>Session writes\<close>

definition append_tool_call ::
  "('w, 'e) tool_runtime \<Rightarrow> nat \<Rightarrow> nat \<Rightarrow> planned_call \<Rightarrow> ('w, 'e, nat) scheduler" where
  "append_tool_call rt turn step c =
     bindS (call_rt (rt_append rt (ToolCall turn step (pc_id c) (pc_name c) (pc_arguments c)) None None))
       (\<lambda>sq. thenS (modifyS (logged (CallLogged c sq))) (returnS sq))"

definition append_tool_result ::
  "('w, 'e) tool_runtime \<Rightarrow> nat \<Rightarrow> nat \<Rightarrow> planned_call \<Rightarrow> tool_outcome \<Rightarrow> nat option \<Rightarrow> ('w, 'e, unit) scheduler" where
  "append_tool_result rt turn step c r callSeq st =
     bindS (call_rt (rt_append rt
         (ToolResult turn step
            (create_tool_result_message (rt_message_id rt (sc_world st)) (pc_id c) (to_content r) (to_is_error r))
            (to_error_info r) (to_meta r))
         (Some (JStr ''append''))
         (Some (JArr [case callSeq of Some n \<Rightarrow> seq_json n | None \<Rightarrow> JNull]))))
       (\<lambda>_. modifyS (logged (ResultLogged c r callSeq))) st"

definition aborted_before_dispatch :: tool_outcome where
  "aborted_before_dispatch =
     \<lparr>to_content = [TextBlock ''Error: tool call aborted before dispatch''], to_is_error = True,
      to_error_info = Some \<lparr>te_name = ''AbortError'', te_code = ''ABORTED_BEFORE_DISPATCH'', te_reason = None\<rparr>,
      to_meta = None, to_contexts = [], to_concludes = False\<rparr>"

definition append_skipped ::
  "('w, 'e) tool_runtime \<Rightarrow> nat \<Rightarrow> nat \<Rightarrow> planned_call \<Rightarrow> ('w, 'e, unit) scheduler" where
  "append_skipped rt turn step c =
     bindS (append_tool_call rt turn step c)
       (\<lambda>sq. append_tool_result rt turn step c aborted_before_dispatch (Some sq))"

section \<open>One group\<close>

primrec commit_ready ::
  "('w, 'e) tool_runtime \<Rightarrow> nat \<Rightarrow> nat \<Rightarrow> planned_call list \<Rightarrow> ('w, 'e, unit) scheduler" where
  \<comment> \<open>over the calls of the group that are not committed yet\<close>
  "commit_ready rt turn step [] = returnS ()"
| "commit_ready rt turn step (c # cs) = (\<lambda>st.
     case nth_opt (sc_slots st) (sc_committed st) of
       Some (Some sl) \<Rightarrow>
         bindS (if sl_needs_post sl then await rt (call_rt (rt_finalize rt c (sl_result sl)))
                else call_rt (rt_finish rt c (sl_result sl)))
           (\<lambda>r. thenS (\<lambda>st. append_tool_result rt turn step c r
                           (case nth_opt (sc_call_seqs st) (sc_committed st) of Some q \<Rightarrow> q | None \<Rightarrow> None) st)
                 (thenS (each (\<lambda>m. call_rt (rt_accept rt m)) (to_contexts r))
                 (thenS (modifyS (\<lambda>st. st\<lparr>sc_concluded := sc_concluded st \<or> to_concludes r,
                                        sc_committed := Suc (sc_committed st)\<rparr>))
                        (commit_ready rt turn step cs)))) st
     | _ \<Rightarrow> (Inr (), st))"

definition commit_group ::
  "('w, 'e) tool_runtime \<Rightarrow> nat \<Rightarrow> nat \<Rightarrow> planned_call list \<Rightarrow> ('w, 'e, unit) scheduler" where
  "commit_group rt turn step grp = (\<lambda>st. commit_ready rt turn step (drop (sc_committed st) grp) st)"

definition take_slot :: "nat \<Rightarrow> slot \<Rightarrow> ('w, 'e) sched \<Rightarrow> ('w, 'e) sched" where
  "take_slot i sl st = st\<lparr>sc_slots := (sc_slots st)[i := Some sl]\<rparr>"

definition start_call ::
  "('w, 'e) tool_runtime \<Rightarrow> nat \<Rightarrow> nat \<Rightarrow> tool_mode \<Rightarrow> nat \<Rightarrow> planned_call \<Rightarrow> ('w, 'e, unit) scheduler" where
  "start_call rt turn step mode i c =
     bindS (append_tool_call rt turn step c) (\<lambda>sq.
     thenS (modifyS (\<lambda>st. st\<lparr>sc_call_seqs := (sc_call_seqs st)[i := Some sq], sc_started := Suc (sc_started st)\<rparr>))
     (bindS (await rt (call_rt (rt_prepare rt c))) (\<lambda>prepared.
     thenS throw_scheduler_failure
     (modifyS (\<lambda>st. case prepared of
         PrepDispatch \<Rightarrow> logged (Dispatched i mode)
            (st\<lparr>sc_world := rt_dispatch rt c (sc_world st), sc_in_flight := sc_in_flight st @ [(i, False)]\<rparr>)
       | PrepPost r \<Rightarrow> take_slot i \<lparr>sl_result = r, sl_needs_post = True\<rparr> st
       | PrepFinal r \<Rightarrow> take_slot i \<lparr>sl_result = r, sl_needs_post = False\<rparr> st)))))"

definition check_abort :: "('w, 'e) tool_runtime \<Rightarrow> ('w, 'e) sched \<Rightarrow> ('w, 'e) sched" where
  "check_abort rt st = (if rt_aborted rt (sc_world st) then st\<lparr>sc_aborted := True\<rparr> else st)"

primrec fill_pool ::
  "('w, 'e) tool_runtime \<Rightarrow> nat \<Rightarrow> nat \<Rightarrow> tool_mode \<Rightarrow> nat \<Rightarrow> planned_call list \<Rightarrow> planned_call list
   \<Rightarrow> ('w, 'e, unit) scheduler" where
  \<comment> \<open>the last argument is the part of the group that has not been started\<close>
  "fill_pool rt turn step mode maxp grp [] = returnS ()"
| "fill_pool rt turn step mode maxp grp (c # cs) = (\<lambda>st.
     if sc_aborted st \<or> \<not> length (sc_in_flight st) < maxp then (Inr (), st)
     else if 0 < sc_next st \<and> mode = ParallelMode \<and> rt_mode rt c (sc_world st) \<noteq> ParallelMode then (Inr (), st)
     else thenS (await rt (start_call rt turn step mode (sc_next st) c))
          (thenS (modifyS (\<lambda>st. st\<lparr>sc_next := Suc (sc_next st)\<rparr>))
          (thenS throw_scheduler_failure
          (thenS (await rt (commit_group rt turn step grp))
          (thenS throw_scheduler_failure
          (thenS (modifyS (check_abort rt))
                 (fill_pool rt turn step mode maxp grp cs)))))) st)"

definition fill_group ::
  "('w, 'e) tool_runtime \<Rightarrow> nat \<Rightarrow> nat \<Rightarrow> tool_mode \<Rightarrow> nat \<Rightarrow> planned_call list \<Rightarrow> ('w, 'e, unit) scheduler" where
  "fill_group rt turn step mode maxp grp =
     await rt (\<lambda>st. fill_pool rt turn step mode maxp grp (drop (sc_next st) grp) st)"

definition race :: "('w, 'e) tool_runtime \<Rightarrow> ('w, 'e, nat) scheduler" where
  \<comment> \<open>the first already settled dispatch in insertion order, else the next one to settle\<close>
  "race rt st =
     (case List.find snd (sc_in_flight st) of
        Some (i, _) \<Rightarrow> (Inr i, paused rt st)
      | None \<Rightarrow> (case settle_next rt st of (i, st') \<Rightarrow> (Inr i, paused rt st')))"

definition remove_flight :: "nat \<Rightarrow> ('w, 'e) sched \<Rightarrow> ('w, 'e) sched" where
  "remove_flight i st = st\<lparr>sc_in_flight := filter (\<lambda>p. fst p \<noteq> i) (sc_in_flight st)\<rparr>"

primrec race_loop ::
  "('w, 'e) tool_runtime \<Rightarrow> nat \<Rightarrow> nat \<Rightarrow> tool_mode \<Rightarrow> nat \<Rightarrow> planned_call list \<Rightarrow> nat
   \<Rightarrow> ('w, 'e) sched \<Rightarrow> (('e + unit) \<times> ('w, 'e) sched) option" where
  \<comment> \<open>\<open>while (inFlight.size > 0)\<close> with a bound on its rounds; None when the bound is too small\<close>
  "race_loop rt turn step mode maxp grp 0 = (\<lambda>st. if sc_in_flight st = [] then Some (Inr (), st) else None)"
| "race_loop rt turn step mode maxp grp (Suc n) = (\<lambda>st.
     if sc_in_flight st = [] then Some (Inr (), st)
     else case bindS (race rt) (\<lambda>i. thenS (modifyS (remove_flight i))
            (thenS throw_scheduler_failure
            (thenS (await rt (commit_group rt turn step grp))
            (thenS throw_scheduler_failure
            (thenS (modifyS (check_abort rt))
                   (fill_group rt turn step mode maxp grp)))))) st of
            (Inl e, st') \<Rightarrow> Some (Inl e, st')
          | (Inr _, st') \<Rightarrow> race_loop rt turn step mode maxp grp n st')"

primrec drain :: "('w, 'e) tool_runtime \<Rightarrow> nat \<Rightarrow> ('w, 'e) sched \<Rightarrow> ('w, 'e) sched" where
  "drain rt 0 st = st"
| "drain rt (Suc n) st = (if unsettled st = [] then st else drain rt n (snd (settle_next rt st)))"

definition drained :: "('w, 'e) tool_runtime \<Rightarrow> 'e \<Rightarrow> ('w, 'e) sched \<Rightarrow> 'e \<times> ('w, 'e) sched" where
  \<comment> \<open>the catch clause: keep the first failure, await every dispatch, rethrow\<close>
  "drained rt e st =
     (let st1 = st\<lparr>sc_failure := (case sc_failure st of None \<Rightarrow> Some e | Some f \<Rightarrow> Some f)\<rparr>;
          st2 = drain rt (length (unsettled st1)) st1
      in (case sc_failure st2 of Some f \<Rightarrow> f | None \<Rightarrow> e, st2))"

record group_outcome =
  go_consumed :: nat
  go_aborted :: bool
  go_concluded :: bool

definition open_group :: "('w, 'e) tool_runtime \<Rightarrow> nat \<Rightarrow> ('w, 'e) sched \<Rightarrow> ('w, 'e) sched" where
  "open_group rt n st =
     st\<lparr>sc_slots := replicate n None, sc_call_seqs := replicate n None, sc_next := 0, sc_committed := 0,
        sc_started := 0, sc_aborted := rt_aborted rt (sc_world st), sc_concluded := False,
        sc_failure := None, sc_in_flight := []\<rparr>"

datatype 'e scheduler_error = Thrown 'e | UncommittedCalls

definition run_group ::
  "('w, 'e) tool_runtime \<Rightarrow> nat \<Rightarrow> nat \<Rightarrow> planned_call list \<Rightarrow> tool_mode \<Rightarrow> ('w, 'e) sched
   \<Rightarrow> (('e scheduler_error + group_outcome) \<times> ('w, 'e) sched) option" where
  "run_group rt turn step grp mode st0 =
     (let maxp = rt_max_parallel rt (sc_world st0); st = open_group rt (length grp) st0 in
      case (case fill_group rt turn step mode maxp grp st of
              (Inl e, st') \<Rightarrow> Some (Inl e, st')
            | (Inr _, st') \<Rightarrow> race_loop rt turn step mode maxp grp (length grp) st') of
        None \<Rightarrow> None
      | Some (Inl e, st') \<Rightarrow> (case drained rt e st' of (f, st'') \<Rightarrow> Some (Inl (Thrown f), st''))
      | Some (Inr _, st') \<Rightarrow>
          if sc_aborted st'
          then (case each (append_skipped rt turn step) (drop (sc_started st') grp) st' of
                  (Inl e, st'') \<Rightarrow> Some (Inl (Thrown e), st'')
                | (Inr _, st'') \<Rightarrow>
                    Some (Inr \<lparr>go_consumed = length grp, go_aborted = True, go_concluded = sc_concluded st'\<rparr>, st''))
          else if sc_committed st' \<noteq> sc_started st' then Some (Inl UncommittedCalls, st')
          else Some (Inr \<lparr>go_consumed = sc_started st', go_aborted = False, go_concluded = sc_concluded st'\<rparr>, st'))"

section \<open>All calls of a step\<close>

primrec execute_from ::
  "('w, 'e) tool_runtime \<Rightarrow> nat \<Rightarrow> nat \<Rightarrow> nat \<Rightarrow> bool \<Rightarrow> planned_call list \<Rightarrow> ('w, 'e) sched
   \<Rightarrow> (('e scheduler_error + bool) \<times> ('w, 'e) sched) option" where
  \<comment> \<open>\<open>while (next < planned.length)\<close> over the calls from \<open>next\<close> on, with a bound on its rounds\<close>
  "execute_from rt turn step 0 concluded planned st = (if planned = [] then Some (Inr concluded, st) else None)"
| "execute_from rt turn step (Suc n) concluded planned st =
     (case planned of
        [] \<Rightarrow> Some (Inr concluded, st)
      | c # _ \<Rightarrow>
          let mode = rt_mode rt c (sc_world st);
              grp = (if mode = ParallelMode then planned else [c])
          in case run_group rt turn step grp mode st of
               None \<Rightarrow> None
             | Some (Inl e, st') \<Rightarrow> Some (Inl e, st')
             | Some (Inr out, st') \<Rightarrow>
                 let rest = drop (go_consumed out) planned; concluded' = concluded \<or> go_concluded out
                 in if go_aborted out
                    then (case each (append_skipped rt turn step) rest st' of
                            (Inl e, st'') \<Rightarrow> Some (Inl (Thrown e), st'')
                          | (Inr _, st'') \<Rightarrow> Some (Inr concluded', st''))
                    else execute_from rt turn step n concluded' rest st')"

definition execute_tool_calls ::
  "('w, 'e) tool_runtime \<Rightarrow> (string \<Rightarrow> json option) \<Rightarrow> nat \<Rightarrow> nat \<Rightarrow> (string \<times> string \<times> string) list
   \<Rightarrow> 'w \<Rightarrow> (('e scheduler_error + bool) \<times> ('w, 'e) sched) option" where
  "execute_tool_calls rt parse turn step calls w =
     (let planned = map (plan_call parse) calls in
      execute_from rt turn step (length planned) False planned
        \<lparr>sc_world = w, sc_trace = [], sc_slots = [], sc_call_seqs = [], sc_next = 0, sc_committed = 0,
         sc_started = 0, sc_aborted = False, sc_concluded = False, sc_failure = None, sc_in_flight = []\<rparr>)"

section \<open>What the trace promises\<close>

definition calls_of :: "tool_action list \<Rightarrow> (planned_call \<times> nat) list" where
  "calls_of T = List.map_filter (\<lambda>a. case a of CallLogged c q \<Rightarrow> Some (c, q) | _ \<Rightarrow> None) T"

definition results_of :: "tool_action list \<Rightarrow> (planned_call \<times> nat option) list" where
  "results_of T = List.map_filter (\<lambda>a. case a of ResultLogged c r q \<Rightarrow> Some (c, q) | _ \<Rightarrow> None) T"

fun run_step :: "(nat \<times> tool_mode) list \<Rightarrow> tool_action \<Rightarrow> (nat \<times> tool_mode) list" where
  "run_step xs (Dispatched i m) = xs @ [(i, m)]"
| "run_step xs (Settled i) = filter (\<lambda>p. fst p \<noteq> i) xs"
| "run_step xs _ = xs"

definition running :: "tool_action list \<Rightarrow> (nat \<times> tool_mode) list" where
  \<comment> \<open>dispatched and not settled\<close>
  "running T = foldl run_step [] T"

definition cite :: "(planned_call \<times> nat) list \<Rightarrow> (planned_call \<times> nat option) list" where
  "cite = map (\<lambda>(c, q). (c, Some q))"

definition good_point :: "nat \<Rightarrow> tool_action list \<Rightarrow> bool" where
  "good_point M T \<longleftrightarrow> prefix (results_of T) (cite (calls_of T)) \<and> length (running T) \<le> M
     \<and> (ExclusiveMode \<in> snd ` set (running T) \<longrightarrow> length (running T) \<le> 1)"

definition ok_trace :: "nat \<Rightarrow> tool_action list \<Rightarrow> bool" where
  "ok_trace M T \<longleftrightarrow> (\<forall>p. prefix p T \<longrightarrow> good_point M p)"

lemma ok_trace_Nil: "ok_trace M []"
  by (simp add: ok_trace_def good_point_def results_of_def running_def List.map_filter_simps)

lemma ok_trace_snoc: "ok_trace M (T @ [a]) \<longleftrightarrow> ok_trace M T \<and> good_point M (T @ [a])"
  by (auto simp: ok_trace_def prefix_snoc)

lemma ok_trace_last: "ok_trace M T \<Longrightarrow> good_point M T"
  by (simp add: ok_trace_def)

lemma calls_of_snoc [simp]:
  "calls_of (T @ [CallLogged c q]) = calls_of T @ [(c, q)]"
  "calls_of (T @ [ResultLogged c r x]) = calls_of T"
  "calls_of (T @ [Dispatched i m]) = calls_of T"
  "calls_of (T @ [Settled i]) = calls_of T"
  by (simp_all add: calls_of_def List.map_filter_def)

lemma results_of_snoc [simp]:
  "results_of (T @ [CallLogged c q]) = results_of T"
  "results_of (T @ [ResultLogged c r x]) = results_of T @ [(c, x)]"
  "results_of (T @ [Dispatched i m]) = results_of T"
  "results_of (T @ [Settled i]) = results_of T"
  by (simp_all add: results_of_def List.map_filter_def)

lemma running_snoc [simp]: "running (T @ [a]) = run_step (running T) a"
  by (simp add: running_def)

lemma cite_append [simp]: "cite (xs @ ys) = cite xs @ cite ys"
  by (simp add: cite_def)

lemma length_filter_fst: "length (filter P xs) \<le> 1" if "length xs \<le> 1"
  using that length_filter_le[of P xs] by linarith

lemma good_settled:
  assumes "good_point M T"
  shows "good_point M (T @ [Settled i])"
proof -
  have "length (filter (\<lambda>p. fst p \<noteq> i) (running T)) \<le> length (running T)" by (rule length_filter_le)
  moreover have "snd ` set (filter (\<lambda>p. fst p \<noteq> i) (running T)) \<subseteq> snd ` set (running T)" by auto
  ultimately show ?thesis using assms unfolding good_point_def
    by (simp del: length_filter_le) (meson order_trans subsetD)
qed

section \<open>The invariant of a group\<close>

definition tracked :: "nat \<Rightarrow> tool_mode \<Rightarrow> ('w, 'e) sched \<Rightarrow> bool" where
  "tracked M mode st \<longleftrightarrow> ok_trace M (sc_trace st) \<and> running (sc_trace st) = map (\<lambda>i. (i, mode)) (unsettled st)
     \<and> distinct (map fst (sc_in_flight st))"

definition failed_ok :: "nat \<Rightarrow> tool_mode \<Rightarrow> planned_call list \<Rightarrow> tool_action list \<Rightarrow> ('w, 'e) sched \<Rightarrow> bool" where
  \<comment> \<open>what also holds when a statement threw\<close>
  "failed_ok M mode grp T0 st \<longleftrightarrow> tracked M mode st
     \<and> (\<exists>qs. length qs \<le> length grp \<and> calls_of (sc_trace st) = calls_of T0 @ zip (take (length qs) grp) qs)"

definition group_ok ::
  "nat \<Rightarrow> tool_mode \<Rightarrow> planned_call list \<Rightarrow> tool_action list \<Rightarrow> nat \<Rightarrow> nat \<Rightarrow> nat \<Rightarrow> ('w, 'e) sched \<Rightarrow> bool" where
  \<comment> \<open>\<open>k\<close> calls accounted for, \<open>j\<close> calls logged, \<open>r\<close> results logged\<close>
  "group_ok M mode grp T0 k j r st \<longleftrightarrow> tracked M mode st
     \<and> (\<forall>i \<in> fst ` set (sc_in_flight st). i < k)
     \<and> k \<le> j \<and> j \<le> length grp \<and> r \<le> k
     \<and> length (sc_slots st) = length grp \<and> length (sc_call_seqs st) = length grp
     \<and> (\<exists>qs. length qs = j \<and> take j (sc_call_seqs st) = map Some qs
          \<and> calls_of (sc_trace st) = calls_of T0 @ zip (take j grp) qs
          \<and> results_of (sc_trace st) = results_of T0 @ cite (take r (zip (take j grp) qs)))
     \<and> (\<forall>i < k. i \<in> set (unsettled st) \<or> sc_slots st ! i \<noteq> None \<or> sc_failure st \<noteq> None)
     \<and> (\<forall>i. k \<le> i \<and> i < length grp \<longrightarrow> sc_slots st ! i = None)"

lemma group_ok_failed: "group_ok M mode grp T0 k j r st \<Longrightarrow> failed_ok M mode grp T0 st"
  by (auto simp: group_ok_def failed_ok_def)

lemma unsettled_settle:
  "i \<in> set (unsettled st) \<Longrightarrow>
   map fst (filter (\<lambda>p. \<not> snd p) (map (\<lambda>(j, b). (j, b \<or> j = i)) (sc_in_flight st))) = filter (\<lambda>j. j \<noteq> i) (unsettled st)"
  unfolding unsettled_def by (induction "sc_in_flight st" arbitrary: st) (auto simp: comp_def split_beta filter_map)

lemma settle_other [simp]: "i \<notin> set (unsettled st) \<Longrightarrow> settle st (i, r) = st"
  by (simp add: settle_def)

lemma settle_frame:
  "sc_next (settle st x) = sc_next st" "sc_committed (settle st x) = sc_committed st"
  "sc_started (settle st x) = sc_started st" "sc_aborted (settle st x) = sc_aborted st"
  "sc_call_seqs (settle st x) = sc_call_seqs st" "map fst (sc_in_flight (settle st x)) = map fst (sc_in_flight st)"
  "length (sc_slots (settle st x)) = length (sc_slots st)" "sc_concluded (settle st x) = sc_concluded st"
  "calls_of (sc_trace (settle st x)) = calls_of (sc_trace st)"
  "results_of (sc_trace (settle st x)) = results_of (sc_trace st)"
  by (cases x; cases "snd x"; simp add: settle_def logged_def Let_def split_beta comp_def)+

lemma settle_unsettled:
  "unsettled (settle st (i, r)) = filter (\<lambda>j. j \<noteq> i) (unsettled st)"
proof (cases "i \<in> set (unsettled st)")
  case True
  then show ?thesis using unsettled_settle[OF True]
    by (cases r) (simp_all add: settle_def logged_def Let_def unsettled_def)
next
  case False
  then show ?thesis by (simp, metis (mono_tags, lifting) filter_True)
qed

lemma tracked_settle: "tracked M mode st \<Longrightarrow> tracked M mode (settle st x)"
proof (cases x)
  case (Pair i r)
  assume t: "tracked M mode st"
  show ?thesis
  proof (cases "i \<in> set (unsettled st)")
    case True
    have trace: "sc_trace (settle st x) = sc_trace st @ [Settled i]"
      using True Pair by (cases r) (simp_all add: settle_def logged_def Let_def)
    have "running (sc_trace st @ [Settled i]) = map (\<lambda>i. (i, mode)) (filter (\<lambda>j. j \<noteq> i) (unsettled st))"
      using t by (simp add: tracked_def filter_map comp_def)
    then show ?thesis using t good_settled[OF ok_trace_last]
      unfolding tracked_def trace settle_unsettled[of st i r, folded Pair] settle_frame ok_trace_snoc by blast
  qed (use t Pair in simp)
qed

lemma failed_ok_settle: "failed_ok M mode grp T0 st \<Longrightarrow> failed_ok M mode grp T0 (settle st x)"
  by (simp add: failed_ok_def tracked_settle settle_frame)

lemma settle_fails: "sc_failure st \<noteq> None \<Longrightarrow> sc_failure (settle st x) \<noteq> None"
  by (cases x; cases "snd x") (auto simp: settle_def logged_def Let_def split: option.splits)

lemma nth_update_any: "xs[a := v] ! i = (if a = i \<and> i < length xs then v else xs ! i)"
  by (metis list_update_beyond linorder_not_less nth_list_update_eq nth_list_update_neq)

lemma settle_slot:
  "sc_slots st ! i \<noteq> None \<Longrightarrow> sc_slots (settle st x) ! i \<noteq> None"
  by (cases x; cases "snd x") (auto simp: settle_def logged_def Let_def nth_update_any split: option.splits)

lemma settle_accounts:
  assumes "i \<in> set (unsettled st)" and "i < length (sc_slots st)"
  shows "i \<in> set (unsettled (settle st x)) \<or> sc_slots (settle st x) ! i \<noteq> None \<or> sc_failure (settle st x) \<noteq> None"
  using assms settle_unsettled[of st "fst x" "snd x"]
  by (cases x; cases "snd x") (auto simp: settle_def logged_def Let_def split: option.splits)

lemma settle_beyond:
  assumes "sc_slots st ! i = None" and "i \<notin> set (unsettled st)"
  shows "sc_slots (settle st x) ! i = None"
  using assms by (cases x; cases "snd x") (auto simp: settle_def logged_def Let_def nth_update_any split: option.splits)

lemma unsettled_subset: "set (unsettled st) \<subseteq> fst ` set (sc_in_flight st)"
  by (auto simp: unsettled_def)

lemma in_flight_settle: "fst ` set (sc_in_flight (settle st x)) = fst ` set (sc_in_flight st)"
  using settle_frame(6)[of st x] by (metis image_set)

lemma group_ok_settle:
  assumes "group_ok M mode grp T0 k j r st"
  shows "group_ok M mode grp T0 k j r (settle st x)"
proof -
  have g: "\<forall>i < k. i \<in> set (unsettled st) \<or> sc_slots st ! i \<noteq> None \<or> sc_failure st \<noteq> None"
    "\<forall>i. k \<le> i \<and> i < length grp \<longrightarrow> sc_slots st ! i = None" "\<forall>i \<in> fst ` set (sc_in_flight st). i < k"
    "length (sc_slots st) = length grp" "k \<le> length grp"
    using assms by (auto simp: group_ok_def)
  have "\<forall>i < k. i \<in> set (unsettled (settle st x)) \<or> sc_slots (settle st x) ! i \<noteq> None \<or> sc_failure (settle st x) \<noteq> None"
    using g settle_accounts[of _ st x] settle_slot[of st _ x] settle_fails[of st x] by (metis dual_order.strict_trans1)
  moreover have "\<forall>i. k \<le> i \<and> i < length grp \<longrightarrow> sc_slots (settle st x) ! i = None"
    using g settle_beyond[of st _ x] unsettled_subset[of st] by (metis leD subsetD)
  ultimately show ?thesis using assms tracked_settle[of M mode st x]
    unfolding group_ok_def settle_frame in_flight_settle by blast
qed

section \<open>Awaiting keeps the invariant\<close>

definition stable :: "(('w, 'e) sched \<Rightarrow> bool) \<Rightarrow> bool" where
  "stable Q \<longleftrightarrow> (\<forall>st x. Q st \<longrightarrow> Q (settle st x)) \<and> (\<forall>st w. Q st \<longrightarrow> Q (st\<lparr>sc_world := w\<rparr>))"

lemma stable_world: "stable Q \<Longrightarrow> Q st \<Longrightarrow> Q (st\<lparr>sc_world := w\<rparr>)"
  by (simp add: stable_def)

lemma stable_paused:
  assumes "stable Q" and "Q st"
  shows "Q (paused rt st)"
proof -
  have "Q (foldl settle st rs)" if "Q st" for st rs
    using that assms(1) by (induction rs arbitrary: st) (auto simp: stable_def)
  then show ?thesis using stable_world[OF assms] by (simp add: paused_def split: prod.split)
qed

lemma stable_conj: "stable P \<Longrightarrow> stable Q \<Longrightarrow> stable (\<lambda>st. P st \<and> Q st)"
  by (simp add: stable_def)

lemma stable_ex: "(\<And>x. stable (P x)) \<Longrightarrow> stable (\<lambda>st. \<exists>x. P x st)"
  by (auto simp: stable_def) blast+

lemma world_frame [simp]:
  "unsettled (st\<lparr>sc_world := w\<rparr>) = unsettled st"
  "tracked M mode (st\<lparr>sc_world := w\<rparr>) = tracked M mode st"
  "failed_ok M mode grp T0 (st\<lparr>sc_world := w\<rparr>) = failed_ok M mode grp T0 st"
  "group_ok M mode grp T0 k j r (st\<lparr>sc_world := w\<rparr>) = group_ok M mode grp T0 k j r st"
  by (simp_all add: unsettled_def tracked_def failed_ok_def group_ok_def)

lemma stable_failed_ok: "stable (failed_ok M mode grp T0)"
  by (simp add: stable_def failed_ok_settle)

lemma stable_group_ok: "stable (group_ok M mode grp T0 k j r)"
  by (simp add: stable_def group_ok_settle)

lemma stable_frame:
  "stable (\<lambda>st. R (sc_next st) (sc_committed st) (sc_started st) (sc_aborted st) (map fst (sc_in_flight st)))"
  by (simp add: stable_def settle_frame)

lemma stable_failed: "stable (\<lambda>st. sc_failure st \<noteq> None)"
  unfolding stable_def by (intro conjI allI impI settle_fails) simp_all

lemma holds_await:
  assumes "holds P f Q E" and "\<And>x. stable (Q x)" and "stable E"
  shows "holds P (await rt f) Q E"
  using assms stable_paused unfolding holds_def await_def
  by (auto split: prod.splits sum.splits) blast+

lemma holds_call_rt:
  assumes "stable P" and "\<And>st. P st \<Longrightarrow> E st"
  shows "holds P (call_rt f) (\<lambda>_. P) E"
  using assms by (auto simp: holds_def call_rt_def stable_world split: prod.splits sum.splits)

lemma holds_throw_failure:
  assumes "\<And>st. P st \<Longrightarrow> E st"
  shows "holds P throw_scheduler_failure (\<lambda>_ st. P st \<and> sc_failure st = None) E"
  using assms by (auto simp: holds_def throw_scheduler_failure_def split: option.splits)

section \<open>Committing in model order\<close>

definition failing :: "('w, 'e) sched \<Rightarrow> bool" where
  \<comment> \<open>a failed dispatch is still in the map until the race returns it\<close>
  "failing st \<longleftrightarrow> (sc_failure st \<noteq> None \<longrightarrow> sc_in_flight st \<noteq> [])"

definition caught_up :: "nat \<Rightarrow> ('w, 'e) sched \<Rightarrow> bool" where
  "caught_up k st \<longleftrightarrow> sc_committed st = k \<or> sc_committed st \<in> fst ` set (sc_in_flight st) \<or> sc_failure st \<noteq> None"

lemma in_flight_settle_Nil: "sc_in_flight (settle st x) = [] \<longleftrightarrow> sc_in_flight st = []"
  using settle_frame(6)[of st x] by (metis map_is_Nil_conv)

lemma failing_settle: "failing st \<Longrightarrow> failing (settle st x)"
proof (cases "fst x \<in> set (unsettled st)")
  case True
  then have "sc_in_flight st \<noteq> []" by (auto simp: unsettled_def)
  then show ?thesis by (simp add: failing_def in_flight_settle_Nil)
next
  case False
  then show "failing st \<Longrightarrow> ?thesis" by (cases x) simp
qed

lemma stable_failing: "stable failing"
  by (simp add: stable_def failing_settle) (simp add: failing_def)

lemma stable_caught_up: "stable (caught_up k)"
proof -
  have "caught_up k (settle st x)" if "caught_up k st" for st :: "('a, 'b) sched" and x
    using that settle_fails[of st x] unfolding caught_up_def settle_frame in_flight_settle by blast
  then show ?thesis by (simp add: stable_def) (simp add: caught_up_def)
qed

definition invar ::
  "nat \<Rightarrow> tool_mode \<Rightarrow> planned_call list \<Rightarrow> tool_action list \<Rightarrow> nat \<Rightarrow> nat \<Rightarrow> ('w, 'e) sched \<Rightarrow> bool" where
  "invar M mode grp T0 k j st \<longleftrightarrow> group_ok M mode grp T0 k j (sc_committed st) st \<and> failing st"

lemma stable_invar: "stable (invar M mode grp T0 k j)"
  by (simp add: stable_def invar_def settle_frame group_ok_settle failing_settle) (simp add: failing_def)

lemma invar_failed: "invar M mode grp T0 k j st \<Longrightarrow> failed_ok M mode grp T0 st"
  by (auto simp: invar_def dest: group_ok_failed)

lemma good_result:
  assumes "ok_trace M T" and "results_of T = R @ cite (take c xs)" and "calls_of T = C @ xs" and "R = cite C"
    and "c < length xs" and "xs ! c = (d, q)"
  shows "ok_trace M (T @ [ResultLogged d r (Some q)])"
proof -
  have "results_of T @ [(d, Some q)] = cite (C @ take (Suc c) xs)"
    using assms by (simp add: take_Suc_conv_app_nth) (simp add: cite_def)
  moreover have "prefix (cite (C @ take (Suc c) xs)) (cite (C @ xs))"
    by (simp add: cite_def) (metis prefix_def append_take_drop_id map_append)
  ultimately show ?thesis using assms(1,3) ok_trace_last[OF assms(1)]
    by (simp add: ok_trace_snoc good_point_def)
qed

lemma group_ok_result:
  assumes "group_ok M mode grp T0 k j c st" and "c < k" and "results_of T0 = cite (calls_of T0)"
    and "nth_opt (sc_call_seqs st) c = Some q"
  shows "group_ok M mode grp T0 k j (Suc c) (logged (ResultLogged (grp ! c) r q) st)"
proof -
  obtain qs where qs: "length qs = j" "take j (sc_call_seqs st) = map Some qs"
    "calls_of (sc_trace st) = calls_of T0 @ zip (take j grp) qs"
    "results_of (sc_trace st) = results_of T0 @ cite (take c (zip (take j grp) qs))"
    using assms(1) by (auto simp: group_ok_def)
  have le: "c < j" "j \<le> length grp" using assms(1,2) by (auto simp: group_ok_def)
  have at: "zip (take j grp) qs ! c = (grp ! c, qs ! c)" "c < length (zip (take j grp) qs)" using le qs(1) by simp_all
  have "take j (sc_call_seqs st) ! c = Some (qs ! c)" using qs(1,2) le by simp
  then have q: "q = Some (qs ! c)" using assms(4) le(1) by (simp add: nth_opt_eq_Some)
  have ok: "ok_trace M (sc_trace st)" "running (sc_trace st) = map (\<lambda>i. (i, mode)) (unsettled st)"
    using assms(1) by (simp_all add: group_ok_def tracked_def)
  have "ok_trace M (sc_trace st @ [ResultLogged (grp ! c) r q])"
    unfolding q by (rule good_result[OF ok(1) qs(4,3) assms(3) at(2,1)])
  then have "tracked M mode (logged (ResultLogged (grp ! c) r q) st)"
    using assms(1) ok(2) by (simp add: group_ok_def tracked_def logged_def unsettled_def)
  moreover have "results_of (sc_trace (logged (ResultLogged (grp ! c) r q) st))
      = results_of T0 @ cite (take (Suc c) (zip (take j grp) qs))"
    using qs(4) at q by (simp add: logged_def take_Suc_conv_app_nth) (simp add: cite_def)
  moreover have "calls_of (sc_trace (logged (ResultLogged (grp ! c) r q) st)) = calls_of T0 @ zip (take j grp) qs"
    using qs(3) by (simp add: logged_def)
  ultimately show ?thesis using assms(1,2) qs(1,2)
    by (simp add: group_ok_def) (auto simp: logged_def unsettled_def)
qed

lemma group_ok_committed [simp]:
  "group_ok M mode grp T0 k j r (st\<lparr>sc_concluded := b, sc_committed := c\<rparr>) = group_ok M mode grp T0 k j r st"
  by (simp add: group_ok_def tracked_def unsettled_def)

text \<open>
  \<open>R\<close> is any condition on the fields that awaiting and committing leave alone.
\<close>

type_synonym frame = "nat \<Rightarrow> nat \<Rightarrow> bool \<Rightarrow> nat list \<Rightarrow> bool"

definition framed :: "frame \<Rightarrow> ('w, 'e) sched \<Rightarrow> bool" where
  "framed R st \<longleftrightarrow> R (sc_next st) (sc_started st) (sc_aborted st) (map fst (sc_in_flight st))"

lemma stable_framed: "stable (framed R)"
  by (simp add: stable_def framed_def settle_frame)

definition committing ::
  "nat \<Rightarrow> tool_mode \<Rightarrow> planned_call list \<Rightarrow> tool_action list \<Rightarrow> nat \<Rightarrow> nat \<Rightarrow> frame \<Rightarrow> nat \<Rightarrow> nat
   \<Rightarrow> ('w, 'e) sched \<Rightarrow> bool" where
  \<comment> \<open>\<open>c\<close> calls committed, \<open>r\<close> results logged\<close>
  "committing M mode grp T0 k j R c r st \<longleftrightarrow>
     group_ok M mode grp T0 k j r st \<and> failing st \<and> framed R st \<and> sc_committed st = c"

lemma stable_committing: "stable (committing M mode grp T0 k j R c r)"
  using stable_group_ok[of M mode grp T0 k j r] stable_failing stable_framed[of R]
  by (auto simp: stable_def committing_def settle_frame)

lemma committing_failed: "committing M mode grp T0 k j R c r st \<Longrightarrow> failed_ok M mode grp T0 st"
  by (auto simp: committing_def dest: group_ok_failed)

lemma holds_append_result:
  assumes "c < k" and "results_of T0 = cite (calls_of T0)"
  shows "holds (\<lambda>st. committing M mode grp T0 k j R c c st \<and> nth_opt (sc_call_seqs st) c = Some q)
      (append_tool_result rt turn step (grp ! c) r q) (\<lambda>_. committing M mode grp T0 k j R c (Suc c)) (failed_ok M mode grp T0)"
proof (rule holdsI)
  fix st x st'
  assume st: "committing M mode grp T0 k j R c c st \<and> nth_opt (sc_call_seqs st) c = Some q"
    and run: "append_tool_result rt turn step (grp ! c) r q st = (Inr x, st')"
  obtain w where w: "st' = logged (ResultLogged (grp ! c) r q) (st\<lparr>sc_world := w\<rparr>)"
    using run by (auto simp: append_tool_result_def bindS_def call_rt_def modifyS_def split: prod.splits sum.splits)
  have "group_ok M mode grp T0 k j (Suc c) (logged (ResultLogged (grp ! c) r q) (st\<lparr>sc_world := w\<rparr>))"
    using st by (intro group_ok_result[OF _ assms]) (simp_all add: committing_def)
  then show "committing M mode grp T0 k j R c (Suc c) st'"
    using st unfolding w by (simp add: committing_def failing_def framed_def logged_def)
next
  fix st e st'
  assume "committing M mode grp T0 k j R c c st \<and> nth_opt (sc_call_seqs st) c = Some q"
    and "append_tool_result rt turn step (grp ! c) r q st = (Inl e, st')"
  then show "failed_ok M mode grp T0 st'"
    using committing_failed
    by (force simp: append_tool_result_def bindS_def call_rt_def modifyS_def split: prod.splits sum.splits)
qed

lemma slot_ready:
  assumes "group_ok M mode grp T0 k j r st" and "nth_opt (sc_slots st) c = Some (Some sl)"
  shows "c < k"
  using assms unfolding group_ok_def nth_opt_eq_Some by (metis leI option.distinct(1))

lemma call_seq_known:
  assumes "group_ok M mode grp T0 k j r st" and "c < k"
  shows "\<exists>q. nth_opt (sc_call_seqs st) c = Some q"
  using assms by (auto simp: group_ok_def nth_opt_eq_Some)

lemma holds_commit_ready:
  assumes "results_of T0 = cite (calls_of T0)" and "cs = drop c grp"
  shows "holds (committing M mode grp T0 k j R c c) (commit_ready rt turn step cs)
     (\<lambda>_ st. invar M mode grp T0 k j st \<and> framed R st \<and> caught_up k st) (failed_ok M mode grp T0)"
  using assms(2)
proof (induction cs arbitrary: c)
  case Nil
  show ?case unfolding commit_ready.simps
  proof (rule holds_returnS)
    fix st assume st: "committing M mode grp T0 k j R c c st"
    then have "c \<le> k" "k \<le> length grp" by (auto simp: committing_def group_ok_def)
    then have "c = k" using Nil by simp
    then show "invar M mode grp T0 k j st \<and> framed R st \<and> caught_up k st"
      using st by (simp add: committing_def invar_def caught_up_def)
  qed
next
  case (Cons d cs)
  have d: "d = grp ! c" "cs = drop (Suc c) grp"
    using Cons.prems by (metis nth_via_drop, metis drop_Suc list.sel(3) tl_drop)
  let ?C = "committing M mode grp T0 k j R"
  let ?E = "failed_ok M mode grp T0"
  have body: "holds (\<lambda>st. ?C c c st \<and> c < k)
      (bindS (if sl_needs_post sl then await rt (call_rt (rt_finalize rt d (sl_result sl)))
              else call_rt (rt_finish rt d (sl_result sl)))
         (\<lambda>r. thenS (\<lambda>st. append_tool_result rt turn step d r
                         (case nth_opt (sc_call_seqs st) (sc_committed st) of Some q \<Rightarrow> q | None \<Rightarrow> None) st)
               (thenS (each (\<lambda>m. call_rt (rt_accept rt m)) (to_contexts r))
               (thenS (modifyS (\<lambda>st. st\<lparr>sc_concluded := sc_concluded st \<or> to_concludes r,
                                      sc_committed := Suc (sc_committed st)\<rparr>))
                      (commit_ready rt turn step cs)))))
      (\<lambda>_ st. invar M mode grp T0 k j st \<and> framed R st \<and> caught_up k st) ?E" for sl
  proof (rule holds_bindS[where R = "\<lambda>_ st. ?C c c st \<and> c < k"])
    have st: "stable (\<lambda>st. ?C c c st \<and> c < k)" by (intro stable_conj stable_committing) (simp add: stable_def)
    have "holds (\<lambda>st. ?C c c st \<and> c < k) (call_rt f) (\<lambda>_ st. ?C c c st \<and> c < k) ?E"
      for f :: "'a \<Rightarrow> ('b + tool_outcome) \<times> 'a"
      by (rule holds_call_rt[OF st]) (auto dest: committing_failed)
    then show "holds (\<lambda>st. ?C c c st \<and> c < k) (if sl_needs_post sl then await rt (call_rt (rt_finalize rt d (sl_result sl)))
              else call_rt (rt_finish rt d (sl_result sl))) (\<lambda>_ st. ?C c c st \<and> c < k) ?E"
      by (intro holds_if holds_await st stable_failed_ok)
  next
    fix r
    have "holds (\<lambda>st. ?C c c st \<and> c < k) (\<lambda>st. append_tool_result rt turn step d r
            (case nth_opt (sc_call_seqs st) (sc_committed st) of Some q \<Rightarrow> q | None \<Rightarrow> None) st) (\<lambda>_. ?C c (Suc c)) ?E"
    proof -
      have "case append_tool_result rt turn step d r
            (case nth_opt (sc_call_seqs st) (sc_committed st) of Some q \<Rightarrow> q | None \<Rightarrow> None) st of
          (Inr x, st') \<Rightarrow> ?C c (Suc c) st' | (Inl _, st') \<Rightarrow> ?E st'" if st: "?C c c st \<and> c < k" for st :: "('a, 'b) sched"
      proof -
        obtain q where q: "nth_opt (sc_call_seqs st) c = Some q"
          using st call_seq_known unfolding committing_def by blast
        then show ?thesis using holds_append_result[OF _ assms(1), of c k M mode grp j R q rt turn step r] st
          by (simp add: holds_def d(1) committing_def)
      qed
      then show ?thesis by (simp add: holds_def)
    qed
    moreover have "holds (?C c (Suc c)) (each (\<lambda>m. call_rt (rt_accept rt m)) (to_contexts r)) (\<lambda>_. ?C c (Suc c)) ?E"
      by (rule holds_each) (rule holds_call_rt[OF stable_committing committing_failed])
    moreover have "holds (?C c (Suc c)) (modifyS (\<lambda>st. st\<lparr>sc_concluded := sc_concluded st \<or> to_concludes r,
        sc_committed := Suc (sc_committed st)\<rparr>)) (\<lambda>_. ?C (Suc c) (Suc c)) ?E"
      by (rule holds_modifyS) (simp add: committing_def failing_def framed_def)
    ultimately show "holds (\<lambda>st. ?C c c st \<and> c < k) (thenS (\<lambda>st. append_tool_result rt turn step d r
            (case nth_opt (sc_call_seqs st) (sc_committed st) of Some q \<Rightarrow> q | None \<Rightarrow> None) st)
        (thenS (each (\<lambda>m. call_rt (rt_accept rt m)) (to_contexts r))
        (thenS (modifyS (\<lambda>st. st\<lparr>sc_concluded := sc_concluded st \<or> to_concludes r,
                                      sc_committed := Suc (sc_committed st)\<rparr>))
               (commit_ready rt turn step cs))))
      (\<lambda>_ st. invar M mode grp T0 k j st \<and> framed R st \<and> caught_up k st) ?E"
      using Cons.IH[OF d(2)] by (blast intro: holds_thenS)
  qed
  show ?case
  proof (unfold holds_def, intro allI impI)
    fix st :: "('a, 'b) sched" assume st: "?C c c st"
    then have c: "sc_committed st = c" and g: "group_ok M mode grp T0 k j c st" by (simp_all add: committing_def)
    show "case commit_ready rt turn step (d # cs) st of
        (Inr x, st') \<Rightarrow> invar M mode grp T0 k j st' \<and> framed R st' \<and> caught_up k st' | (Inl _, st') \<Rightarrow> ?E st'"
    proof (cases "\<exists>sl. nth_opt (sc_slots st) c = Some (Some sl)")
      case True
      then obtain sl where sl: "nth_opt (sc_slots st) c = Some (Some sl)" by blast
      show ?thesis using body[of sl] st slot_ready[OF g sl] by (simp add: sl c holds_def)
    next
      case False
      have "c < length (sc_slots st)" "c \<le> k" using g Cons.prems
        by (auto simp: group_ok_def) (metis drop_eq_Nil2 leI list.distinct(1))
      then have "sc_slots st ! c = None" using False by (auto simp: nth_opt_eq_Some)
      then have "caught_up k st"
        using g \<open>c \<le> k\<close> unsettled_subset[of st] c unfolding caught_up_def group_ok_def
        by (metis le_neq_implies_less subsetD)
      then show ?thesis using st False c
        by (auto simp: committing_def invar_def split: option.splits)
    qed
  qed
qed

section \<open>Starting calls\<close>

lemma group_ok_call:
  assumes "group_ok M mode grp T0 k k r st" and "k < length grp" and "sc_started st = k"
    and "results_of T0 = cite (calls_of T0)"
  shows "group_ok M mode grp T0 k (Suc k) r ((logged (CallLogged (grp ! k) sq) st)
      \<lparr>sc_call_seqs := (sc_call_seqs st)[k := Some sq], sc_started := n\<rparr>)" (is "group_ok _ _ _ _ _ _ _ ?st")
proof -
  obtain qs where qs: "length qs = k" "take k (sc_call_seqs st) = map Some qs"
    "calls_of (sc_trace st) = calls_of T0 @ zip (take k grp) qs"
    "results_of (sc_trace st) = results_of T0 @ cite (take r (zip (take k grp) qs))"
    using assms(1) by (auto simp: group_ok_def)
  have len: "length (sc_call_seqs st) = length grp" "r \<le> k" using assms(1) by (auto simp: group_ok_def)
  have zip: "zip (take (Suc k) grp) (qs @ [sq]) = zip (take k grp) qs @ [(grp ! k, sq)]"
    using assms(2) qs(1) by (simp add: take_Suc_conv_app_nth)
  have seqs: "take (Suc k) ((sc_call_seqs st)[k := Some sq]) = map Some (qs @ [sq])"
    using assms(2) qs(2) len by (simp add: take_Suc_conv_app_nth)
  have ok: "ok_trace M (sc_trace st)" "running (sc_trace st) = map (\<lambda>i. (i, mode)) (unsettled st)"
    using assms(1) by (simp_all add: group_ok_def tracked_def)
  have "ok_trace M (sc_trace st @ [CallLogged (grp ! k) sq])"
    using ok_trace_last[OF ok(1)] ok(1) by (auto simp: ok_trace_snoc good_point_def)
  then have tracked: "tracked M mode ?st"
    using assms(1) ok(2) by (simp add: group_ok_def tracked_def logged_def unsettled_def)
  have "results_of (sc_trace ?st) = results_of T0 @ cite (take r (zip (take (Suc k) grp) (qs @ [sq])))"
    using qs(1,4) len assms(2) unfolding zip by (simp add: logged_def)
  moreover have "calls_of (sc_trace ?st) = calls_of T0 @ zip (take (Suc k) grp) (qs @ [sq])"
    using qs(3) unfolding zip by (simp add: logged_def)
  ultimately have "\<exists>qs. length qs = Suc k \<and> take (Suc k) (sc_call_seqs ?st) = map Some qs
      \<and> calls_of (sc_trace ?st) = calls_of T0 @ zip (take (Suc k) grp) qs
      \<and> results_of (sc_trace ?st) = results_of T0 @ cite (take r (zip (take (Suc k) grp) qs))"
    using seqs qs(1) by (intro exI[of _ "qs @ [sq]"]) simp
  then show ?thesis using assms(1,2) tracked unfolding group_ok_def by (simp add: logged_def unsettled_def)
qed

lemma group_ok_slot:
  assumes "group_ok M mode grp T0 k (Suc k) r st"
  shows "group_ok M mode grp T0 (Suc k) (Suc k) r (take_slot k sl st)"
proof -
  have "k < length (sc_slots st)" using assms by (auto simp: group_ok_def)
  then show ?thesis using assms
    by (auto simp: group_ok_def take_slot_def tracked_def unsettled_def nth_list_update less_Suc_eq)
qed

lemma group_ok_dispatch:
  assumes "group_ok M mode grp T0 k (Suc k) r st" and "length (sc_in_flight st) < M"
    and "mode = ExclusiveMode \<Longrightarrow> length grp \<le> 1"
  shows "group_ok M mode grp T0 (Suc k) (Suc k) r
      (logged (Dispatched k mode) (st\<lparr>sc_world := w, sc_in_flight := sc_in_flight st @ [(k, False)]\<rparr>))" (is "group_ok _ _ _ _ _ _ _ ?st")
proof -
  have g: "tracked M mode st" "\<forall>i \<in> fst ` set (sc_in_flight st). i < k" "Suc k \<le> length grp"
    using assms(1) by (auto simp: group_ok_def)
  have run: "running (sc_trace st @ [Dispatched k mode]) = map (\<lambda>i. (i, mode)) (unsettled st @ [k])"
    using g(1) by (simp add: tracked_def)
  have "length (unsettled st) < M"
    using assms(2) le_less_trans[OF length_filter_le[of "\<lambda>p. \<not> snd p" "sc_in_flight st"]] by (simp add: unsettled_def)
  moreover have "unsettled st = []" if "mode = ExclusiveMode"
  proof -
    have "k = 0" using that assms(3) g(3) by simp
    then have "sc_in_flight st = []" using g(2) by auto
    then show ?thesis by (simp add: unsettled_def)
  qed
  ultimately have "good_point M (sc_trace st @ [Dispatched k mode])"
    using ok_trace_last[of M "sc_trace st"] g(1) unfolding good_point_def run
    by (auto simp: tracked_def)
  then have "tracked M mode ?st"
    using g(1,2) run by (auto simp: tracked_def logged_def ok_trace_snoc unsettled_def)
  then show ?thesis using assms(1)
    by (auto simp: group_ok_def logged_def unsettled_def less_Suc_eq)
qed

definition at_most :: "nat \<Rightarrow> nat \<Rightarrow> nat \<Rightarrow> frame" where
  "at_most n j b = (\<lambda>nx sd a l. nx = n \<and> sd = j \<and> length l \<le> b)"

lemma holds_start_call:
  assumes "k < length grp" and "b < M" and "mode = ExclusiveMode \<Longrightarrow> length grp \<le> 1"
    and "results_of T0 = cite (calls_of T0)"
  shows "holds (\<lambda>st. invar M mode grp T0 k k st \<and> framed (at_most k k b) st)
     (start_call rt turn step mode k (grp ! k))
     (\<lambda>_ st. invar M mode grp T0 (Suc k) (Suc k) st \<and> framed (at_most k (Suc k) (Suc b)) st) (failed_ok M mode grp T0)"
proof -
  let ?P = "\<lambda>st. invar M mode grp T0 k k st \<and> framed (at_most k k b) st"
  let ?L = "\<lambda>sq st. \<exists>st1. ?P st1 \<and> st = logged (CallLogged (grp ! k) sq) st1"
  let ?S = "\<lambda>st. invar M mode grp T0 k (Suc k) st \<and> framed (at_most k (Suc k) b) st"
  let ?E = "failed_ok M mode grp T0"
  have stP: "stable ?P" and stS: "stable ?S" by (intro stable_conj stable_invar stable_framed)+
  have "holds ?P (append_tool_call rt turn step (grp ! k)) ?L ?E" unfolding append_tool_call_def
  proof (rule holds_bindS)
    show "holds ?P (call_rt (rt_append rt (ToolCall turn step (pc_id (grp ! k)) (pc_name (grp ! k)) (pc_arguments (grp ! k))) None None))
        (\<lambda>_. ?P) ?E" by (rule holds_call_rt[OF stP]) (auto dest: invar_failed)
    show "holds ?P (thenS (modifyS (logged (CallLogged (grp ! k) sq))) (returnS sq)) ?L ?E" for sq
      by (rule holds_thenS[where R = "?L sq"], rule holds_modifyS, blast, rule holds_returnS)
  qed
  moreover have "holds (?L sq) (modifyS (\<lambda>st. st\<lparr>sc_call_seqs := (sc_call_seqs st)[k := Some sq],
      sc_started := Suc (sc_started st)\<rparr>)) (\<lambda>_. ?S) ?E" for sq
  proof (rule holds_modifyS)
    fix st assume "?L sq st"
    then obtain st1 where st1: "?P st1" "st = logged (CallLogged (grp ! k) sq) st1" by blast
    then have "sc_started st1 = k" by (simp add: framed_def at_most_def)
    then show "?S (st\<lparr>sc_call_seqs := (sc_call_seqs st)[k := Some sq], sc_started := Suc (sc_started st)\<rparr>)"
      using st1 group_ok_call[OF _ assms(1) _ assms(4), of M mode "sc_committed st1" st1 "Suc k" sq]
      by (simp add: invar_def framed_def at_most_def failing_def logged_def)
  qed
  moreover have "holds ?S (await rt (call_rt (rt_prepare rt (grp ! k)))) (\<lambda>_. ?S) ?E"
    by (rule holds_await[OF holds_call_rt[OF stS] stS stable_failed_ok]) (auto dest: invar_failed)
  moreover have "holds ?S throw_scheduler_failure (\<lambda>_. ?S) ?E"
    by (rule holds_weaken[OF holds_throw_failure[of ?S ?E]]) (auto dest: invar_failed)
  moreover have "holds ?S (modifyS (\<lambda>st :: ('a, 'b) sched. case prepared of
         PrepDispatch \<Rightarrow> logged (Dispatched k mode)
            (st\<lparr>sc_world := rt_dispatch rt (grp ! k) (sc_world st), sc_in_flight := sc_in_flight st @ [(k, False)]\<rparr>)
       | PrepPost r \<Rightarrow> take_slot k \<lparr>sl_result = r, sl_needs_post = True\<rparr> st
       | PrepFinal r \<Rightarrow> take_slot k \<lparr>sl_result = r, sl_needs_post = False\<rparr> st))
     (\<lambda>_ st. invar M mode grp T0 (Suc k) (Suc k) st \<and> framed (at_most k (Suc k) (Suc b)) st) ?E" for prepared
  proof (rule holds_modifyS)
    fix st :: "('a, 'b) sched" assume st: "?S st"
    then have g: "group_ok M mode grp T0 k (Suc k) (sc_committed st) st" "length (sc_in_flight st) < M"
      using assms(2) by (simp_all add: invar_def framed_def at_most_def)
    have d: "group_ok M mode grp T0 (Suc k) (Suc k) (sc_committed st)
        (logged (Dispatched k mode) (st\<lparr>sc_world := w, sc_in_flight := sc_in_flight st @ [(k, False)]\<rparr>))" for w
      by (rule group_ok_dispatch[OF g]) (rule assms(3))
    show "invar M mode grp T0 (Suc k) (Suc k) (case prepared of
         PrepDispatch \<Rightarrow> logged (Dispatched k mode)
            (st\<lparr>sc_world := rt_dispatch rt (grp ! k) (sc_world st), sc_in_flight := sc_in_flight st @ [(k, False)]\<rparr>)
       | PrepPost r \<Rightarrow> take_slot k \<lparr>sl_result = r, sl_needs_post = True\<rparr> st
       | PrepFinal r \<Rightarrow> take_slot k \<lparr>sl_result = r, sl_needs_post = False\<rparr> st)
      \<and> framed (at_most k (Suc k) (Suc b)) (case prepared of
         PrepDispatch \<Rightarrow> logged (Dispatched k mode)
            (st\<lparr>sc_world := rt_dispatch rt (grp ! k) (sc_world st), sc_in_flight := sc_in_flight st @ [(k, False)]\<rparr>)
       | PrepPost r \<Rightarrow> take_slot k \<lparr>sl_result = r, sl_needs_post = True\<rparr> st
       | PrepFinal r \<Rightarrow> take_slot k \<lparr>sl_result = r, sl_needs_post = False\<rparr> st)"
      using st d group_ok_slot[OF g(1)]
      by (cases prepared) (simp_all add: invar_def framed_def at_most_def failing_def logged_def take_slot_def)
  qed
  ultimately show ?thesis unfolding start_call_def by (blast intro: holds_bindS holds_thenS)
qed

definition pool_frame :: "nat \<Rightarrow> nat \<Rightarrow> nat \<Rightarrow> nat \<Rightarrow> bool \<Rightarrow> frame" where
  \<comment> \<open>\<open>mu\<close> bounds the dispatches still to come back; \<open>b\<close> admits the pool that has not started\<close>
  "pool_frame len maxp mu k b = (\<lambda>nx sd a l. nx = k \<and> sd = k \<and> length l \<le> maxp
     \<and> length l + (len - k) \<le> mu \<and> (1 \<le> k \<or> a \<or> (b \<and> l = [])))"

definition pool_ok ::
  "nat \<Rightarrow> tool_mode \<Rightarrow> planned_call list \<Rightarrow> tool_action list \<Rightarrow> nat \<Rightarrow> nat \<Rightarrow> bool \<Rightarrow> ('w, 'e) sched \<Rightarrow> bool" where
  "pool_ok M mode grp T0 maxp mu b st \<longleftrightarrow>
     (\<exists>k. invar M mode grp T0 k k st \<and> framed (pool_frame (length grp) maxp mu k b) st \<and> caught_up k st)"

lemma stable_pool_ok: "stable (pool_ok M mode grp T0 maxp mu b)"
  unfolding pool_ok_def by (intro stable_ex stable_conj stable_invar stable_framed stable_caught_up)

lemma pool_ok_failed: "pool_ok M mode grp T0 maxp mu b st \<Longrightarrow> failed_ok M mode grp T0 st"
  by (auto simp: pool_ok_def dest: invar_failed)

lemma committing_start:
  "invar M mode grp T0 k k st \<Longrightarrow> framed R st \<Longrightarrow> committing M mode grp T0 k k R (sc_committed st) (sc_committed st) st"
  by (simp add: invar_def committing_def)

lemma holds_commit_group:
  assumes "results_of T0 = cite (calls_of T0)"
  shows "holds (\<lambda>st. invar M mode grp T0 k k st \<and> framed R st) (await rt (commit_group rt turn step grp))
     (\<lambda>_ st. invar M mode grp T0 k k st \<and> framed R st \<and> caught_up k st) (failed_ok M mode grp T0)"
proof (rule holds_await)
  show "holds (\<lambda>st. invar M mode grp T0 k k st \<and> framed R st) (commit_group rt turn step grp)
     (\<lambda>_ st. invar M mode grp T0 k k st \<and> framed R st \<and> caught_up k st) (failed_ok M mode grp T0)"
    unfolding holds_def commit_group_def
  proof (intro allI impI)
    fix st :: "('a, 'b) sched"
    assume "invar M mode grp T0 k k st \<and> framed R st"
    then have "committing M mode grp T0 k k R (sc_committed st) (sc_committed st) st" by (simp add: committing_start)
    with holds_commit_ready[OF assms refl, of M mode grp k k R "sc_committed st" rt turn step, unfolded holds_def, rule_format]
    show "case commit_ready rt turn step (drop (sc_committed st) grp) st of
        (Inr x, st') \<Rightarrow> invar M mode grp T0 k k st' \<and> framed R st' \<and> caught_up k st' | (Inl _, st') \<Rightarrow> failed_ok M mode grp T0 st'" .
  qed
qed (intro stable_conj stable_invar stable_framed stable_caught_up stable_failed_ok)+

lemma holds_fill_pool:
  assumes "maxp \<le> M" and "1 \<le> maxp" and "mode = ExclusiveMode \<Longrightarrow> length grp \<le> 1" and "grp \<noteq> []"
    and "results_of T0 = cite (calls_of T0)" and "cs = drop k grp"
  shows "holds (\<lambda>st. invar M mode grp T0 k k st \<and> framed (pool_frame (length grp) maxp mu k True) st \<and> caught_up k st)
     (fill_pool rt turn step mode maxp grp cs) (\<lambda>_. pool_ok M mode grp T0 maxp mu False) (failed_ok M mode grp T0)"
  using assms(6)
proof (induction cs arbitrary: k)
  case Nil
  then have "length grp \<le> k" by simp
  then have "1 \<le> k" using assms(4) by (cases grp) auto
  then show ?case unfolding fill_pool.simps
    by (intro holds_returnS) (auto simp: pool_ok_def framed_def pool_frame_def)
next
  case (Cons d cs)
  have d: "d = grp ! k" "cs = drop (Suc k) grp" "k < length grp"
    using Cons.prems by (metis nth_via_drop, metis drop_Suc list.sel(3) tl_drop, metis drop_eq_Nil2 leI list.distinct(1))
  let ?E = "failed_ok M mode grp T0"
  let ?F = "pool_frame (length grp) maxp mu"
  let ?I = "invar M mode grp T0"
  let ?A = "\<lambda>b st. ?I k k st \<and> framed (at_most k k b) st"
  let ?B = "\<lambda>b st. ?I (Suc k) (Suc k) st \<and> framed (at_most k (Suc k) (Suc b)) st"
  let ?N = "\<lambda>b st. ?I (Suc k) (Suc k) st \<and> framed (?F (Suc k) True) st"
  have body: "holds (?A b) (thenS (await rt (start_call rt turn step mode k (grp ! k)))
          (thenS (modifyS (\<lambda>st. st\<lparr>sc_next := Suc (sc_next st)\<rparr>))
          (thenS throw_scheduler_failure
          (thenS (await rt (commit_group rt turn step grp))
          (thenS throw_scheduler_failure
          (thenS (modifyS (check_abort rt))
                 (fill_pool rt turn step mode maxp grp cs)))))))
        (\<lambda>_. pool_ok M mode grp T0 maxp mu False) ?E"
    if b: "b < maxp" "b + (length grp - k) \<le> mu" for b
  proof -
    have "holds (?A b) (await rt (start_call rt turn step mode k (grp ! k))) (\<lambda>_. ?B b) ?E"
      by (intro holds_await holds_start_call stable_conj stable_invar stable_framed stable_failed_ok)
         (use assms d(3) b in simp_all)
    moreover have "holds (?B b) (modifyS (\<lambda>st. st\<lparr>sc_next := Suc (sc_next st)\<rparr>)) (\<lambda>_. ?N b) ?E"
    proof (rule holds_modifyS)
      fix st assume "?B b st"
      then show "?N b (st\<lparr>sc_next := Suc (sc_next st)\<rparr>)"
        using b d(3) by (auto simp: framed_def at_most_def pool_frame_def invar_def group_ok_def tracked_def failing_def unsettled_def)
    qed
    moreover have "holds (?N b) throw_scheduler_failure (\<lambda>_. ?N b) ?E"
      by (rule holds_weaken[OF holds_throw_failure[of "?N b" ?E]]) (auto dest: invar_failed)
    moreover have "holds (?N b) (await rt (commit_group rt turn step grp)) (\<lambda>_ st. ?I (Suc k) (Suc k) st
        \<and> framed (?F (Suc k) True) st \<and> caught_up (Suc k) st) ?E"
      by (rule holds_commit_group[OF assms(5)])
    moreover have "holds (\<lambda>st. ?I (Suc k) (Suc k) st \<and> framed (?F (Suc k) True) st \<and> caught_up (Suc k) st) throw_scheduler_failure
        (\<lambda>_ st. ?I (Suc k) (Suc k) st \<and> framed (?F (Suc k) True) st \<and> caught_up (Suc k) st) ?E"
      by (rule holds_weaken[OF holds_throw_failure[of "\<lambda>st. ?I (Suc k) (Suc k) st \<and> framed (?F (Suc k) True) st \<and> caught_up (Suc k) st" ?E]])
         (auto dest: invar_failed)
    moreover have "holds (\<lambda>st. ?I (Suc k) (Suc k) st \<and> framed (?F (Suc k) True) st \<and> caught_up (Suc k) st) (modifyS (check_abort rt))
        (\<lambda>_ st. ?I (Suc k) (Suc k) st \<and> framed (?F (Suc k) True) st \<and> caught_up (Suc k) st) ?E"
      by (rule holds_modifyS) (auto simp: check_abort_def framed_def pool_frame_def invar_def group_ok_def tracked_def
          failing_def unsettled_def caught_up_def)
    ultimately show ?thesis using Cons.IH[OF d(2)] by (blast intro: holds_thenS)
  qed
  show ?case
  proof (unfold holds_def, intro allI impI)
    fix st :: "('a, 'b) sched"
    assume st: "?I k k st \<and> framed (?F k True) st \<and> caught_up k st"
    then have nx: "sc_next st = k" by (simp add: framed_def pool_frame_def)
    show "case fill_pool rt turn step mode maxp grp (d # cs) st of
        (Inr x, st') \<Rightarrow> pool_ok M mode grp T0 maxp mu False st' | (Inl _, st') \<Rightarrow> ?E st'"
    proof (cases "(sc_aborted st \<or> \<not> length (sc_in_flight st) < maxp) \<or>
        0 < sc_next st \<and> mode = ParallelMode \<and> rt_mode rt d (sc_world st) \<noteq> ParallelMode")
      case True
      have "framed (?F k False) st" using st True assms(2) by (auto simp: framed_def pool_frame_def)
      then show ?thesis using st True by (auto simp: pool_ok_def)
    next
      case False
      let ?b = "length (sc_in_flight st)"
      have b: "?b < maxp" "?b + (length grp - k) \<le> mu" using False st by (auto simp: framed_def pool_frame_def)
      have "?A ?b st" using st by (simp add: framed_def pool_frame_def at_most_def)
      with body[OF b] show ?thesis unfolding holds_def fill_pool.simps nx d(1)[symmetric] if_not_P
        using False nx by (auto simp: d(1)[symmetric])
    qed
  qed
qed

lemma holds_exists:
  assumes "\<And>k. holds (P k) f Q E"
  shows "holds (\<lambda>st. \<exists>k. P k st) f Q E"
proof (unfold holds_def, intro allI impI, elim exE)
  fix st k assume "P k st"
  from assms[of k, unfolded holds_def, rule_format, OF this]
  show "case f st of (Inr x, st') \<Rightarrow> Q x st' | (Inl _, st') \<Rightarrow> E st'" .
qed

lemma holds_fill_group:
  assumes "maxp \<le> M" and "1 \<le> maxp" and "mode = ExclusiveMode \<Longrightarrow> length grp \<le> 1" and "grp \<noteq> []"
    and "results_of T0 = cite (calls_of T0)"
  shows "holds (pool_ok M mode grp T0 maxp mu True) (fill_group rt turn step mode maxp grp)
     (\<lambda>_. pool_ok M mode grp T0 maxp mu False) (failed_ok M mode grp T0)"
  unfolding fill_group_def
proof (rule holds_await[OF _ stable_pool_ok stable_failed_ok])
  have "holds (\<lambda>st. invar M mode grp T0 k k st \<and> framed (pool_frame (length grp) maxp mu k True) st \<and> caught_up k st)
      (\<lambda>st. fill_pool rt turn step mode maxp grp (drop (sc_next st) grp) st)
      (\<lambda>_. pool_ok M mode grp T0 maxp mu False) (failed_ok M mode grp T0)" for k
    unfolding holds_def
  proof (intro allI impI)
    fix st :: "('a, 'b) sched"
    assume st: "invar M mode grp T0 k k st \<and> framed (pool_frame (length grp) maxp mu k True) st \<and> caught_up k st"
    then have "sc_next st = k" by (simp add: framed_def pool_frame_def)
    with holds_fill_pool[OF assms refl, where k = k and mu = mu and rt = rt and turn = turn and step = step,
        unfolded holds_def, rule_format, OF _ st]
    show "case fill_pool rt turn step mode maxp grp (drop (sc_next st) grp) st of
        (Inl e, st') \<Rightarrow> failed_ok M mode grp T0 st' | (Inr x, st') \<Rightarrow> pool_ok M mode grp T0 maxp mu False st'"
      using assms(1-3) by simp
  qed
  then show "holds (pool_ok M mode grp T0 maxp mu True) (\<lambda>st. fill_pool rt turn step mode maxp grp (drop (sc_next st) grp) st)
      (\<lambda>_. pool_ok M mode grp T0 maxp mu False) (failed_ok M mode grp T0)"
    unfolding pool_ok_def[of M mode grp T0 maxp mu True] by (rule holds_exists)
qed

section \<open>Racing and draining\<close>

lemma settled_settle: "(i, True) \<in> set (sc_in_flight st) \<Longrightarrow> (i, True) \<in> set (sc_in_flight (settle st x))"
  by (cases x; cases "snd x") (force simp: settle_def logged_def Let_def)+

lemma stable_settled: "stable (\<lambda>st. (i, True) \<in> set (sc_in_flight st))"
  by (simp add: stable_def settled_settle)

lemma settle_settles:
  assumes "i \<in> set (unsettled st)"
  shows "(i, True) \<in> set (sc_in_flight (settle st (i, r)))"
proof -
  obtain b where "(i, b) \<in> set (sc_in_flight st)" using assms by (auto simp: unsettled_def)
  then show ?thesis using assms by (cases r) (force simp: settle_def logged_def Let_def)+
qed

lemma settle_next_spec:
  assumes "settle_next rt st = (i, st')" and "unsettled st \<noteq> []"
  shows "\<exists>w r. i \<in> set (unsettled st) \<and> st' = settle (st\<lparr>sc_world := w\<rparr>) (i, r)"
  using assms by (auto simp: settle_next_def Let_def split: prod.splits)

definition racing ::
  "nat \<Rightarrow> tool_mode \<Rightarrow> planned_call list \<Rightarrow> tool_action list \<Rightarrow> nat \<Rightarrow> nat \<Rightarrow> nat \<Rightarrow> ('w, 'e) sched \<Rightarrow> bool" where
  \<comment> \<open>dispatch \<open>i\<close> has settled and is still in the map\<close>
  "racing M mode grp T0 maxp mu i st \<longleftrightarrow> (\<exists>k. invar M mode grp T0 k k st
     \<and> framed (pool_frame (length grp) maxp mu k False) st \<and> (i, True) \<in> set (sc_in_flight st))"

lemma stable_racing: "stable (racing M mode grp T0 maxp mu i)"
  unfolding racing_def by (intro stable_ex stable_conj stable_invar stable_framed stable_settled)

lemma holds_race:
  "holds (\<lambda>st. pool_ok M mode grp T0 maxp mu False st \<and> sc_in_flight st \<noteq> []) (race rt)
     (racing M mode grp T0 maxp mu) (failed_ok M mode grp T0)"
  unfolding holds_def
proof (intro allI impI)
  fix st :: "('a, 'b) sched"
  assume st: "pool_ok M mode grp T0 maxp mu False st \<and> sc_in_flight st \<noteq> []"
  then obtain k where k: "invar M mode grp T0 k k st" "framed (pool_frame (length grp) maxp mu k False) st"
    by (auto simp: pool_ok_def)
  show "case race rt st of (Inr i, st') \<Rightarrow> racing M mode grp T0 maxp mu i st' | (Inl _, st') \<Rightarrow> failed_ok M mode grp T0 st'"
  proof (cases "List.find snd (sc_in_flight st)")
    case None
    then have "\<forall>p \<in> set (sc_in_flight st). \<not> snd p" by (metis find_None_iff)
    then have ne: "unsettled st \<noteq> []" using st by (cases "sc_in_flight st") (auto simp: unsettled_def)
    obtain i st' where next': "settle_next rt st = (i, st')" by fastforce
    obtain w r where i: "i \<in> set (unsettled st)" "st' = settle (st\<lparr>sc_world := w\<rparr>) (i, r)"
      using settle_next_spec[OF next' ne] by blast
    have base: "stable (\<lambda>st. invar M mode grp T0 k k st \<and> framed (pool_frame (length grp) maxp mu k False) st)"
      by (intro stable_conj stable_invar stable_framed)
    then have "invar M mode grp T0 k k st' \<and> framed (pool_frame (length grp) maxp mu k False) st'"
      using k unfolding i(2) stable_def by blast
    moreover have "(i, True) \<in> set (sc_in_flight st')" unfolding i(2) by (rule settle_settles) (simp add: i(1))
    ultimately have "racing M mode grp T0 maxp mu i st'" by (auto simp: racing_def)
    then show ?thesis using None next' stable_paused[OF stable_racing] by (simp add: race_def)
  next
    case (Some p)
    then have "racing M mode grp T0 maxp mu (fst p) st"
      using k find_SomeD[OF Some] by (cases p) (auto simp: racing_def)
    then show ?thesis using Some stable_paused[OF stable_racing] by (cases p) (simp add: race_def)
  qed
qed

lemma remove_flight_ok:
  assumes "racing M mode grp T0 maxp (Suc mu) i st"
  shows "\<exists>k. group_ok M mode grp T0 k k (sc_committed st) (remove_flight i st)
    \<and> framed (pool_frame (length grp) maxp mu k False) (remove_flight i st)"
proof -
  obtain k where k: "invar M mode grp T0 k k st" "framed (pool_frame (length grp) maxp (Suc mu) k False) st"
      "(i, True) \<in> set (sc_in_flight st)" using assms by (auto simp: racing_def)
  have "distinct (map fst (sc_in_flight st))" using k(1) by (simp add: invar_def group_ok_def tracked_def)
  then have only: "p = (i, True)" if "p \<in> set (sc_in_flight st)" "fst p = i" for p
    using that k(3) by (metis eq_key_imp_eq_value prod.collapse)
  have "filter (\<lambda>p. \<not> snd p) (filter (\<lambda>p. fst p \<noteq> i) (sc_in_flight st)) = filter (\<lambda>p. \<not> snd p) (sc_in_flight st)"
    unfolding filter_filter by (rule filter_cong) (use only in force)+
  then have un: "unsettled (remove_flight i st) = unsettled st" by (simp add: unsettled_def remove_flight_def)
  have "length (filter (\<lambda>p. fst p \<noteq> i) (sc_in_flight st)) < length (sc_in_flight st)"
    using k(3) by (rule length_filter_less) simp
  then have "framed (pool_frame (length grp) maxp mu k False) (remove_flight i st)"
    using k(2) by (auto simp: framed_def pool_frame_def remove_flight_def)
  moreover have "tracked M mode (remove_flight i st)"
    using k(1) un by (auto simp: invar_def group_ok_def tracked_def distinct_map_filter) (simp_all add: remove_flight_def distinct_map_filter)
  then have "group_ok M mode grp T0 k k (sc_committed st) (remove_flight i st)"
    using k(1) un unfolding invar_def group_ok_def by (auto simp: remove_flight_def)
  ultimately show ?thesis by blast
qed

lemma group_ok_failing_None: "group_ok M mode grp T0 k k (sc_committed st) st \<Longrightarrow> sc_failure st = None \<Longrightarrow> invar M mode grp T0 k k st"
  by (simp add: invar_def failing_def)

lemma check_abort_ok: "pool_ok M mode grp T0 maxp mu False st \<Longrightarrow> pool_ok M mode grp T0 maxp mu True (check_abort rt st)"
  by (auto simp: pool_ok_def check_abort_def framed_def pool_frame_def invar_def group_ok_def tracked_def
      failing_def unsettled_def caught_up_def)

lemma holds_round:
  assumes "maxp \<le> M" and "1 \<le> maxp" and "mode = ExclusiveMode \<Longrightarrow> length grp \<le> 1" and "grp \<noteq> []"
    and "results_of T0 = cite (calls_of T0)"
  shows "holds (\<lambda>st. pool_ok M mode grp T0 maxp (Suc mu) False st \<and> sc_in_flight st \<noteq> [])
     (bindS (race rt) (\<lambda>i. thenS (modifyS (remove_flight i))
            (thenS throw_scheduler_failure
            (thenS (await rt (commit_group rt turn step grp))
            (thenS throw_scheduler_failure
            (thenS (modifyS (check_abort rt))
                   (fill_group rt turn step mode maxp grp)))))))
     (\<lambda>_. pool_ok M mode grp T0 maxp mu False) (failed_ok M mode grp T0)"
proof (rule holds_bindS[OF holds_race])
  fix i
  let ?F = "\<lambda>k. framed (pool_frame (length grp) maxp mu k False)"
  let ?A = "\<lambda>st. \<exists>k. group_ok M mode grp T0 k k (sc_committed st) st \<and> ?F k st"
  let ?E = "failed_ok M mode grp T0"
  let ?P = "pool_ok M mode grp T0 maxp mu"
  have remove: "holds (racing M mode grp T0 maxp (Suc mu) i) (modifyS (remove_flight i)) (\<lambda>_. ?A) ?E"
    by (rule holds_modifyS) (use remove_flight_ok in \<open>force simp: remove_flight_def\<close>)
  have check: "holds ?A throw_scheduler_failure (\<lambda>_ st. \<exists>k. invar M mode grp T0 k k st \<and> ?F k st) ?E"
    by (rule holds_weaken[OF holds_throw_failure[of ?A ?E]]) (auto dest: group_ok_failed group_ok_failing_None)
  have commit: "holds (\<lambda>st. \<exists>k. invar M mode grp T0 k k st \<and> ?F k st) (await rt (commit_group rt turn step grp)) (\<lambda>_. ?P False) ?E"
  proof (rule holds_exists)
    show "holds (\<lambda>st. invar M mode grp T0 k k st \<and> ?F k st) (await rt (commit_group rt turn step grp)) (\<lambda>_. ?P False) ?E" for k
      by (rule holds_weaken[OF holds_commit_group[OF assms(5), where R = "pool_frame (length grp) maxp mu k False"]])
        (auto simp: pool_ok_def)
  qed
  have again: "holds (?P False) throw_scheduler_failure (\<lambda>_. ?P False) ?E"
    by (rule holds_weaken[OF holds_throw_failure[of "?P False" ?E]]) (auto dest: pool_ok_failed)
  have abort: "holds (?P False) (modifyS (check_abort rt)) (\<lambda>_. ?P True) ?E"
    by (rule holds_modifyS) (rule check_abort_ok)
  show "holds (racing M mode grp T0 maxp (Suc mu) i) (thenS (modifyS (remove_flight i))
            (thenS throw_scheduler_failure
            (thenS (await rt (commit_group rt turn step grp))
            (thenS throw_scheduler_failure
            (thenS (modifyS (check_abort rt))
                   (fill_group rt turn step mode maxp grp))))))
     (\<lambda>_. ?P False) ?E"
    by (intro holds_thenS[OF remove] holds_thenS[OF check] holds_thenS[OF commit] holds_thenS[OF again]
        holds_thenS[OF abort] holds_fill_group assms)
qed

lemma race_loop_spec:
  assumes "maxp \<le> M" and "1 \<le> maxp" and "mode = ExclusiveMode \<Longrightarrow> length grp \<le> 1" and "grp \<noteq> []"
    and "results_of T0 = cite (calls_of T0)" and "pool_ok M mode grp T0 maxp n False st"
  shows "\<exists>r st'. race_loop rt turn step mode maxp grp n st = Some (r, st') \<and>
    (case r of Inr _ \<Rightarrow> sc_in_flight st' = [] \<and> (\<exists>mu. pool_ok M mode grp T0 maxp mu False st')
     | Inl _ \<Rightarrow> failed_ok M mode grp T0 st')"
  using assms(6)
proof (induction n arbitrary: st)
  case 0
  then have "sc_in_flight st = []" by (auto simp: pool_ok_def framed_def pool_frame_def)
  then show ?case using 0 by auto
next
  case (Suc n)
  let ?round = "bindS (race rt) (\<lambda>i. thenS (modifyS (remove_flight i))
            (thenS throw_scheduler_failure
            (thenS (await rt (commit_group rt turn step grp))
            (thenS throw_scheduler_failure
            (thenS (modifyS (check_abort rt))
                   (fill_group rt turn step mode maxp grp))))))"
  show ?case
  proof (cases "sc_in_flight st = []")
    case True
    then show ?thesis using Suc.prems by auto
  next
    case False
    obtain r st' where round: "?round st = (r, st')" by fastforce
    note spec = holds_round[OF assms(1-5), of mode n rt turn step, unfolded holds_def, rule_format, of st, unfolded round]
    show ?thesis
    proof (cases r)
      case (Inl e)
      then show ?thesis using spec Suc.prems False round by simp
    next
      case (Inr u)
      then have "pool_ok M mode grp T0 maxp n False st'" using spec Suc.prems False by simp
      from Suc.IH[OF this] show ?thesis using round Inr False by simp
    qed
  qed
qed

lemma drain_spec:
  assumes "stable Q" and "Q st" and "length (unsettled st) \<le> n"
  shows "Q (drain rt n st) \<and> unsettled (drain rt n st) = []"
  using assms(2,3)
proof (induction n arbitrary: st)
  case (Suc n)
  show ?case
  proof (cases "unsettled st = []")
    case False
    obtain i st' where next': "settle_next rt st = (i, st')" by fastforce
    obtain w r where i: "i \<in> set (unsettled st)" "st' = settle (st\<lparr>sc_world := w\<rparr>) (i, r)"
      using settle_next_spec[OF next' False] by blast
    have "Q st'" using assms(1) Suc.prems(1) unfolding i(2) stable_def by blast
    moreover have "length (unsettled st') < length (unsettled st)"
      unfolding i(2) settle_unsettled by (simp add: length_filter_less[OF i(1)])
    ultimately show ?thesis using Suc.IH[of st'] Suc.prems(2) next' False by simp
  qed (use Suc in simp)
qed simp

lemma drained_spec:
  assumes "failed_ok M mode grp T0 st" and "drained rt e st = (f, st')"
  shows "failed_ok M mode grp T0 st' \<and> unsettled st' = []"
proof -
  let ?st = "st\<lparr>sc_failure := (case sc_failure st of None \<Rightarrow> Some e | Some f \<Rightarrow> Some f)\<rparr>"
  have "failed_ok M mode grp T0 ?st" using assms(1) by (simp add: failed_ok_def tracked_def unsettled_def)
  from drain_spec[OF stable_failed_ok this order_refl, of rt] show ?thesis
    using assms(2) by (auto simp: drained_def Let_def)
qed

section \<open>Groups and steps\<close>

definition balanced :: "nat \<Rightarrow> planned_call list \<Rightarrow> tool_action list \<Rightarrow> nat \<Rightarrow> tool_action list \<Rightarrow> bool" where
  \<comment> \<open>nothing runs and each of the first \<open>j\<close> calls has its result, in model order\<close>
  "balanced M grp T0 j T \<longleftrightarrow> ok_trace M T \<and> running T = [] \<and> results_of T = cite (calls_of T)
     \<and> (\<exists>qs. length qs = j \<and> calls_of T = calls_of T0 @ zip (take j grp) qs)"

definition broken :: "nat \<Rightarrow> planned_call list \<Rightarrow> tool_action list \<Rightarrow> tool_action list \<Rightarrow> bool" where
  \<comment> \<open>after a throw: nothing runs, and calls were logged in model order\<close>
  "broken M grp T0 T \<longleftrightarrow> ok_trace M T \<and> running T = []
     \<and> (\<exists>qs. length qs \<le> length grp \<and> calls_of T = calls_of T0 @ zip (take (length qs) grp) qs)"

lemma balanced_broken: "balanced M grp T0 j T \<Longrightarrow> j \<le> length grp \<Longrightarrow> broken M grp T0 T"
  by (auto simp: balanced_def broken_def)

lemma balanced_call:
  assumes "balanced M grp T0 j T" and "j < length grp"
  shows "broken M grp T0 (T @ [CallLogged (grp ! j) sq])"
    and "balanced M grp T0 (Suc j) (T @ [CallLogged (grp ! j) sq, ResultLogged (grp ! j) r (Some sq)])"
proof -
  obtain qs where qs: "length qs = j" "calls_of T = calls_of T0 @ zip (take j grp) qs"
    using assms(1) by (auto simp: balanced_def)
  have T: "ok_trace M T" "running T = []" "results_of T = cite (calls_of T)" using assms(1) by (simp_all add: balanced_def)
  have zip: "zip (take (Suc j) grp) (qs @ [sq]) = zip (take j grp) qs @ [(grp ! j, sq)]"
    using assms(2) qs(1) by (simp add: take_Suc_conv_app_nth)
  have call: "ok_trace M (T @ [CallLogged (grp ! j) sq])"
    using T by (simp add: ok_trace_snoc good_point_def)
  then show "broken M grp T0 (T @ [CallLogged (grp ! j) sq])"
    unfolding broken_def using T qs zip assms(2) by (auto intro!: exI[of _ "qs @ [sq]"])
  let ?T = "T @ [CallLogged (grp ! j) sq, ResultLogged (grp ! j) r (Some sq)]"
  have parts: "results_of ?T = cite (calls_of T @ [(grp ! j, sq)])" "calls_of ?T = calls_of T @ [(grp ! j, sq)]" "running ?T = []"
    using T(2,3) results_of_snoc(2)[of "T @ [CallLogged (grp ! j) sq]"] calls_of_snoc(2)[of "T @ [CallLogged (grp ! j) sq]"]
    by (simp_all add: cite_def running_def)
  have "ok_trace M ?T" using call ok_trace_snoc[of M "T @ [CallLogged (grp ! j) sq]"] parts by (simp add: good_point_def)
  then show "balanced M grp T0 (Suc j) ?T"
    unfolding balanced_def using parts qs zip by (auto intro!: exI[of _ "qs @ [sq]"])
qed

lemma append_skipped_run:
  assumes "append_skipped rt turn step c st = (r, st')"
  shows "case r of
       Inr _ \<Rightarrow> \<exists>sq. sc_trace st' = sc_trace st @ [CallLogged c sq, ResultLogged c aborted_before_dispatch (Some sq)]
     | Inl _ \<Rightarrow> sc_trace st' = sc_trace st \<or> (\<exists>sq. sc_trace st' = sc_trace st @ [CallLogged c sq])"
  using assms
  by (auto simp: append_skipped_def append_tool_call_def append_tool_result_def bindS_def thenS_def call_rt_def
      modifyS_def returnS_def logged_def split: prod.splits sum.splits)

lemma skip_rest:
  assumes "balanced M grp T0 j (sc_trace st)" and "cs = drop j grp" and "j \<le> length grp"
  shows "case each (append_skipped rt turn step) cs st of
      (Inr _, st') \<Rightarrow> balanced M grp T0 (length grp) (sc_trace st')
    | (Inl _, st') \<Rightarrow> broken M grp T0 (sc_trace st')"
  using assms
proof (induction cs arbitrary: j st)
  case Nil
  then show ?case by (simp add: returnS_def)
next
  case (Cons d cs)
  have d: "d = grp ! j" "cs = drop (Suc j) grp" "j < length grp"
    using Cons.prems(2) by (metis nth_via_drop, metis drop_Suc list.sel(3) tl_drop, metis drop_eq_Nil2 leI list.distinct(1))
  obtain r st1 where run: "append_skipped rt turn step d st = (r, st1)" by fastforce
  show ?case
  proof (cases r)
    case (Inl e)
    then show ?thesis
      using append_skipped_run[OF run] balanced_broken[OF Cons.prems(1,3)] balanced_call(1)[OF Cons.prems(1) d(3)] d(1) run
      by (auto simp: thenS_def bindS_def)
  next
    case (Inr u)
    then have "balanced M grp T0 (Suc j) (sc_trace st1)"
      using append_skipped_run[OF run] balanced_call(2)[OF Cons.prems(1) d(3)] d(1) by auto
    from Cons.IH[OF this d(2)] d(3) Inr show ?thesis by (simp add: thenS_def bindS_def run)
  qed
qed

lemma open_group_ok:
  assumes "balanced M grp0 T00 j0 (sc_trace st)" and "1 \<le> maxp"
  shows "pool_ok M mode grp (sc_trace st) maxp (length grp) True (open_group rt (length grp) st)"
  using assms
  by (auto simp: pool_ok_def invar_def group_ok_def tracked_def balanced_def failing_def framed_def pool_frame_def
      caught_up_def open_group_def unsettled_def cite_def intro!: exI[of _ 0])

lemma pool_done:
  assumes "pool_ok M mode grp T0 maxp mu False st" and "sc_in_flight st = []" and "results_of T0 = cite (calls_of T0)"
  shows "balanced M grp T0 (sc_started st) (sc_trace st)" and "sc_committed st = sc_started st"
    and "sc_started st \<le> length grp" and "1 \<le> sc_started st \<or> sc_aborted st"
proof -
  obtain k where k: "invar M mode grp T0 k k st" "framed (pool_frame (length grp) maxp mu k False) st" "caught_up k st"
    using assms(1) by (auto simp: pool_ok_def)
  have "sc_failure st = None" using k(1) assms(2) by (auto simp: invar_def failing_def)
  then have c: "sc_committed st = k" "sc_started st = k" "1 \<le> k \<or> sc_aborted st"
    using k(2,3) assms(2) by (auto simp: caught_up_def framed_def pool_frame_def)
  have g: "group_ok M mode grp T0 k k k st" using k(1) c(1) by (simp add: invar_def)
  show "sc_committed st = sc_started st" "1 \<le> sc_started st \<or> sc_aborted st" using c by simp_all
  show "sc_started st \<le> length grp" using g c by (simp add: group_ok_def)
  obtain qs where qs: "length qs = k" "calls_of (sc_trace st) = calls_of T0 @ zip (take k grp) qs"
    "results_of (sc_trace st) = results_of T0 @ cite (take k (zip (take k grp) qs))"
    using g by (auto simp: group_ok_def)
  have "unsettled st = []" using assms(2) by (simp add: unsettled_def)
  then show "balanced M grp T0 (sc_started st) (sc_trace st)"
    using g qs assms(3) c(2) by (auto simp: balanced_def group_ok_def tracked_def)
qed

lemma failed_broken: "failed_ok M mode grp T0 st \<Longrightarrow> unsettled st = [] \<Longrightarrow> broken M grp T0 (sc_trace st)"
  by (auto simp: failed_ok_def broken_def tracked_def)

lemma run_group_spec:
  assumes "balanced M grp0 T00 j0 (sc_trace st0)" and "1 \<le> rt_max_parallel rt (sc_world st0)"
    and "rt_max_parallel rt (sc_world st0) \<le> M" and "grp \<noteq> []" and "mode = ExclusiveMode \<Longrightarrow> length grp \<le> 1"
  shows "\<exists>r st. run_group rt turn step grp mode st0 = Some (r, st) \<and> (case r of
      Inr out \<Rightarrow> balanced M grp (sc_trace st0) (go_consumed out) (sc_trace st) \<and> 1 \<le> go_consumed out
         \<and> go_consumed out \<le> length grp \<and> (go_aborted out \<longrightarrow> go_consumed out = length grp)
    | Inl e \<Rightarrow> e \<noteq> UncommittedCalls \<and> broken M grp (sc_trace st0) (sc_trace st))"
proof -
  let ?maxp = "rt_max_parallel rt (sc_world st0)" and ?T0 = "sc_trace st0"
  have R: "results_of ?T0 = cite (calls_of ?T0)" using assms(1) by (simp add: balanced_def)
  note cond = assms(3,2,5,4) R
  let ?st = "open_group rt (length grp) st0"
  define outcome where "outcome = (case fill_group rt turn step mode ?maxp grp ?st of
              (Inl e, st') \<Rightarrow> Some (Inl e, st')
            | (Inr _, st') \<Rightarrow> race_loop rt turn step mode ?maxp grp (length grp) st')"
  have "\<exists>r st'. outcome = Some (r, st') \<and>
    (case r of Inr _ \<Rightarrow> sc_in_flight st' = [] \<and> (\<exists>mu. pool_ok M mode grp ?T0 ?maxp mu False st')
     | Inl _ \<Rightarrow> failed_ok M mode grp ?T0 st')"
  proof -
    obtain r st' where fill: "fill_group rt turn step mode ?maxp grp ?st = (r, st')" by fastforce
    note spec = holds_fill_group[OF cond, of mode "length grp" rt turn step, unfolded holds_def, rule_format,
        of ?st, OF _ open_group_ok[OF assms(1,2)], unfolded fill]
    show ?thesis
    proof (cases r)
      case (Inl e)
      then show ?thesis using spec fill by (simp add: outcome_def)
    next
      case (Inr u)
      then have "pool_ok M mode grp ?T0 ?maxp (length grp) False st'" using spec by simp
      from race_loop_spec[OF cond(1,2) _ cond(4,5) this, of rt turn step] show ?thesis
        using cond(3) fill Inr by (simp add: outcome_def)
    qed
  qed
  then obtain r st' where out: "outcome = Some (r, st')" and spec: "case r of
      Inr _ \<Rightarrow> sc_in_flight st' = [] \<and> (\<exists>mu. pool_ok M mode grp ?T0 ?maxp mu False st')
    | Inl _ \<Rightarrow> failed_ok M mode grp ?T0 st'" by blast
  have run: "run_group rt turn step grp mode st0 = (case outcome of
        None \<Rightarrow> None
      | Some (Inl e, st') \<Rightarrow> (case drained rt e st' of (f, st'') \<Rightarrow> Some (Inl (Thrown f), st''))
      | Some (Inr _, st') \<Rightarrow>
          if sc_aborted st'
          then (case each (append_skipped rt turn step) (drop (sc_started st') grp) st' of
                  (Inl e, st'') \<Rightarrow> Some (Inl (Thrown e), st'')
                | (Inr _, st'') \<Rightarrow>
                    Some (Inr \<lparr>go_consumed = length grp, go_aborted = True, go_concluded = sc_concluded st'\<rparr>, st''))
          else if sc_committed st' \<noteq> sc_started st' then Some (Inl UncommittedCalls, st')
          else Some (Inr \<lparr>go_consumed = sc_started st', go_aborted = False, go_concluded = sc_concluded st'\<rparr>, st'))"
    by (simp add: run_group_def outcome_def Let_def)
  show ?thesis
  proof (cases r)
    case (Inl e)
    obtain f st'' where d: "drained rt e st' = (f, st'')" by fastforce
    have "broken M grp ?T0 (sc_trace st'')"
      using drained_spec[OF _ d] spec Inl failed_broken by fastforce
    then show ?thesis unfolding run out Inl using d by simp
  next
    case (Inr u)
    then obtain mu where pool: "pool_ok M mode grp ?T0 ?maxp mu False st'" and empty: "sc_in_flight st' = []"
      using spec by auto
    note fin = pool_done[OF pool empty R]
    show ?thesis
    proof (cases "sc_aborted st'")
      case True
      obtain x st'' where s: "each (append_skipped rt turn step) (drop (sc_started st') grp) st' = (x, st'')" by fastforce
      show ?thesis using skip_rest[OF fin(1) refl fin(3), of rt turn step] assms(4) unfolding run out Inr s
        by (cases x) (simp_all add: True s Suc_le_eq)
    next
      case False
      then show ?thesis unfolding run out Inr using fin by simp
    qed
  qed
qed

lemma calls_compose:
  assumes "calls_of T = zip (take j all) qs" and "length qs = j" and "calls_of T' = calls_of T @ zip (take k grp) qs'"
    and "length qs' = k" and "take k grp = take k (drop j all)" and "j \<le> length all"
  shows "calls_of T' = zip (take (j + k) all) (qs @ qs')"
  using assms by (simp add: take_add zip_append)

lemma balanced_compose:
  assumes "balanced M all [] j T" and "balanced M grp T k T'" and "take k grp = take k (drop j all)" and "j \<le> length all"
  shows "balanced M all [] (j + k) T'"
proof -
  obtain qs qs' where "length qs = j" "calls_of T = zip (take j all) qs" "length qs' = k"
      "calls_of T' = calls_of T @ zip (take k grp) qs'"
    using assms(1,2) by (auto simp: balanced_def calls_of_def List.map_filter_simps)
  from calls_compose[OF this(2,1,4,3) assms(3,4)] show ?thesis
    using assms(2) \<open>length qs = j\<close> \<open>length qs' = k\<close>
    by (auto simp: balanced_def calls_of_def[of "[]"] List.map_filter_simps intro!: exI[of _ "qs @ qs'"])
qed

lemma broken_compose:
  assumes "balanced M all [] j T" and "broken M grp T T'" and "grp = take (length grp) (drop j all)" and "j \<le> length all"
  shows "broken M all [] T'"
proof -
  obtain qs qs' where q: "length qs = j" "calls_of T = zip (take j all) qs" "length qs' \<le> length grp"
      "calls_of T' = calls_of T @ zip (take (length qs') grp) qs'"
    using assms(1,2) by (auto simp: balanced_def broken_def calls_of_def List.map_filter_simps)
  have "take (length qs') grp = take (length qs') (drop j all)"
    using q(3) assms(3) by (metis min.absorb1 take_take)
  from calls_compose[OF q(2,1,4) refl this assms(4)]
  have "calls_of T' = zip (take (length (qs @ qs')) all) (qs @ qs')" by (simp add: q(1))
  moreover have "length (qs @ qs') \<le> length all"
    using q(1,3) assms(3,4) by (metis add.commute le_diff_conv2 length_append length_drop length_take min.bounded_iff)
  ultimately show ?thesis using assms(2)
    by (auto simp: broken_def calls_of_def[of "[]"] List.map_filter_simps intro!: exI[of _ "qs @ qs'"])
qed

lemma execute_from_spec:
  assumes "balanced M all [] j (sc_trace st)" and "planned = drop j all" and "j \<le> length all" and "length planned \<le> n"
    and "\<And>w. 1 \<le> rt_max_parallel rt w \<and> rt_max_parallel rt w \<le> M"
  shows "\<exists>r st'. execute_from rt turn step n c planned st = Some (r, st') \<and> (case r of
      Inr _ \<Rightarrow> balanced M all [] (length all) (sc_trace st')
    | Inl e \<Rightarrow> e \<noteq> UncommittedCalls \<and> broken M all [] (sc_trace st'))"
  using assms(1-4)
proof (induction n arbitrary: j planned st c)
  case 0
  then show ?case by simp
next
  case (Suc n)
  show ?case
  proof (cases planned)
    case Nil
    then show ?thesis using Suc.prems by simp
  next
    case (Cons p ps)
    define mode where "mode = rt_mode rt p (sc_world st)"
    define grp where "grp = (if mode = ParallelMode then planned else [p])"
    have grp: "grp \<noteq> []" "mode = ExclusiveMode \<Longrightarrow> length grp \<le> 1" "grp = take (length grp) planned"
      using Cons by (auto simp: grp_def)
    obtain r st' where run: "run_group rt turn step grp mode st = Some (r, st')" and spec: "case r of
        Inr out \<Rightarrow> balanced M grp (sc_trace st) (go_consumed out) (sc_trace st') \<and> 1 \<le> go_consumed out
           \<and> go_consumed out \<le> length grp \<and> (go_aborted out \<longrightarrow> go_consumed out = length grp)
      | Inl e \<Rightarrow> e \<noteq> UncommittedCalls \<and> broken M grp (sc_trace st) (sc_trace st')"
      using run_group_spec[OF Suc.prems(1) _ _ grp(1,2), where rt = rt and turn = turn and step = step] assms(5) by blast
    show ?thesis
    proof (cases r)
      case (Inl e)
      then show ?thesis
        using run spec Cons broken_compose[OF Suc.prems(1) _ grp(3)[unfolded Suc.prems(2)] Suc.prems(3)]
        by (simp add: mode_def[symmetric] grp_def[symmetric, unfolded Cons] Let_def)
    next
      case (Inr out)
      let ?k = "go_consumed out"
      have out: "balanced M grp (sc_trace st) ?k (sc_trace st')" "1 \<le> ?k" "?k \<le> length grp" using spec Inr by simp_all
      have "take ?k grp = take ?k (drop j all)" using grp(3) out(3) Suc.prems(2) by (metis min.absorb1 take_take)
      then have bal: "balanced M all [] (j + ?k) (sc_trace st')" by (rule balanced_compose[OF Suc.prems(1) out(1) _ Suc.prems(3)])
      have le: "j + ?k \<le> length all" "drop ?k planned = drop (j + ?k) all"
        using out(3) grp(3) Suc.prems(2,3) by (metis add.commute le_diff_conv2 length_drop length_take min.bounded_iff order_trans,
          simp add: add.commute)
      have exec: "execute_from rt turn step (Suc n) c planned st =
          (if go_aborted out
           then (case each (append_skipped rt turn step) (drop ?k planned) st' of
                   (Inl e, st'') \<Rightarrow> Some (Inl (Thrown e), st'')
                 | (Inr _, st'') \<Rightarrow> Some (Inr (c \<or> go_concluded out), st''))
           else execute_from rt turn step n (c \<or> go_concluded out) (drop ?k planned) st')"
        using run Inr Cons by (simp add: mode_def[symmetric] grp_def[symmetric, unfolded Cons] Let_def)
      show ?thesis
      proof (cases "go_aborted out")
        case True
        obtain x st'' where s: "each (append_skipped rt turn step) (drop ?k planned) st' = (x, st'')" by fastforce
        show ?thesis using skip_rest[OF bal le(2) le(1), of rt turn step] unfolding exec s
          by (cases x) (simp_all add: True s)
      next
        case False
        have "length (drop ?k planned) \<le> n" using Suc.prems(4) out(2) Cons by simp
        from Suc.IH[OF bal le(2,1) this, of "c \<or> go_concluded out"] show ?thesis unfolding exec using False by simp
      qed
    qed
  qed
qed

section \<open>Properties of the scheduler\<close>

lemma execute_tool_calls_spec:
  assumes "\<And>w. 1 \<le> rt_max_parallel rt w \<and> rt_max_parallel rt w \<le> M"
  shows "\<exists>r st. execute_tool_calls rt parse turn step calls w = Some (r, st) \<and> (case r of
      Inr _ \<Rightarrow> balanced M (map (plan_call parse) calls) [] (length calls) (sc_trace st)
    | Inl e \<Rightarrow> e \<noteq> UncommittedCalls \<and> broken M (map (plan_call parse) calls) [] (sc_trace st))"
proof -
  let ?st = "\<lparr>sc_world = w, sc_trace = [], sc_slots = [], sc_call_seqs = [], sc_next = 0, sc_committed = 0,
         sc_started = 0, sc_aborted = False, sc_concluded = False, sc_failure = None, sc_in_flight = []\<rparr>"
  have "balanced M (map (plan_call parse) calls) [] 0 (sc_trace ?st)"
    by (simp add: balanced_def ok_trace_Nil running_def results_of_def calls_of_def cite_def List.map_filter_simps)
  from execute_from_spec[OF this, of "map (plan_call parse) calls" "length calls" rt turn step False, unfolded length_map]
  show ?thesis using assms unfolding execute_tool_calls_def Let_def length_map by simp
qed


text \<open>C32: when scheduling returns, aborted or not, every tool call of the model has been logged, in
  model order, and has exactly one result, in model order, citing its own call event; when it throws,
  every dispatch has settled first and the results logged so far answer a prefix of the calls.\<close>
theorem tool_calls_answered:
  assumes "\<And>w. 1 \<le> rt_max_parallel rt w \<and> rt_max_parallel rt w \<le> M"
  shows "case execute_tool_calls rt parse turn step calls w of
       Some (Inr _, st) \<Rightarrow> map fst (calls_of (sc_trace st)) = map (plan_call parse) calls
          \<and> results_of (sc_trace st) = map (\<lambda>(c, q). (c, Some q)) (calls_of (sc_trace st))
     | Some (Inl e, st) \<Rightarrow> e \<noteq> UncommittedCalls \<and> running (sc_trace st) = []
          \<and> prefix (map fst (calls_of (sc_trace st))) (map (plan_call parse) calls)
          \<and> prefix (results_of (sc_trace st)) (map (\<lambda>(c, q). (c, Some q)) (calls_of (sc_trace st)))
     | None \<Rightarrow> False"
proof -
  obtain r st where run: "execute_tool_calls rt parse turn step calls w = Some (r, st)" and spec: "case r of
      Inr _ \<Rightarrow> balanced M (map (plan_call parse) calls) [] (length calls) (sc_trace st)
    | Inl e \<Rightarrow> e \<noteq> UncommittedCalls \<and> broken M (map (plan_call parse) calls) [] (sc_trace st)"
    using execute_tool_calls_spec[OF assms] by blast
  have start: "calls_of [] = []" by (simp add: calls_of_def List.map_filter_simps)
  show ?thesis
  proof (cases r)
    case (Inl e)
    then have b: "e \<noteq> UncommittedCalls" "broken M (map (plan_call parse) calls) [] (sc_trace st)" using spec by simp_all
    then obtain qs where qs: "length qs \<le> length calls"
      "calls_of (sc_trace st) = zip (take (length qs) (map (plan_call parse) calls)) qs"
      by (auto simp: broken_def start)
    then have "map fst (calls_of (sc_trace st)) = take (length qs) (map (plan_call parse) calls)" by simp
    then show ?thesis using b run Inl ok_trace_last[of M "sc_trace st"]
      by (simp add: broken_def good_point_def cite_def take_is_prefix)
  next
    case (Inr u)
    then show ?thesis using run spec by (auto simp: balanced_def start cite_def)
  qed
qed


definition ex_outcome :: tool_outcome where
  "ex_outcome = \<lparr>to_content = [], to_is_error = False, to_error_info = None, to_meta = None, to_contexts = [], to_concludes = False\<rparr>"

definition ex_runtime :: "(nat, unit) tool_runtime" where
  \<comment> \<open>parallel calls that settle in reverse order; the world counts appends\<close>
  "ex_runtime = \<lparr>rt_aborted = (\<lambda>_. False), rt_max_parallel = (\<lambda>_. 2), rt_mode = (\<lambda>_ _. ParallelMode),
     rt_prepare = (\<lambda>_ w. (Inr PrepDispatch, w)), rt_dispatch = (\<lambda>_ w. w),
     rt_finalize = (\<lambda>_ r w. (Inr r, w)), rt_finish = (\<lambda>_ r w. (Inr r, w)), rt_pause = (\<lambda>_ w. ([], w)),
     rt_settle = (\<lambda>is w. ((last is, Inr \<lparr>sl_result = ex_outcome, sl_needs_post = True\<rparr>), w)),
     rt_append = (\<lambda>_ _ _ w. (Inr w, Suc w)), rt_message_id = (\<lambda>_. ''m''), rt_accept = (\<lambda>_ w. (Inr (), w))\<rparr>"

abbreviation ex_calls :: "(string \<times> string \<times> string) list" where
  "ex_calls \<equiv> [(''a'', ''x'', ''''), (''b'', ''y'', ''''), (''c'', ''z'', '''')]"

abbreviation ex_run :: "((unit scheduler_error + bool) \<times> (nat, unit) sched) option" where
  "ex_run \<equiv> execute_tool_calls ex_runtime (\<lambda>_. None) 1 1 ex_calls 10"

lemma ex_runtime_max: "1 \<le> rt_max_parallel ex_runtime w \<and> rt_max_parallel ex_runtime w \<le> 2"
  by (simp add: ex_runtime_def)

lemma ex_run_result:
  "case ex_run of Some (r, st) \<Rightarrow> r = Inr False \<and> List.member (sc_trace st) (Settled 1)
     \<and> map snd (results_of (sc_trace st)) = [Some 10, Some 11, Some 12] | None \<Rightarrow> False"
  by code_simp


theorem tool_calls_answered_witness:
  "case ex_run of Some (r, st) \<Rightarrow> r = Inr False
       \<and> map fst (calls_of (sc_trace st)) = map (plan_call (\<lambda>_. None)) ex_calls
       \<and> map snd (results_of (sc_trace st)) = [Some 10, Some 11, Some 12]
   | None \<Rightarrow> False"
  using tool_calls_answered[OF ex_runtime_max, where parse = "\<lambda>_. None" and turn = 1 and step = 1 and calls = ex_calls and w = 10] ex_run_result
  by (auto split: option.splits sum.splits)


end
