(* ===== verification/GoalFold.thy ===== *)
theory GoalFold imports SessionTypes Projections begin

text \<open>
  The durable goal of a Session (\<open>packages/goal/goal/src/fold.ts\<close> and the projection half of
  \<open>index.ts\<close>): the strict decoder of stored goal changes, the replay fold with its transition
  rules, and the projection that retains the first replay failure. Stored changes are raw JSON. An
  error message is the constructor of \<open>goal_fault\<close> that carries what the message interpolates.
\<close>

section \<open>The vocabulary\<close>

datatype goal_phase = PhaseActive | PhasePaused | PhaseBlocked | PhaseComplete

datatype goal_operation = OpCreate | OpEdit | OpPause | OpResume | OpComplete | OpBlock | OpClear

record goal_ref =
  gr_id :: string
  gr_revision :: int

record block_reason =
  br_code :: string
  br_message :: string

record goal_snapshot =
  gs_id :: string
  gs_revision :: int
  gs_objective :: string
  gs_phase :: goal_phase
  gs_blocked_reason :: "block_reason option"
  gs_max_rounds :: int

record snapshot_change =
  sc_operation :: goal_operation
  sc_goal :: goal_snapshot
  sc_rounds_started :: int
  sc_created_at :: int
  sc_updated_at :: int

datatype goal_change = SnapshotChange snapshot_change | ClearChange goal_ref int

record goal_fold_state =
  gf_goal :: "goal_snapshot option"
  gf_rounds_started :: int
  gf_created_at :: "int option"
  gf_updated_at :: "int option"
  gf_last_ref :: "goal_ref option"
  gf_seen :: "string list"

datatype goal_fault =
    NotPositive string
  | NotNonNegative string
  | BlockReasonKeys
  | BlockReasonCode
  | BlockReasonMessage
  | SnapshotNotRecord
  | SnapshotId
  | SnapshotObjective
  | SnapshotPhase
  | SnapshotKeys goal_phase
  | TombstoneKeys
  | TombstoneId
  | ChangeVersion "json option"
  | ClearKeys
  | ChangeOperation
  | ChangeKeys
  | UpdatedBeforeCreated
  | SourceInvalid
  | DefinitionChanged goal_operation
  | RevisionNotNext goal_operation
  | LacksUpdatedAt
  | LacksTimestamps
  | CountersChanged goal_operation
  | EditChangesPhase
  | TransitionInvalid goal_operation
  | CreateAsTransition
  | UnknownOperation
  | NoCurrentGoal goal_operation
  | ClearBeforeUpdate
  | CreateNotFresh
  | ChangeKind nat
  | RoundNotNext nat

section \<open>Texts and key sets\<close>

definition trim :: "string \<Rightarrow> string" where
  "trim t = rev (dropWhile js_space (rev (dropWhile js_space t)))"

definition normalized :: "string \<Rightarrow> bool" where
  "normalized t \<longleftrightarrow> trim t \<noteq> [] \<and> t = trim t"

definition kebab_char :: "char \<Rightarrow> bool" where
  "kebab_char c \<longleftrightarrow> (let n = of_char c :: nat in (97 \<le> n \<and> n \<le> 122) \<or> (48 \<le> n \<and> n \<le> 57))"

fun kebab_rest :: "bool \<Rightarrow> string \<Rightarrow> bool" where
  \<comment> \<open>the flag: the last character was a letter or a digit, not a hyphen\<close>
  "kebab_rest closed [] = closed"
| "kebab_rest closed (c # cs) =
     (if kebab_char c then kebab_rest True cs else c = CHR 0x2D \<and> closed \<and> kebab_rest False cs)"

definition kebab_case :: "string \<Rightarrow> bool" where
  \<comment> \<open>\<open>/^[a-z][a-z0-9]*(?:-[a-z0-9]+)*$/\<close>\<close>
  "kebab_case t = (case t of [] \<Rightarrow> False
     | c # cs \<Rightarrow> 97 \<le> (of_char c :: nat) \<and> (of_char c :: nat) \<le> 122 \<and> kebab_rest True cs)"

fun str_le :: "string \<Rightarrow> string \<Rightarrow> bool" where
  \<comment> \<open>the order of \<open>Array.prototype.sort\<close> on strings\<close>
  "str_le [] _ = True"
| "str_le (_ # _) [] = False"
| "str_le (a # as) (b # bs) = (if a = b then str_le as bs else (of_char a :: nat) < of_char b)"

fun insert_key :: "string \<Rightarrow> string list \<Rightarrow> string list" where
  "insert_key k [] = [k]"
| "insert_key k (x # xs) = (if str_le k x then k # x # xs else x # insert_key k xs)"

fun join_keys :: "string list \<Rightarrow> string" where
  "join_keys [] = []"
| "join_keys [k] = k"
| "join_keys (k # ks) = k @ CHR 0x2C # join_keys ks"

definition keys_joined :: "json \<Rightarrow> string" where
  \<comment> \<open>\<open>Object.keys(value).sort().join(',')\<close>\<close>
  "keys_joined v = join_keys (foldr insert_key (obj_keys v) [])"

section \<open>The strict decoder\<close>

definition positive_integer :: "json option \<Rightarrow> string \<Rightarrow> goal_fault + int" where
  "positive_integer v field = (case v of
     Some (JInt n) \<Rightarrow> if safe_int n \<and> 1 \<le> n then Inr n else Inl (NotPositive field)
   | _ \<Rightarrow> Inl (NotPositive field))"

definition non_negative_integer :: "json option \<Rightarrow> string \<Rightarrow> goal_fault + int" where
  "non_negative_integer v field = (case v of
     Some (JInt n) \<Rightarrow> if safe_int n \<and> 0 \<le> n then Inr n else Inl (NotNonNegative field)
   | Some JNegZero \<Rightarrow> Inr 0
   | _ \<Rightarrow> Inl (NotNonNegative field))"

fun str_of :: "json option \<Rightarrow> string option" where
  "str_of (Some (JStr t)) = Some t"
| "str_of _ = None"

definition phase_of :: "string \<Rightarrow> goal_phase option" where
  "phase_of t = (if t = ''active'' then Some PhaseActive else if t = ''paused'' then Some PhasePaused
     else if t = ''blocked'' then Some PhaseBlocked else if t = ''complete'' then Some PhaseComplete else None)"

definition operation_of :: "string \<Rightarrow> goal_operation option" where
  \<comment> \<open>the snapshot operations\<close>
  "operation_of t = (if t = ''create'' then Some OpCreate else if t = ''edit'' then Some OpEdit
     else if t = ''pause'' then Some OpPause else if t = ''resume'' then Some OpResume
     else if t = ''complete'' then Some OpComplete else if t = ''block'' then Some OpBlock else None)"

definition decode_block_reason :: "json option \<Rightarrow> goal_fault + block_reason" where
  "decode_block_reason value =
     (case value of None \<Rightarrow> Inl BlockReasonKeys
      | Some v \<Rightarrow>
          if \<not> is_record v \<or> keys_joined v \<noteq> ''code,message'' then Inl BlockReasonKeys
          else case str_of (fld v ''code'') of
            None \<Rightarrow> Inl BlockReasonCode
          | Some code \<Rightarrow>
              if \<not> kebab_case code then Inl BlockReasonCode
              else case str_of (fld v ''message'') of
                None \<Rightarrow> Inl BlockReasonMessage
              | Some message \<Rightarrow>
                  if \<not> normalized message then Inl BlockReasonMessage
                  else Inr \<lparr>br_code = code, br_message = message\<rparr>)"

definition snapshot_keys :: "goal_phase \<Rightarrow> string" where
  "snapshot_keys p = (if p = PhaseBlocked then ''blockedReason,id,maxGoalRounds,objective,phase,revision''
     else ''id,maxGoalRounds,objective,phase,revision'')"

definition decode_snapshot_fields :: "json \<Rightarrow> string \<Rightarrow> string \<Rightarrow> goal_phase \<Rightarrow> goal_fault + goal_snapshot" where
  \<comment> \<open>the object literal the decoder returns\<close>
  "decode_snapshot_fields v gid objective phase =
     bindE (positive_integer (fld v ''revision'') ''goal.revision'') (\<lambda>revision.
     bindE (positive_integer (fld v ''maxGoalRounds'') ''goal.maxGoalRounds'') (\<lambda>maxRounds.
     bindE (if phase = PhaseBlocked then bindE (decode_block_reason (fld v ''blockedReason'')) (\<lambda>r. Inr (Some r))
            else Inr None) (\<lambda>reason.
       Inr \<lparr>gs_id = gid, gs_revision = revision, gs_objective = objective, gs_phase = phase,
            gs_blocked_reason = reason, gs_max_rounds = maxRounds\<rparr>)))"

definition decode_snapshot :: "json option \<Rightarrow> goal_fault + goal_snapshot" where
  "decode_snapshot value =
     (case value of None \<Rightarrow> Inl SnapshotNotRecord
      | Some v \<Rightarrow>
          if \<not> is_record v then Inl SnapshotNotRecord
          else case str_of (fld v ''id'') of
            None \<Rightarrow> Inl SnapshotId
          | Some gid \<Rightarrow>
              if gid = [] then Inl SnapshotId
              else case str_of (fld v ''objective'') of
                None \<Rightarrow> Inl SnapshotObjective
              | Some objective \<Rightarrow>
                  if \<not> normalized objective then Inl SnapshotObjective
                  else case Option.bind (str_of (fld v ''phase'')) phase_of of
                    None \<Rightarrow> Inl SnapshotPhase
                  | Some phase \<Rightarrow>
                      if keys_joined v \<noteq> snapshot_keys phase then Inl (SnapshotKeys phase)
                      else decode_snapshot_fields v gid objective phase)"

definition decode_ref :: "json option \<Rightarrow> goal_fault + goal_ref" where
  "decode_ref value =
     (case value of None \<Rightarrow> Inl TombstoneKeys
      | Some v \<Rightarrow>
          if \<not> is_record v \<or> keys_joined v \<noteq> ''id,revision'' then Inl TombstoneKeys
          else case str_of (fld v ''id'') of
            None \<Rightarrow> Inl TombstoneId
          | Some gid \<Rightarrow>
              if gid = [] then Inl TombstoneId
              else bindE (positive_integer (fld v ''revision'') ''cleared.revision'') (\<lambda>revision.
                     Inr \<lparr>gr_id = gid, gr_revision = revision\<rparr>))"

definition decode_clear :: "json \<Rightarrow> goal_fault + goal_change" where
  "decode_clear v =
     (if keys_joined v \<noteq> ''cleared,clearedAt,kind,operation,version'' then Inl ClearKeys
      else bindE (decode_ref (fld v ''cleared'')) (\<lambda>cleared.
           bindE (non_negative_integer (fld v ''clearedAt'') ''clearedAt'') (\<lambda>clearedAt.
             Inr (ClearChange cleared clearedAt))))"

definition decode_snapshot_change :: "json \<Rightarrow> goal_operation \<Rightarrow> goal_fault + goal_change" where
  "decode_snapshot_change v operation =
     (if keys_joined v \<noteq> ''createdAt,goal,kind,operation,roundsStarted,updatedAt,version'' then Inl ChangeKeys
      else bindE (non_negative_integer (fld v ''createdAt'') ''createdAt'') (\<lambda>createdAt.
           bindE (non_negative_integer (fld v ''updatedAt'') ''updatedAt'') (\<lambda>updatedAt.
           if updatedAt < createdAt then Inl UpdatedBeforeCreated
           else bindE (decode_snapshot (fld v ''goal'')) (\<lambda>goal.
                bindE (non_negative_integer (fld v ''roundsStarted'') ''roundsStarted'') (\<lambda>rounds.
                  Inr (SnapshotChange \<lparr>sc_operation = operation, sc_goal = goal, sc_rounds_started = rounds,
                         sc_created_at = createdAt, sc_updated_at = updatedAt\<rparr>))))))"

definition decode_goal_change :: "json \<Rightarrow> goal_fault + goal_change option" where
  "decode_goal_change v =
     (if \<not> is_record v \<or> fld v ''kind'' \<noteq> Some (JStr ''goal/change'') then Inr None
      else if fld v ''version'' \<noteq> Some (JInt 1) then Inl (ChangeVersion (fld v ''version''))
      else if fld v ''operation'' = Some (JStr ''clear'') then bindE (decode_clear v) (\<lambda>c. Inr (Some c))
      else case Option.bind (str_of (fld v ''operation'')) operation_of of
             None \<Rightarrow> Inl ChangeOperation
           | Some operation \<Rightarrow> bindE (decode_snapshot_change v operation) (\<lambda>c. Inr (Some c)))"

section \<open>The strict fold\<close>

definition empty_goal_fold_state :: goal_fold_state where
  "empty_goal_fold_state = \<lparr>gf_goal = None, gf_rounds_started = 0, gf_created_at = None,
     gf_updated_at = None, gf_last_ref = None, gf_seen = []\<rparr>"

definition goal_source :: "message_source \<Rightarrow> goal_fault + (string \<times> int \<times> int) option" where
  \<comment> \<open>goal id, revision and round of a message that continues a goal\<close>
  "goal_source source =
     (case source of
        OtherSource kind v \<Rightarrow>
          if kind \<noteq> ''goal'' then Inr None
          else (case (str_of (fld v ''goalId''), positive_integer (fld v ''revision'') '''',
                      positive_integer (fld v ''round'') '''') of
                  (Some gid, Inr revision, Inr round) \<Rightarrow>
                    if gid = [] then Inl SourceInvalid else Inr (Some (gid, revision, round))
                | _ \<Rightarrow> Inl SourceInvalid)
      | _ \<Rightarrow> Inr None)"

definition require_same_definition :: "goal_snapshot \<Rightarrow> goal_snapshot \<Rightarrow> goal_operation \<Rightarrow> goal_fault + unit" where
  "require_same_definition current nxt op =
     checkE (gs_objective nxt = gs_objective current \<and> gs_max_rounds nxt = gs_max_rounds current) (DefinitionChanged op)"

definition require_next_revision :: "goal_snapshot \<Rightarrow> goal_ref \<Rightarrow> goal_operation \<Rightarrow> goal_fault + unit" where
  "require_next_revision current nxt op =
     checkE (gr_id nxt = gs_id current \<and> gr_revision nxt = gs_revision current + 1) (RevisionNotNext op)"

definition snapshot_ref :: "goal_snapshot \<Rightarrow> goal_ref" where
  "snapshot_ref g = \<lparr>gr_id = gs_id g, gr_revision = gs_revision g\<rparr>"

fun goal_change_ref :: "goal_change \<Rightarrow> goal_ref" where
  "goal_change_ref (ClearChange cleared _) = cleared"
| "goal_change_ref (SnapshotChange c) = snapshot_ref (sc_goal c)"

definition validate_operation :: "int \<Rightarrow> goal_operation \<Rightarrow> goal_snapshot \<Rightarrow> goal_snapshot \<Rightarrow> goal_fault + unit" where
  \<comment> \<open>the switch over the operation; the rounds are those of the state\<close>
  "validate_operation rounds op current nxt =
     (case op of
        OpEdit \<Rightarrow> checkE (gs_phase nxt = gs_phase current \<and> gs_blocked_reason nxt = gs_blocked_reason current) EditChangesPhase
      | OpPause \<Rightarrow> bindE (require_same_definition current nxt op) (\<lambda>_.
          checkE (gs_phase current = PhaseActive \<and> gs_phase nxt = PhasePaused) (TransitionInvalid op))
      | OpResume \<Rightarrow> bindE (require_same_definition current nxt op) (\<lambda>_.
          checkE (gs_phase current \<in> set [PhaseActive, PhasePaused, PhaseBlocked] \<and> gs_phase nxt = PhaseActive
                    \<and> rounds < gs_max_rounds nxt) (TransitionInvalid op))
      | OpComplete \<Rightarrow> bindE (require_same_definition current nxt op) (\<lambda>_.
          checkE (gs_phase current \<noteq> PhaseComplete \<and> gs_phase nxt = PhaseComplete) (TransitionInvalid op))
      | OpBlock \<Rightarrow> bindE (require_same_definition current nxt op) (\<lambda>_.
          checkE (gs_phase current = PhaseActive \<and> gs_phase nxt = PhaseBlocked) (TransitionInvalid op))
      | OpCreate \<Rightarrow> Inl CreateAsTransition
      | OpClear \<Rightarrow> Inl UnknownOperation)"

definition validate_snapshot_transition :: "goal_fold_state \<Rightarrow> snapshot_change \<Rightarrow> goal_snapshot \<Rightarrow> goal_fault + unit" where
  "validate_snapshot_transition st c current =
     bindE (require_next_revision current (snapshot_ref (sc_goal c)) (sc_operation c)) (\<lambda>_.
       case gf_updated_at st of
         None \<Rightarrow> Inl LacksUpdatedAt
       | Some updated \<Rightarrow>
           if Some (sc_created_at c) \<noteq> gf_created_at st \<or> sc_updated_at c < updated
                \<or> sc_rounds_started c \<noteq> gf_rounds_started st
           then Inl (CountersChanged (sc_operation c))
           else validate_operation (gf_rounds_started st) (sc_operation c) current (sc_goal c))"

definition store_snapshot :: "snapshot_change \<Rightarrow> goal_fold_state \<Rightarrow> goal_fold_state" where
  "store_snapshot c st = st\<lparr>gf_goal := Some (sc_goal c), gf_rounds_started := sc_rounds_started c,
     gf_created_at := Some (sc_created_at c), gf_updated_at := Some (sc_updated_at c),
     gf_last_ref := Some (snapshot_ref (sc_goal c))\<rparr>"

fun apply_goal_change :: "goal_fold_state \<Rightarrow> goal_change \<Rightarrow> goal_fault + goal_fold_state" where
  "apply_goal_change st (ClearChange cleared clearedAt) =
     (case gf_goal st of
        None \<Rightarrow> Inl (NoCurrentGoal OpClear)
      | Some current \<Rightarrow>
          bindE (require_next_revision current cleared OpClear) (\<lambda>_.
            case gf_updated_at st of
              None \<Rightarrow> Inl LacksUpdatedAt
            | Some updated \<Rightarrow>
                if clearedAt < updated then Inl ClearBeforeUpdate
                else Inr (st\<lparr>gf_goal := None, gf_rounds_started := 0, gf_created_at := None,
                            gf_updated_at := None, gf_last_ref := Some cleared\<rparr>)))"
| "apply_goal_change st (SnapshotChange c) =
     (if sc_operation c = OpCreate then
        if gs_revision (sc_goal c) \<noteq> 1 \<or> gs_phase (sc_goal c) \<noteq> PhaseActive \<or> sc_rounds_started c \<noteq> 0
             \<or> (case gf_goal st of Some g \<Rightarrow> gs_phase g \<noteq> PhaseComplete | None \<Rightarrow> False)
             \<or> gs_id (sc_goal c) \<in> set (gf_seen st)
        then Inl CreateNotFresh
        else Inr (store_snapshot c (st\<lparr>gf_seen := gf_seen st @ [gs_id (sc_goal c)]\<rparr>))
      else case gf_goal st of
             None \<Rightarrow> Inl (NoCurrentGoal (sc_operation c))
           | Some current \<Rightarrow> bindE (validate_snapshot_transition st c current) (\<lambda>_. Inr (store_snapshot c st)))"

definition admit_round :: "goal_fold_state \<Rightarrow> nat \<Rightarrow> string \<times> int \<times> int \<Rightarrow> goal_fault + goal_fold_state" where
  "admit_round st n src =
     (case (gf_goal st, src) of
        (Some current, (gid, revision, round)) \<Rightarrow>
          if gs_phase current \<noteq> PhaseActive \<or> gid \<noteq> gs_id current \<or> revision \<noteq> gs_revision current
               \<or> round \<noteq> gf_rounds_started st + 1 \<or> gs_max_rounds current < round
          then Inl (RoundNotNext n)
          else Inr (st\<lparr>gf_rounds_started := round\<rparr>)
      | (None, _) \<Rightarrow> Inl (RoundNotNext n))"

definition apply_goal_event :: "goal_fold_state \<Rightarrow> session_event \<Rightarrow> goal_fault + goal_fold_state" where
  "apply_goal_event st e =
     (case ev_data e of
        GoalChange v \<Rightarrow> bindE (decode_goal_change v) (\<lambda>c.
          case c of None \<Rightarrow> Inl (ChangeKind (ev_seq e)) | Some change \<Rightarrow> apply_goal_change st change)
      | UserMessage m \<Rightarrow> bindE (goal_source (msg_source m)) (\<lambda>source.
          case source of None \<Rightarrow> Inr st | Some src \<Rightarrow> admit_round st (ev_seq e) src)
      | _ \<Rightarrow> Inr st)"

record folded_goal =
  fg_goal :: "goal_snapshot option"
  fg_rounds_started :: int
  fg_created_at :: "int option"
  fg_updated_at :: "int option"
  fg_last_ref :: "goal_ref option"

definition goal_fold :: "session_event list \<Rightarrow> goal_fault + goal_fold_state" where
  "goal_fold es = foldE apply_goal_event empty_goal_fold_state es"

definition fold_goal :: "session_event list \<Rightarrow> goal_fault + folded_goal" where
  "fold_goal es = bindE (goal_fold es) (\<lambda>st.
     Inr \<lparr>fg_goal = gf_goal st, fg_rounds_started = gf_rounds_started st, fg_created_at = gf_created_at st,
          fg_updated_at = gf_updated_at st, fg_last_ref = gf_last_ref st\<rparr>)"

section \<open>The projection\<close>

record goal_projection =
  gp_goal :: goal_snapshot
  gp_rounds_started :: int
  gp_created_at :: int
  gp_updated_at :: int

record goal_projection_state =
  gps_current :: "goal_projection option"
  gps_seen :: "string list"
  gps_failure :: "(nat \<times> goal_fault) option"  \<comment> \<open>event and fault that the message names\<close>

definition initial_goal_state :: goal_projection_state where
  "initial_goal_state = \<lparr>gps_current = None, gps_seen = [], gps_failure = None\<rparr>"

definition goal_fold_state_of :: "goal_projection_state \<Rightarrow> goal_fold_state" where
  "goal_fold_state_of s = \<lparr>gf_goal = map_option gp_goal (gps_current s),
     gf_rounds_started = (case gps_current s of Some p \<Rightarrow> gp_rounds_started p | None \<Rightarrow> 0),
     gf_created_at = map_option gp_created_at (gps_current s),
     gf_updated_at = map_option gp_updated_at (gps_current s),
     gf_last_ref = None, gf_seen = rev (remdups (rev (gps_seen s)))\<rparr>"

definition goal_projection_state_of :: "goal_fold_state \<Rightarrow> goal_fault + goal_projection_state" where
  "goal_projection_state_of st =
     (case gf_goal st of
        None \<Rightarrow> Inr \<lparr>gps_current = None, gps_seen = gf_seen st, gps_failure = None\<rparr>
      | Some g \<Rightarrow>
          (case (gf_created_at st, gf_updated_at st) of
             (Some c, Some u) \<Rightarrow>
               Inr \<lparr>gps_current = Some \<lparr>gp_goal = g, gp_rounds_started = gf_rounds_started st,
                      gp_created_at = c, gp_updated_at = u\<rparr>,
                    gps_seen = gf_seen st, gps_failure = None\<rparr>
           | _ \<Rightarrow> Inl LacksTimestamps))"

fun goal_owned :: "event_data \<Rightarrow> bool" where
  "goal_owned (GoalChange _) = True"
| "goal_owned (UserMessage m) = (case msg_source m of OtherSource kind _ \<Rightarrow> kind = ''goal'' | _ \<Rightarrow> False)"
| "goal_owned _ = False"

definition apply_goal_projection :: "goal_projection_state \<Rightarrow> session_event \<Rightarrow> goal_projection_state" where
  "apply_goal_projection s e =
     (if gps_failure s \<noteq> None then s
      else if \<not> goal_owned (ev_data e) then s
      else case bindE (apply_goal_event (goal_fold_state_of s) e) goal_projection_state_of of
             Inr s' \<Rightarrow> s'
           | Inl f \<Rightarrow> s\<lparr>gps_failure := Some (ev_seq e, f)\<rparr>)"

definition goal_current_valid :: "goal_projection \<Rightarrow> bool" where
  \<comment> \<open>\<open>goalProjectionSchema\<close> on a typed value\<close>
  "goal_current_valid p \<longleftrightarrow>
     gs_id (gp_goal p) \<noteq> [] \<and> safe_int (gs_revision (gp_goal p)) \<and> 0 < gs_revision (gp_goal p)
     \<and> gs_objective (gp_goal p) \<noteq> [] \<and> safe_int (gs_max_rounds (gp_goal p)) \<and> 0 < gs_max_rounds (gp_goal p)
     \<and> safe_int (gp_rounds_started p) \<and> 0 \<le> gp_rounds_started p"

definition goal_state_valid :: "goal_projection_state \<Rightarrow> bool" where
  \<comment> \<open>\<open>goalProjectionStateSchema\<close> on a typed value\<close>
  "goal_state_valid s \<longleftrightarrow>
     [] \<notin> set (gps_seen s) \<and> distinct (gps_seen s)
     \<and> (case gps_current s of
          None \<Rightarrow> True
        | Some p \<Rightarrow> goal_current_valid p \<and> gs_id (gp_goal p) \<in> set (gps_seen s)
            \<and> gp_created_at p \<le> gp_updated_at p \<and> gp_rounds_started p \<le> gs_max_rounds (gp_goal p))"

datatype goal_unit_error = GoalStateRejected

definition goal_unit :: "(goal_projection_state, goal_projection option, goal_unit_error) unit_def" where
  \<comment> \<open>\<open>goalProjectionDefinition\<close>\<close>
  "goal_unit = \<lparr>ud_key = ''goal'', ud_init = (\<lambda>_ _. initial_goal_state),
     ud_apply = (\<lambda>s e. Inr (apply_goal_projection s e)),
     ud_parse = (\<lambda>s. if goal_state_valid s then Inr s else Inl GoalStateRejected),
     ud_view = Some (\<lambda>s. Inr (gps_current s)), ud_summary = True, ud_version = 6\<rparr>"

section \<open>Writing a change\<close>

fun phase_name :: "goal_phase \<Rightarrow> string" where
  "phase_name PhaseActive = ''active''"
| "phase_name PhasePaused = ''paused''"
| "phase_name PhaseBlocked = ''blocked''"
| "phase_name PhaseComplete = ''complete''"

fun operation_name :: "goal_operation \<Rightarrow> string" where
  "operation_name OpCreate = ''create''"
| "operation_name OpEdit = ''edit''"
| "operation_name OpPause = ''pause''"
| "operation_name OpResume = ''resume''"
| "operation_name OpComplete = ''complete''"
| "operation_name OpBlock = ''block''"
| "operation_name OpClear = ''clear''"

definition snapshot_json :: "goal_snapshot \<Rightarrow> json" where
  "snapshot_json g = JObj ([(''id'', JStr (gs_id g)), (''revision'', JInt (gs_revision g)),
       (''objective'', JStr (gs_objective g)), (''phase'', JStr (phase_name (gs_phase g))),
       (''maxGoalRounds'', JInt (gs_max_rounds g))]
     @ (case gs_blocked_reason g of None \<Rightarrow> []
        | Some r \<Rightarrow> [(''blockedReason'', JObj [(''code'', JStr (br_code r)), (''message'', JStr (br_message r))])]))"

fun change_json :: "goal_change \<Rightarrow> json" where
  \<comment> \<open>the payload as an object literal\<close>
  "change_json (ClearChange r t) = JObj [(''kind'', JStr ''goal/change''), (''version'', JInt 1),
     (''operation'', JStr ''clear''),
     (''cleared'', JObj [(''id'', JStr (gr_id r)), (''revision'', JInt (gr_revision r))]), (''clearedAt'', JInt t)]"
| "change_json (SnapshotChange c) = JObj [(''kind'', JStr ''goal/change''), (''version'', JInt 1),
     (''operation'', JStr (operation_name (sc_operation c))), (''goal'', snapshot_json (sc_goal c)),
     (''roundsStarted'', JInt (sc_rounds_started c)), (''createdAt'', JInt (sc_created_at c)),
     (''updatedAt'', JInt (sc_updated_at c))]"

section \<open>Valid changes\<close>

definition reason_valid :: "block_reason \<Rightarrow> bool" where
  "reason_valid r \<longleftrightarrow> kebab_case (br_code r) \<and> normalized (br_message r)"

definition snapshot_valid :: "goal_snapshot \<Rightarrow> bool" where
  "snapshot_valid g \<longleftrightarrow> gs_id g \<noteq> [] \<and> safe_int (gs_revision g) \<and> 1 \<le> gs_revision g
     \<and> normalized (gs_objective g) \<and> safe_int (gs_max_rounds g) \<and> 1 \<le> gs_max_rounds g
     \<and> (case gs_blocked_reason g of Some r \<Rightarrow> gs_phase g = PhaseBlocked \<and> reason_valid r
        | None \<Rightarrow> gs_phase g \<noteq> PhaseBlocked)"

fun change_valid :: "goal_change \<Rightarrow> bool" where
  "change_valid (ClearChange r t) \<longleftrightarrow>
     gr_id r \<noteq> [] \<and> safe_int (gr_revision r) \<and> 1 \<le> gr_revision r \<and> safe_int t \<and> 0 \<le> t"
| "change_valid (SnapshotChange c) \<longleftrightarrow>
     sc_operation c \<noteq> OpClear \<and> snapshot_valid (sc_goal c)
     \<and> safe_int (sc_rounds_started c) \<and> 0 \<le> sc_rounds_started c
     \<and> safe_int (sc_created_at c) \<and> 0 \<le> sc_created_at c
     \<and> safe_int (sc_updated_at c) \<and> sc_created_at c \<le> sc_updated_at c"

lemma positive_integer_iff [simp]:
  "positive_integer v f = Inr n \<longleftrightarrow> v = Some (JInt n) \<and> safe_int n \<and> 1 \<le> n"
  by (auto simp: positive_integer_def split: option.splits json.splits)

lemma non_negative_integer_JInt [simp]:
  "safe_int n \<Longrightarrow> 0 \<le> n \<Longrightarrow> non_negative_integer (Some (JInt n)) f = Inr n"
  by (simp add: non_negative_integer_def)

lemma non_negative_integer_bounds: "non_negative_integer v f = Inr n \<Longrightarrow> safe_int n \<and> 0 \<le> n"
  by (auto simp: non_negative_integer_def safe_int_def max_safe_def split: option.splits json.splits if_splits)

lemma str_of_Some [simp]: "str_of v = Some t \<longleftrightarrow> v = Some (JStr t)"
  by (cases v rule: str_of.cases) auto

lemma phase_of_name [simp]: "phase_of (phase_name p) = Some p"
  by (cases p) (simp_all add: phase_of_def)

lemma operation_of_name: "op \<noteq> OpClear \<Longrightarrow> operation_of (operation_name op) = Some op"
  by (cases op) (simp_all add: operation_of_def)

lemma operation_of_not_clear: "operation_of t = Some op \<Longrightarrow> op \<noteq> OpClear"
  by (auto simp: operation_of_def split: if_splits)

lemma decode_block_reason_json:
  "reason_valid r \<Longrightarrow> decode_block_reason (Some (JObj [(''code'', JStr (br_code r)), (''message'', JStr (br_message r))])) = Inr r"
  by (simp add: decode_block_reason_def reason_valid_def keys_joined_def)

lemma fld_snapshot_json [simp]:
  "is_record (snapshot_json g)"
  "fld (snapshot_json g) ''id'' = Some (JStr (gs_id g))"
  "fld (snapshot_json g) ''revision'' = Some (JInt (gs_revision g))"
  "fld (snapshot_json g) ''objective'' = Some (JStr (gs_objective g))"
  "fld (snapshot_json g) ''phase'' = Some (JStr (phase_name (gs_phase g)))"
  "fld (snapshot_json g) ''maxGoalRounds'' = Some (JInt (gs_max_rounds g))"
  "gs_blocked_reason g = Some r \<Longrightarrow> fld (snapshot_json g) ''blockedReason''
     = Some (JObj [(''code'', JStr (br_code r)), (''message'', JStr (br_message r))])"
  by (simp_all add: snapshot_json_def)

lemma keys_snapshot_json: "snapshot_valid g \<Longrightarrow> keys_joined (snapshot_json g) = snapshot_keys (gs_phase g)"
  by (cases "gs_blocked_reason g")
    (simp_all add: keys_joined_def snapshot_json_def snapshot_keys_def snapshot_valid_def)

lemma positive_integer_JInt: "safe_int n \<Longrightarrow> 1 \<le> n \<Longrightarrow> positive_integer (Some (JInt n)) f = Inr n"
  by simp

lemma str_of_JStr [simp]: "str_of (Some (JStr t)) = Some t"
  by simp

lemma decode_snapshot_json:
  assumes "snapshot_valid g"
  shows "decode_snapshot (Some (snapshot_json g)) = Inr g"
proof -
  have ints: "positive_integer (Some (JInt (gs_revision g))) f = Inr (gs_revision g)"
      "positive_integer (Some (JInt (gs_max_rounds g))) f = Inr (gs_max_rounds g)" for f
    using assms by (simp_all add: snapshot_valid_def)
  have "decode_snapshot_fields (snapshot_json g) (gs_id g) (gs_objective g) (gs_phase g) = Inr g"
    using assms ints decode_block_reason_json
    by (cases "gs_blocked_reason g") (auto simp: decode_snapshot_fields_def snapshot_valid_def)
  then show ?thesis using assms keys_snapshot_json[OF assms]
    by (simp add: decode_snapshot_def snapshot_valid_def)
qed

lemma change_json_fields [simp]:
  "is_record (change_json c)"
  "fld (change_json c) ''kind'' = Some (JStr ''goal/change'')"
  "fld (change_json c) ''version'' = Some (JInt 1)"
  by (cases c; simp)+

lemma keys_change_json:
  "keys_joined (change_json (ClearChange r t)) = ''cleared,clearedAt,kind,operation,version''"
  "keys_joined (change_json (SnapshotChange c)) = ''createdAt,goal,kind,operation,roundsStarted,updatedAt,version''"
  by (simp_all add: keys_joined_def)

lemma decode_change_json:
  assumes "change_valid c"
  shows "decode_goal_change (change_json c) = Inr (Some c)"
proof (cases c)
  case (ClearChange r t)
  have "decode_ref (fld (change_json c) ''cleared'') = Inr r"
    using assms ClearChange positive_integer_JInt by (cases r) (simp add: decode_ref_def keys_joined_def)
  then show ?thesis using assms ClearChange keys_change_json(1)[of r t]
    by (simp add: decode_goal_change_def decode_clear_def del: change_json.simps) simp
next
  case (SnapshotChange d)
  have "operation_name (sc_operation d) \<noteq> ''clear''" using assms SnapshotChange by (cases "sc_operation d") simp_all
  moreover have "decode_snapshot_change (change_json c) (sc_operation d) = Inr c"
    using assms SnapshotChange keys_change_json(2)[of d] decode_snapshot_json[of "sc_goal d"]
    by (cases d) (simp add: decode_snapshot_change_def)
  ultimately show ?thesis using assms SnapshotChange operation_of_name[of "sc_operation d"]
    by (simp add: decode_goal_change_def)
qed

lemma decode_snapshot_valid:
  assumes "decode_snapshot v = Inr g"
  shows "snapshot_valid g"
  using assms
  by (auto simp: decode_snapshot_def decode_snapshot_fields_def decode_block_reason_def snapshot_valid_def
      reason_valid_def split: option.splits if_splits)

lemma decode_goal_change_valid:
  assumes "decode_goal_change v = Inr (Some c)"
  shows "change_valid c"
proof -
  have "change_valid c" if "decode_clear v = Inr c"
    using that by (auto simp: decode_clear_def decode_ref_def dest: non_negative_integer_bounds split: option.splits if_splits)
  moreover have "change_valid c" if "decode_snapshot_change v op = Inr c" "op \<noteq> OpClear" for op
    using that by (auto simp: decode_snapshot_change_def dest: non_negative_integer_bounds decode_snapshot_valid split: if_splits)
  ultimately show ?thesis using assms
    by (auto simp: decode_goal_change_def bind_eq_Some_conv dest!: operation_of_not_clear split: if_splits option.splits)
qed

section \<open>Well-formed states\<close>

definition goal_wf :: "goal_fold_state \<Rightarrow> bool" where
  "goal_wf st \<longleftrightarrow> distinct (gf_seen st) \<and> [] \<notin> set (gf_seen st)
     \<and> safe_int (gf_rounds_started st) \<and> 0 \<le> gf_rounds_started st
     \<and> (case gf_goal st of
          None \<Rightarrow> gf_rounds_started st = 0 \<and> gf_created_at st = None \<and> gf_updated_at st = None
        | Some g \<Rightarrow> snapshot_valid g \<and> gs_id g \<in> set (gf_seen st)
            \<and> (case (gf_created_at st, gf_updated_at st) of
                 (Some c, Some u) \<Rightarrow> safe_int c \<and> 0 \<le> c \<and> safe_int u \<and> c \<le> u | _ \<Rightarrow> False))"

lemma goal_wf_goal:
  assumes "goal_wf st" and "gf_goal st = Some g"
  obtains c u where "snapshot_valid g" "gs_id g \<in> set (gf_seen st)" "gf_created_at st = Some c"
    "gf_updated_at st = Some u" "safe_int c" "0 \<le> c" "safe_int u" "c \<le> u"
  using assms by (auto simp: goal_wf_def split: option.splits)

lemma goal_wf_init [simp]: "goal_wf empty_goal_fold_state"
  by (simp add: goal_wf_def empty_goal_fold_state_def safe_int_def max_safe_def)

lemma validate_snapshot_transition_ref:
  "validate_snapshot_transition st c current = Inr () \<Longrightarrow>
     gs_id (sc_goal c) = gs_id current \<and> gs_revision (sc_goal c) = gs_revision current + 1
     \<and> sc_rounds_started c = gf_rounds_started st \<and> gf_created_at st = Some (sc_created_at c)"
  by (auto simp: validate_snapshot_transition_def require_next_revision_def snapshot_ref_def split: option.splits if_splits)

lemma apply_goal_change_wf:
  assumes "apply_goal_change st c = Inr st'" and "change_valid c" and "goal_wf st"
  shows "goal_wf st'"
proof (cases c)
  case (ClearChange r t)
  then show ?thesis using assms
    by (auto simp: goal_wf_def safe_int_def max_safe_def split: option.splits if_splits)
next
  case (SnapshotChange d)
  show ?thesis
  proof (cases "sc_operation d = OpCreate")
    case True
    then show ?thesis using assms SnapshotChange
      by (auto simp: goal_wf_def store_snapshot_def snapshot_valid_def split: option.splits if_splits)
  next
    case False
    then obtain g where "gf_goal st = Some g" "validate_snapshot_transition st d g = Inr ()" "st' = store_snapshot d st"
      using assms(1) SnapshotChange by (auto split: option.splits)
    then show ?thesis using assms(2,3) SnapshotChange validate_snapshot_transition_ref[of st d g]
      by (auto simp: goal_wf_def store_snapshot_def)
  qed
qed

lemma goal_source_bounds: "goal_source s = Inr (Some (gid, revision, round)) \<Longrightarrow> safe_int round \<and> 1 \<le> round"
  by (auto simp: goal_source_def split: message_source.splits if_splits option.splits sum.splits)

lemma admit_round_Inr:
  "admit_round st n (gid, revision, round) = Inr st' \<longleftrightarrow>
     (\<exists>g. gf_goal st = Some g \<and> gs_phase g = PhaseActive \<and> gid = gs_id g \<and> revision = gs_revision g
        \<and> round = gf_rounds_started st + 1 \<and> round \<le> gs_max_rounds g \<and> st' = st\<lparr>gf_rounds_started := round\<rparr>)"
  by (auto simp: admit_round_def split: option.splits if_splits)

text \<open>What an accepted event was.\<close>

lemma apply_goal_event_cases:
  assumes "apply_goal_event st e = Inr st'"
  obtains (unrelated) "\<not> goal_owned (ev_data e)" "st' = st"
  | (change) v c where "ev_data e = GoalChange v" "decode_goal_change v = Inr (Some c)"
      "apply_goal_change st c = Inr st'" "change_valid c"
  | (round) m g round where "ev_data e = UserMessage m" "goal_source (msg_source m) = Inr (Some (gs_id g, gs_revision g, round))"
      "gf_goal st = Some g" "gs_phase g = PhaseActive" "round = gf_rounds_started st + 1" "round \<le> gs_max_rounds g"
      "safe_int round" "st' = st\<lparr>gf_rounds_started := round\<rparr>"
proof (cases "ev_data e")
  case (GoalChange v)
  then show ?thesis using assms change decode_goal_change_valid
    by (auto simp: apply_goal_event_def split: option.splits)
next
  case (UserMessage m)
  then obtain src where src: "goal_source (msg_source m) = Inr src"
      "(case src of None \<Rightarrow> Inr st | Some x \<Rightarrow> admit_round st (ev_seq e) x) = Inr st'"
    using assms by (auto simp: apply_goal_event_def)
  show ?thesis
  proof (cases src)
    case None
    then have "\<not> goal_owned (ev_data e)" using src(1) UserMessage
      by (auto simp: goal_source_def split: message_source.splits if_splits option.splits sum.splits)
    then show ?thesis using src(2) None unrelated by simp
  next
    case (Some x)
    obtain gid revision rnd where x: "x = (gid, revision, rnd)" by (cases x)
    then show ?thesis using src Some UserMessage goal_source_bounds[of "msg_source m"]
      by (auto simp: admit_round_Inr intro!: round)
  qed
qed (use assms unrelated in \<open>simp_all add: apply_goal_event_def\<close>)

lemma apply_goal_event_wf:
  assumes "apply_goal_event st e = Inr st'" and "goal_wf st"
  shows "goal_wf st'"
  using assms(1)
proof (cases rule: apply_goal_event_cases)
  case (round m g n)
  then show ?thesis using assms(2) by (auto simp: goal_wf_def)
qed (use assms(2) apply_goal_change_wf in auto)

lemma goal_fold_snoc: "goal_fold (es @ [e]) = bindE (goal_fold es) (\<lambda>st. apply_goal_event st e)"
  by (simp add: goal_fold_def foldE_snoc)

lemma goal_fold_wf: "goal_fold es = Inr st \<Longrightarrow> goal_wf st"
proof (induction es arbitrary: st rule: rev_induct)
  case (snoc e es)
  then show ?case using apply_goal_event_wf by (auto simp: goal_fold_snoc)
qed (simp add: goal_fold_def)

section \<open>The life of a goal\<close>

type_synonym goal_stage = "string list \<times> (string \<times> goal_phase) option"

definition stage :: "goal_fold_state \<Rightarrow> goal_stage" where
  "stage st = (gf_seen st, map_option (\<lambda>g. (gs_id g, gs_phase g)) (gf_goal st))"

text \<open>The intended life of goals, without revisions, counters and times: the ids used so far and the
  current goal with its phase.\<close>

inductive lifecycle :: "goal_stage \<Rightarrow> goal_stage \<Rightarrow> bool" where
  stay: "lifecycle s s"
| create: "j \<notin> set ids \<Longrightarrow> (\<And>i p. cur = Some (i, p) \<Longrightarrow> p = PhaseComplete)
    \<Longrightarrow> lifecycle (ids, cur) (ids @ [j], Some (j, PhaseActive))"
| pause: "lifecycle (ids, Some (i, PhaseActive)) (ids, Some (i, PhasePaused))"
| resume: "p \<noteq> PhaseComplete \<Longrightarrow> lifecycle (ids, Some (i, p)) (ids, Some (i, PhaseActive))"
| complete: "p \<noteq> PhaseComplete \<Longrightarrow> lifecycle (ids, Some (i, p)) (ids, Some (i, PhaseComplete))"
| block: "lifecycle (ids, Some (i, PhaseActive)) (ids, Some (i, PhaseBlocked))"
| clear: "lifecycle (ids, Some x) (ids, None)"

inductive_cases lifecycleE: "lifecycle s (ids, cur)"

lemma validate_operation_lifecycle:
  assumes "validate_operation n op g g' = Inr ()" and "gs_id g' = gs_id g"
  shows "lifecycle (ids, Some (gs_id g, gs_phase g)) (ids, Some (gs_id g', gs_phase g'))"
  using assms by (cases op) (auto simp: validate_operation_def intro: lifecycle.intros)

lemma apply_goal_change_lifecycle:
  assumes "apply_goal_change st c = Inr st'"
  shows "lifecycle (stage st) (stage st')"
proof (cases c)
  case (ClearChange r t)
  then show ?thesis using assms by (auto simp: stage_def intro: lifecycle.intros split: option.splits if_splits)
next
  case (SnapshotChange d)
  show ?thesis
  proof (cases "sc_operation d = OpCreate")
    case True
    then show ?thesis using assms SnapshotChange
      by (auto simp: stage_def store_snapshot_def intro!: lifecycle.create split: option.splits if_splits)
  next
    case False
    then obtain g where "gf_goal st = Some g" "validate_snapshot_transition st d g = Inr ()" "st' = store_snapshot d st"
      using assms SnapshotChange by (auto split: option.splits)
    moreover from this(2) have "validate_operation (gf_rounds_started st) (sc_operation d) g (sc_goal d) = Inr ()"
      by (auto simp: validate_snapshot_transition_def split: option.splits if_splits)
    ultimately show ?thesis using validate_operation_lifecycle validate_snapshot_transition_ref[of st d g]
      by (auto simp: stage_def store_snapshot_def)
  qed
qed

lemma apply_goal_event_lifecycle:
  assumes "apply_goal_event st e = Inr st'"
  shows "lifecycle (stage st) (stage st')"
  using assms
proof (cases rule: apply_goal_event_cases)
  case (round m g n)
  then have "stage st' = stage st" by (simp add: stage_def)
  then show ?thesis by (simp add: lifecycle.stay)
qed (use apply_goal_change_lifecycle in \<open>auto intro: lifecycle.stay\<close>)

lemma foldE_lifecycle: "foldE apply_goal_event st es = Inr st' \<Longrightarrow> lifecycle\<^sup>*\<^sup>* (stage st) (stage st')"
proof (induction es arbitrary: st' rule: rev_induct)
  case (snoc e es)
  then obtain st1 where "foldE apply_goal_event st es = Inr st1" "apply_goal_event st1 e = Inr st'"
    by (auto simp: foldE_snoc)
  then show ?case using snoc.IH apply_goal_event_lifecycle by (meson rtranclp.rtrancl_into_rtrancl)
qed simp

lemma complete_is_final:
  assumes "lifecycle\<^sup>*\<^sup>* (ids, Some (i, PhaseComplete)) (ids', cur)" and "i \<in> set ids"
  shows "i \<in> set ids' \<and> (\<forall>p. cur = Some (i, p) \<longrightarrow> p = PhaseComplete)"
  using assms(1)
proof (induction "(ids', cur)" arbitrary: ids' cur rule: rtranclp_induct)
  case base
  then show ?case using assms(2) by simp
next
  case (step s)
  obtain ids1 cur1 where s: "s = (ids1, cur1)" by (cases s)
  have "i \<in> set ids1 \<and> (\<forall>p. cur1 = Some (i, p) \<longrightarrow> p = PhaseComplete)" by (rule step.hyps(3)[OF s])
  then show ?case using step.hyps(2) unfolding s by (auto elim: lifecycleE)
qed

section \<open>Creations\<close>

definition created_by :: "session_event \<Rightarrow> string option" where
  \<comment> \<open>the goal an event creates\<close>
  "created_by e = (case ev_data e of
     GoalChange v \<Rightarrow> (case decode_goal_change v of
        Inr (Some (SnapshotChange c)) \<Rightarrow> if sc_operation c = OpCreate then Some (gs_id (sc_goal c)) else None
      | _ \<Rightarrow> None)
   | _ \<Rightarrow> None)"

fun is_goal_change :: "event_data \<Rightarrow> bool" where
  "is_goal_change (GoalChange _) = True"
| "is_goal_change _ = False"

definition since_create :: "session_event list \<Rightarrow> session_event list" where
  \<comment> \<open>the events after the last creation\<close>
  "since_create es = rev (takeWhile (\<lambda>e. created_by e = None) (rev es))"

lemma since_create_snoc: "since_create (es @ [e]) = (if created_by e = None then since_create es @ [e] else [])"
  by (simp add: since_create_def)

lemma created_by_Some:
  assumes "apply_goal_event st e = Inr st'" and "created_by e = Some i"
  obtains c where "sc_operation c = OpCreate" "gs_id (sc_goal c) = i" "i \<notin> set (gf_seen st)"
    "gs_revision (sc_goal c) = 1" "sc_rounds_started c = 0"
    "st' = store_snapshot c (st\<lparr>gf_seen := gf_seen st @ [i]\<rparr>)"
proof -
  obtain v c where c: "ev_data e = GoalChange v" "decode_goal_change v = Inr (Some (SnapshotChange c))"
      "sc_operation c = OpCreate" "gs_id (sc_goal c) = i"
    using assms(2)
    by (cases "ev_data e") (auto simp: created_by_def split: sum.splits option.splits goal_change.splits if_splits)
  then show ?thesis using assms(1) that by (auto simp: apply_goal_event_def split: if_splits)
qed

lemma created_by_None:
  assumes "apply_goal_event st e = Inr st'" and "created_by e = None"
  shows "gf_seen st' = gf_seen st"
    and "gf_goal st' = Some g' \<Longrightarrow> \<exists>g. gf_goal st = Some g \<and> gs_id g = gs_id g'
       \<and> gs_revision g' = gs_revision g + (if is_goal_change (ev_data e) then 1 else 0)
       \<and> gf_rounds_started st' = gf_rounds_started st + (if goal_owned (ev_data e) \<and> \<not> is_goal_change (ev_data e) then 1 else 0)"
proof -
  have "gf_seen st' = gf_seen st \<and> (gf_goal st' = Some g' \<longrightarrow> (\<exists>g. gf_goal st = Some g \<and> gs_id g = gs_id g'
       \<and> gs_revision g' = gs_revision g + (if is_goal_change (ev_data e) then 1 else 0)
       \<and> gf_rounds_started st' = gf_rounds_started st + (if goal_owned (ev_data e) \<and> \<not> is_goal_change (ev_data e) then 1 else 0)))"
    using assms(1)
  proof (cases rule: apply_goal_event_cases)
    case unrelated
    then have "\<not> is_goal_change (ev_data e)" by (cases "ev_data e") simp_all
    then show ?thesis using unrelated by simp
  next
    case (change v c)
    show ?thesis
    proof (cases c)
      case (ClearChange r t)
      then show ?thesis using change by (auto split: option.splits if_splits)
    next
      case (SnapshotChange d)
      then have "sc_operation d \<noteq> OpCreate" using assms(2) change by (auto simp: created_by_def)
      then obtain g where "gf_goal st = Some g" "validate_snapshot_transition st d g = Inr ()" "st' = store_snapshot d st"
        using change(3) SnapshotChange by (auto split: option.splits)
      then show ?thesis using change(1) validate_snapshot_transition_ref[of st d g] by (auto simp: store_snapshot_def)
    qed
  next
    case (round m g n)
    then show ?thesis by (auto simp: goal_source_def split: message_source.splits)
  qed
  then show "gf_seen st' = gf_seen st"
    and "gf_goal st' = Some g' \<Longrightarrow> \<exists>g. gf_goal st = Some g \<and> gs_id g = gs_id g'
       \<and> gs_revision g' = gs_revision g + (if is_goal_change (ev_data e) then 1 else 0)
       \<and> gf_rounds_started st' = gf_rounds_started st + (if goal_owned (ev_data e) \<and> \<not> is_goal_change (ev_data e) then 1 else 0)"
    by blast+
qed

lemma goal_fold_seen: "goal_fold es = Inr st \<Longrightarrow> gf_seen st = List.map_filter created_by es"
proof (induction es arbitrary: st rule: rev_induct)
  case (snoc e es)
  then obtain st0 where st0: "goal_fold es = Inr st0" "apply_goal_event st0 e = Inr st" by (auto simp: goal_fold_snoc)
  have "gf_seen st = gf_seen st0 @ (case created_by e of None \<Rightarrow> [] | Some i \<Rightarrow> [i])"
  proof (cases "created_by e")
    case None
    then show ?thesis using created_by_None(1)[OF st0(2)] by simp
  next
    case (Some i)
    then show ?thesis by (auto simp: store_snapshot_def elim!: created_by_Some[OF st0(2)])
  qed
  then show ?case using snoc.IH[OF st0(1)] by (simp add: List.map_filter_def split: option.split)
qed (simp add: goal_fold_def empty_goal_fold_state_def List.map_filter_simps)

lemma goal_fold_counters:
  assumes "goal_fold es = Inr st" and "gf_goal st = Some g"
  shows "gs_revision g = 1 + int (length (filter (\<lambda>e. is_goal_change (ev_data e)) (since_create es)))
    \<and> gf_rounds_started st = int (length (filter (\<lambda>e. goal_owned (ev_data e) \<and> \<not> is_goal_change (ev_data e)) (since_create es)))
    \<and> (\<exists>e \<in> set es. created_by e = Some (gs_id g))"
  using assms
proof (induction es arbitrary: st g rule: rev_induct)
  case Nil
  then show ?case by (auto simp: goal_fold_def empty_goal_fold_state_def)
next
  case (snoc e es)
  then obtain st0 where st0: "goal_fold es = Inr st0" "apply_goal_event st0 e = Inr st" by (auto simp: goal_fold_snoc)
  show ?case
  proof (cases "created_by e")
    case None
    obtain g0 where g0: "gf_goal st0 = Some g0" "gs_id g0 = gs_id g"
        "gs_revision g = gs_revision g0 + (if is_goal_change (ev_data e) then 1 else 0)"
        "gf_rounds_started st = gf_rounds_started st0 + (if goal_owned (ev_data e) \<and> \<not> is_goal_change (ev_data e) then 1 else 0)"
      using created_by_None(2)[OF st0(2) None snoc.prems(2)] by blast
    show ?thesis using snoc.IH[OF st0(1) g0(1)] g0(2-4) None by (auto simp: since_create_snoc)
  next
    case (Some i)
    then show ?thesis using snoc.prems(2)
      by (auto simp: since_create_snoc store_snapshot_def elim!: created_by_Some[OF st0(2)])
  qed
qed

section \<open>The projection follows the fold\<close>

definition goal_projection_of :: "session_event list \<Rightarrow> goal_projection_state" where
  "goal_projection_of es = foldl apply_goal_projection initial_goal_state es"

lemma projection_ignores_last_ref [simp]:
  "goal_projection_state_of (st\<lparr>gf_last_ref := x\<rparr>) = goal_projection_state_of st"
  by (simp add: goal_projection_state_of_def split: option.split)

lemma store_snapshot_last_ref [simp]:
  "store_snapshot c (st\<lparr>gf_last_ref := x\<rparr>) = store_snapshot c st"
  "store_snapshot c (st\<lparr>gf_last_ref := x, gf_seen := ids\<rparr>) = store_snapshot c (st\<lparr>gf_seen := ids\<rparr>)"
  by (simp_all add: store_snapshot_def)

lemma apply_goal_change_last_ref [simp]: "apply_goal_change (st\<lparr>gf_last_ref := x\<rparr>) c = apply_goal_change st c"
  by (cases c) (simp_all add: validate_snapshot_transition_def split: option.split)

lemma bindE_cong_right: "(\<And>x. f x = g x) \<Longrightarrow> bindE m f = bindE m g"
  by (simp add: bindE_def split: sum.split)

lemma apply_goal_event_last_ref:
  "bindE (apply_goal_event (st\<lparr>gf_last_ref := x\<rparr>) e) goal_projection_state_of
     = bindE (apply_goal_event st e) goal_projection_state_of"
proof -
  have round: "bindE (admit_round (st\<lparr>gf_last_ref := x\<rparr>) n src) goal_projection_state_of
      = bindE (admit_round st n src) goal_projection_state_of" for n src
    by (auto simp: admit_round_def goal_projection_state_of_def split: option.split prod.split)
  show ?thesis
    by (cases "ev_data e")
      (auto simp: apply_goal_event_def bindE_assoc round intro!: bindE_cong_right split: option.split)
qed

lemma goal_projection_total:
  assumes "goal_wf st"
  obtains s where "goal_projection_state_of st = Inr s" "goal_fold_state_of s = st\<lparr>gf_last_ref := None\<rparr>"
    "gps_failure s = None" "gps_seen s = gf_seen st"
proof -
  have seen: "rev (remdups (rev (gf_seen st))) = gf_seen st"
    using assms by (simp add: goal_wf_def distinct_remdups_id)
  show ?thesis
  proof (cases "gf_goal st")
    case None
    let ?s = "\<lparr>gps_current = None, gps_seen = gf_seen st, gps_failure = None\<rparr>"
    have "goal_fold_state_of ?s = st\<lparr>gf_last_ref := None\<rparr>"
      using assms None seen by (simp add: goal_fold_state_of_def goal_wf_def)
    then show ?thesis using that[of ?s] None by (simp add: goal_projection_state_of_def)
  next
    case (Some g)
    obtain c u where cu: "gf_created_at st = Some c" "gf_updated_at st = Some u" by (rule goal_wf_goal[OF assms Some])
    let ?s = "\<lparr>gps_current = Some \<lparr>gp_goal = g, gp_rounds_started = gf_rounds_started st,
        gp_created_at = c, gp_updated_at = u\<rparr>, gps_seen = gf_seen st, gps_failure = None\<rparr>"
    have "goal_fold_state_of ?s = st\<lparr>gf_last_ref := None\<rparr>"
      using Some cu seen by (simp add: goal_fold_state_of_def)
    then show ?thesis using that[of ?s] Some cu by (simp add: goal_projection_state_of_def)
  qed
qed

lemma unowned_event: "\<not> goal_owned (ev_data e) \<Longrightarrow> apply_goal_event st e = Inr st"
  by (cases "ev_data e") (auto simp: apply_goal_event_def goal_source_def split: message_source.splits)

lemma apply_goal_projection_valid:
  assumes "goal_wf st" and "goal_projection_state_of st = Inr s"
  shows "apply_goal_projection s e = (case apply_goal_event st e of
      Inr st' \<Rightarrow> (case goal_projection_state_of st' of Inr s' \<Rightarrow> s' | Inl _ \<Rightarrow> s)
    | Inl f \<Rightarrow> s\<lparr>gps_failure := Some (ev_seq e, f)\<rparr>)"
proof -
  have s: "goal_fold_state_of s = st\<lparr>gf_last_ref := None\<rparr>" "gps_failure s = None"
    using goal_projection_total[OF assms(1)] assms(2) by auto
  show ?thesis
  proof (cases "goal_owned (ev_data e)")
    case True
    then have "apply_goal_projection s e = (case bindE (apply_goal_event st e) goal_projection_state_of of
        Inr s' \<Rightarrow> s' | Inl f \<Rightarrow> s\<lparr>gps_failure := Some (ev_seq e, f)\<rparr>)"
      by (simp add: apply_goal_projection_def s apply_goal_event_last_ref)
    moreover have "\<exists>s'. goal_projection_state_of st' = Inr s'" if "apply_goal_event st e = Inr st'" for st'
      using goal_projection_total[OF apply_goal_event_wf[OF that assms(1)]] by metis
    ultimately show ?thesis by (fastforce split: sum.split)
  next
    case False
    then show ?thesis using assms(2) by (simp add: apply_goal_projection_def s unowned_event)
  qed
qed

lemma apply_goal_projection_failed: "gps_failure s = Some f \<Longrightarrow> apply_goal_projection s e = s"
  by (simp add: apply_goal_projection_def)

lemma goal_projection_follows:
  "case goal_fold es of
     Inr st \<Rightarrow> goal_projection_state_of st = Inr (goal_projection_of es)
   | Inl f \<Rightarrow> \<exists>k st s. k < length es \<and> goal_fold (take k es) = Inr st \<and> goal_projection_state_of st = Inr s
       \<and> goal_projection_of es = s\<lparr>gps_failure := Some (ev_seq (es ! k), f)\<rparr>"
proof (induction es rule: rev_induct)
  case Nil
  then show ?case
    by (simp add: goal_fold_def goal_projection_of_def goal_projection_state_of_def empty_goal_fold_state_def initial_goal_state_def)
next
  case (snoc e es)
  show ?case
  proof (cases "goal_fold es")
    case (Inl f)
    then obtain k st s where k: "k < length es" "goal_fold (take k es) = Inr st" "goal_projection_state_of st = Inr s"
        "goal_projection_of es = s\<lparr>gps_failure := Some (ev_seq (es ! k), f)\<rparr>"
      using snoc.IH by auto
    have "goal_projection_of (es @ [e]) = s\<lparr>gps_failure := Some (ev_seq (es ! k), f)\<rparr>"
      using k(4) by (simp add: goal_projection_of_def apply_goal_projection_failed)
    then show ?thesis using Inl k(1-3)
      by (auto simp: goal_fold_snoc nth_append intro!: exI[of _ k] exI[of _ st] exI[of _ s])
  next
    case (Inr st)
    then have s: "goal_projection_state_of st = Inr (goal_projection_of es)" using snoc.IH by simp
    note step = apply_goal_projection_valid[OF goal_fold_wf[OF Inr] s, of e]
    show ?thesis
    proof (cases "apply_goal_event st e")
      case (Inl f)
      then show ?thesis using Inr s step
        by (auto simp: goal_fold_snoc goal_projection_of_def intro!: exI[of _ "length es"] exI[of _ st])
    next
      case (Inr st')
      obtain s' where "goal_projection_state_of st' = Inr s'"
        using goal_projection_total[OF apply_goal_event_wf[OF Inr goal_fold_wf[OF \<open>goal_fold es = Inr st\<close>]]] by metis
      then show ?thesis using Inr \<open>goal_fold es = Inr st\<close> step by (simp add: goal_fold_snoc goal_projection_of_def)
    qed
  qed
qed

section \<open>Properties of the durable goal\<close>

text \<open>C38: a goal change written by the service decodes to itself, and nothing but a valid change is
  ever decoded, whatever JSON the log holds.\<close>
theorem goal_change_roundtrip:
  "if change_valid c then decode_goal_change (change_json c) = Inr (Some c)
   else (\<forall>v. decode_goal_change v \<noteq> Inr (Some c))"
  using decode_change_json decode_goal_change_valid by auto

text \<open>C35: every state the strict replay reaches is well formed: the current goal is a valid snapshot
  with a reason exactly while blocked, its counters and times are safe and ordered, and the seen ids
  are those of the creations in the log, all different.\<close>
theorem goal_state_typed:
  assumes "goal_fold es = Inr st"
  shows "goal_wf st \<and> gf_seen st = List.map_filter created_by es \<and> distinct (List.map_filter created_by es)"
  using goal_fold_wf[OF assms] goal_fold_seen[OF assms] by (auto simp: goal_wf_def)

text \<open>C37: the revision of the current goal counts the goal changes since its creation, and its
  started rounds are the admitted goal messages since then, none missed and none counted twice.\<close>
theorem goal_counters_exact:
  assumes "goal_fold es = Inr st" and "gf_goal st = Some g"
  shows "gs_revision g = 1 + int (length (filter (\<lambda>e. is_goal_change (ev_data e)) (since_create es)))
    \<and> gf_rounds_started st = int (length (filter (\<lambda>e. goal_owned (ev_data e) \<and> \<not> is_goal_change (ev_data e)) (since_create es)))"
  using goal_fold_counters[OF assms] by blast

text \<open>C36: a completed goal never runs again: whatever accepted events follow, while its id is current
  its phase is complete.\<close>
theorem completed_goal_final:
  assumes "goal_fold es = Inr st" and "gf_goal st = Some g" and "gs_phase g = PhaseComplete"
    and "goal_fold (es @ fs) = Inr st'" and "gf_goal st' = Some g'" and "gs_id g' = gs_id g"
  shows "gs_phase g' = PhaseComplete"
proof -
  have "foldE apply_goal_event st fs = Inr st'"
    using assms(1,4) by (simp add: goal_fold_def foldE_append)
  from foldE_lifecycle[OF this] have "lifecycle\<^sup>*\<^sup>* (gf_seen st, Some (gs_id g, PhaseComplete)) (gf_seen st', Some (gs_id g, gs_phase g'))"
    using assms(2,3,5,6) by (simp add: stage_def)
  moreover have "gs_id g \<in> set (gf_seen st)" by (rule goal_wf_goal[OF goal_fold_wf[OF assms(1)] assms(2)])
  ultimately show ?thesis using complete_is_final by blast
qed

section \<open>A concrete log\<close>

definition ex_goal :: "int \<Rightarrow> goal_phase \<Rightarrow> int \<Rightarrow> goal_snapshot" where
  "ex_goal revision phase cap = \<lparr>gs_id = ''goal-1'', gs_revision = revision, gs_objective = ''ship it'', gs_phase = phase,
     gs_blocked_reason = None, gs_max_rounds = cap\<rparr>"

definition ex_change :: "goal_operation \<Rightarrow> goal_snapshot \<Rightarrow> int \<Rightarrow> int \<Rightarrow> event_data" where
  "ex_change op g rounds t = GoalChange (change_json (SnapshotChange \<lparr>sc_operation = op, sc_goal = g,
     sc_rounds_started = rounds, sc_created_at = 5, sc_updated_at = t\<rparr>))"

definition ex_round :: "int \<Rightarrow> int \<Rightarrow> event_data" where
  "ex_round revision n = UserMessage \<lparr>msg_id = ''m'', msg_role = User, msg_content = [TextBlock ''go on''],
     msg_source = OtherSource ''goal'' (JObj [(''goalId'', JStr ''goal-1''), (''revision'', JInt revision), (''round'', JInt n)]),
     msg_tool_call_id = None, msg_is_error = None\<rparr>"

definition ex_goal_log :: "session_event list" where
  \<comment> \<open>two rounds, then an edit that lowers the cap to one\<close>
  "ex_goal_log = [log_only 0 5 (ex_change OpCreate (ex_goal 1 PhaseActive 2) 0 5), log_only 1 6 (ex_round 1 1),
     log_only 2 7 (ex_round 1 2), log_only 3 8 (ex_change OpEdit (ex_goal 2 PhaseActive 1) 2 8)]"

definition ex_complete_log :: "session_event list" where
  "ex_complete_log = [log_only 0 5 (ex_change OpCreate (ex_goal 1 PhaseActive 2) 0 5),
     log_only 1 6 (ex_change OpComplete (ex_goal 2 PhaseComplete 2) 0 6)]"

lemma ex_goal_fold:
  "goal_fold ex_goal_log = Inr \<lparr>gf_goal = Some (ex_goal 2 PhaseActive 1), gf_rounds_started = 2, gf_created_at = Some 5,
     gf_updated_at = Some 8, gf_last_ref = Some \<lparr>gr_id = ''goal-1'', gr_revision = 2\<rparr>, gf_seen = [''goal-1'']\<rparr>"
  by code_simp

lemma ex_complete_fold:
  "goal_fold ex_complete_log = Inr \<lparr>gf_goal = Some (ex_goal 2 PhaseComplete 2), gf_rounds_started = 0, gf_created_at = Some 5,
     gf_updated_at = Some 6, gf_last_ref = Some \<lparr>gr_id = ''goal-1'', gr_revision = 2\<rparr>, gf_seen = [''goal-1'']\<rparr>"
  "goal_fold (ex_complete_log @ [log_only 2 9 (ex_change OpEdit (ex_goal 3 PhaseComplete 9) 0 9)])
     = Inr \<lparr>gf_goal = Some (ex_goal 3 PhaseComplete 9), gf_rounds_started = 0, gf_created_at = Some 5,
     gf_updated_at = Some 9, gf_last_ref = Some \<lparr>gr_id = ''goal-1'', gr_revision = 3\<rparr>, gf_seen = [''goal-1'']\<rparr>"
  by code_simp+

theorem goal_state_typed_witness: "List.map_filter created_by ex_goal_log = [''goal-1'']"
  using goal_state_typed[OF ex_goal_fold] by simp

theorem goal_counters_exact_witness:
  "length (filter (\<lambda>e. is_goal_change (ev_data e)) (since_create ex_goal_log)) = 1
   \<and> length (filter (\<lambda>e. goal_owned (ev_data e) \<and> \<not> is_goal_change (ev_data e)) (since_create ex_goal_log)) = 2"
  using goal_counters_exact[OF ex_goal_fold, of "ex_goal 2 PhaseActive 1"] by (simp add: ex_goal_def)

theorem completed_goal_final_witness: "gs_phase (ex_goal 3 PhaseComplete 9) = PhaseComplete"
  using completed_goal_final[OF ex_complete_fold(1) _ _ ex_complete_fold(2), of "ex_goal 2 PhaseComplete 2" "ex_goal 3 PhaseComplete 9"]
  by (simp add: ex_goal_def)

end
