(* ===== verification/GoalService.thy ===== *)
theory GoalService imports GoalFold UnitStore Effects begin

text \<open>
  The goal service (\<open>packages/goal/goal/src/index.ts\<close>): compare-and-set commands that read the
  current goal through the projection registry, commit one complete change, and keep a process-local
  activation. A command is a program over the store and the activation; the emitted notifications
  are recorded in order. Clock readings and the random part of a goal id are arguments.
\<close>

section \<open>Requests\<close>

datatype activation = Armed | Disarmed

record goal_view =
  gv_state :: goal_projection
  gv_activation :: activation

datatype goal_note =
    ActivationChanged "(goal_ref \<times> activation) option"
  | GoalChanged goal_operation goal_ref "goal_view option"

datatype 'e goal_failure =
    GoalStoreFailed 'e
  | GoalReplayFailed "nat \<times> goal_fault"
  | GoalNotLive
  | GoalNotFound
  | GoalAlreadyExists
  | GoalStaleRevision
  | GoalInvalidObjective
  | GoalInvalidMaxRounds
  | GoalInvalidBlockReason
  | GoalInvalidEdit
  | GoalInvalidTransition

definition resolve_max_goal_rounds :: "json \<Rightarrow> 'e goal_failure + int" where
  "resolve_max_goal_rounds v = (case v of
     JInt n \<Rightarrow> if safe_int n \<and> 1 \<le> n then Inr n else Inl GoalInvalidMaxRounds
   | _ \<Rightarrow> Inl GoalInvalidMaxRounds)"

definition resolve_objective :: "json \<Rightarrow> 'e goal_failure + string" where
  "resolve_objective v = (case v of
     JStr t \<Rightarrow> if trim t = [] then Inl GoalInvalidObjective else Inr (trim t)
   | _ \<Rightarrow> Inl GoalInvalidObjective)"

definition resolve_create_goal :: "json \<Rightarrow> json option \<Rightarrow> int \<Rightarrow> 'e goal_failure + string \<times> int" where
  "resolve_create_goal objective maxRounds dflt =
     bindE (resolve_objective objective) (\<lambda>t.
     bindE (resolve_max_goal_rounds (case maxRounds of Some v \<Rightarrow> v | None \<Rightarrow> JInt dflt)) (\<lambda>n.
       Inr (t, n)))"

definition resolve_block_reason :: "json \<Rightarrow> 'e goal_failure + block_reason" where
  "resolve_block_reason reason =
     (case (str_of (fld reason ''code''), str_of (fld reason ''message'')) of
        (Some code, Some message) \<Rightarrow>
          if \<not> kebab_case code \<or> trim message = [] then Inl GoalInvalidBlockReason
          else Inr \<lparr>br_code = code, br_message = trim message\<rparr>
      | _ \<Rightarrow> Inl GoalInvalidBlockReason)"

section \<open>The state a command works on\<close>

text \<open>The services a command calls: the projection read, \<open>Session.append\<close> of a goal change, the
  Session's next position, and whether the agent registry holds the agent.\<close>

record ('st, 'e) goal_services =
  sv_current :: "'st \<Rightarrow> 'e + goal_projection_state \<times> 'st"
  sv_put :: "event_data \<Rightarrow> 'st \<Rightarrow> 'e + 'st"
  sv_seq :: "'st \<Rightarrow> nat"
  sv_live :: bool

record 'st goal_host =
  gh_store :: 'st
  gh_activation :: activation
  gh_notes :: "goal_note list"

type_synonym ('st, 'e, 'a) goal_prog = "('st goal_host, 'e goal_failure, 'a) prog"

definition fromE :: "'e goal_failure + 'a \<Rightarrow> ('st, 'e, 'a) goal_prog" where
  "fromE r h = (r, h)"

definition read_projection :: "('st, 'e) goal_services \<Rightarrow> ('st, 'e, goal_projection_state) goal_prog" where
  "read_projection sv h = (case sv_current sv (gh_store h) of
     Inl e \<Rightarrow> (Inl (GoalStoreFailed e), h)
   | Inr (s, st) \<Rightarrow> (Inr s, h\<lparr>gh_store := st\<rparr>))"

definition assert_live :: "('st, 'e) goal_services \<Rightarrow> ('st, 'e, unit) goal_prog" where
  "assert_live sv = (if sv_live sv then returnS () else throwS GoalNotLive)"

definition goal_state :: "('st, 'e) goal_services \<Rightarrow> ('st, 'e, goal_projection option) goal_prog" where
  "goal_state sv = bindS (read_projection sv) (\<lambda>s.
     case gps_failure s of Some f \<Rightarrow> throwS (GoalReplayFailed f) | None \<Rightarrow> returnS (gps_current s))"

definition goal_activation :: "('st, 'e, activation) goal_prog" where
  "goal_activation h = (Inr (gh_activation h), h)"

definition emit :: "goal_note \<Rightarrow> ('st, 'e, unit) goal_prog" where
  "emit n = modifyS (\<lambda>h. h\<lparr>gh_notes := gh_notes h @ [n]\<rparr>)"

definition view_of :: "goal_projection option \<Rightarrow> activation \<Rightarrow> goal_view option" where
  "view_of p act = map_option (\<lambda>p. \<lparr>gv_state = p, gv_activation = act\<rparr>) p"

definition set_activation :: "('st, 'e) goal_services \<Rightarrow> activation \<Rightarrow> ('st, 'e, unit) goal_prog" where
  "set_activation sv act = bindS goal_activation (\<lambda>cur.
     if cur = act then returnS ()
     else thenS (modifyS (\<lambda>h. h\<lparr>gh_activation := act\<rparr>))
            (bindS (read_projection sv) (\<lambda>s.
               if gps_failure s \<noteq> None then returnS ()
               else emit (ActivationChanged (map_option (\<lambda>p. (snapshot_ref (gp_goal p), act)) (gps_current s))))))"

definition contained :: "('st, 'e, unit) goal_prog \<Rightarrow> ('st, 'e, unit) goal_prog" where
  \<comment> \<open>a listener whose failure the publisher contains\<close>
  "contained p h = (Inr (), snd (p h))"

definition on_goal_event :: "('st, 'e) goal_services \<Rightarrow> (nat \<times> activation) option \<Rightarrow> nat \<Rightarrow> ('st, 'e, unit) goal_prog" where
  \<comment> \<open>the \<open>session/event\<close> listener, with the pending activation\<close>
  "on_goal_event sv pending n = contained (set_activation sv (case pending of
     Some (offset, act) \<Rightarrow> if offset = n then act else Disarmed | None \<Rightarrow> Disarmed))"

definition append_change :: "('st, 'e) goal_services \<Rightarrow> activation \<Rightarrow> goal_change \<Rightarrow> ('st, 'e, nat) goal_prog" where
  \<comment> \<open>\<open>append\<close> publishes the event to the listener before it returns; the value is the event's position\<close>
  "append_change sv act change h =
     (let offset = sv_seq sv (gh_store h)
      in case sv_put sv (GoalChange (change_json change)) (gh_store h) of
           Inl e \<Rightarrow> (Inl (GoalStoreFailed e), h)
         | Inr st \<Rightarrow> thenS (on_goal_event sv (Some (offset, act)) (sv_seq sv st - 1)) (returnS (sv_seq sv st - 1))
                      (h\<lparr>gh_store := st\<rparr>))"

fun change_operation :: "goal_change \<Rightarrow> goal_operation" where
  "change_operation (ClearChange _ _) = OpClear"
| "change_operation (SnapshotChange c) = sc_operation c"

definition goal_commit :: "('st, 'e) goal_services \<Rightarrow> goal_change \<Rightarrow> activation \<Rightarrow> ('st, 'e, unit) goal_prog" where
  "goal_commit sv change act h =
     (let offset = sv_seq sv (gh_store h)
      in bindS (append_change sv act change) (\<lambda>n.
         thenS (whenS (offset = n) (modifyS (\<lambda>h. h\<lparr>gh_activation := act\<rparr>)))
         (bindS (goal_state sv) (\<lambda>p.
          bindS goal_activation (\<lambda>a.
            emit (GoalChanged (change_operation change) (goal_change_ref change) (view_of p a)))))) h)"

definition commit_snapshot :: "('st, 'e) goal_services \<Rightarrow> goal_operation \<Rightarrow> goal_snapshot \<Rightarrow> int \<Rightarrow> int \<Rightarrow> int \<Rightarrow> activation
    \<Rightarrow> ('st, 'e, goal_view) goal_prog" where
  "commit_snapshot sv op goal rounds createdAt updatedAt act =
     thenS (goal_commit sv (SnapshotChange \<lparr>sc_operation = op, sc_goal = goal, sc_rounds_started = rounds,
              sc_created_at = createdAt, sc_updated_at = updatedAt\<rparr>) act)
       (bindS goal_activation (\<lambda>a.
          returnS \<lparr>gv_state = \<lparr>gp_goal = goal, gp_rounds_started = rounds, gp_created_at = createdAt,
                     gp_updated_at = updatedAt\<rparr>, gv_activation = a\<rparr>))"

definition next_mutation_time :: "int \<Rightarrow> goal_projection \<Rightarrow> int" where
  "next_mutation_time now p = max now (gp_updated_at p)"

definition commit_current :: "('st, 'e) goal_services \<Rightarrow> int \<Rightarrow> goal_projection \<Rightarrow> goal_operation \<Rightarrow> goal_snapshot \<Rightarrow> activation
    \<Rightarrow> ('st, 'e, goal_view) goal_prog" where
  "commit_current sv now p op goal act =
     commit_snapshot sv op goal (gp_rounds_started p) (gp_created_at p) (next_mutation_time now p) act"

section \<open>Commands\<close>

definition prepare_mutation :: "('st, 'e) goal_services \<Rightarrow> ('st, 'e, goal_projection option) goal_prog" where
  "prepare_mutation sv = thenS (assert_live sv) (goal_state sv)"

definition expect_current :: "goal_projection option \<Rightarrow> goal_ref \<Rightarrow> 'e goal_failure + goal_projection" where
  "expect_current state ref =
     (case state of
        None \<Rightarrow> Inl GoalNotFound
      | Some p \<Rightarrow> if gr_id ref \<noteq> gs_id (gp_goal p) \<or> gr_revision ref \<noteq> gs_revision (gp_goal p)
                   then Inl GoalStaleRevision else Inr p)"

definition with_current :: "('st, 'e) goal_services \<Rightarrow> goal_ref \<Rightarrow> (goal_projection \<Rightarrow> ('st, 'e, 'a) goal_prog) \<Rightarrow> ('st, 'e, 'a) goal_prog" where
  \<comment> \<open>\<open>prepareMutation\<close> and \<open>expectCurrent\<close>, the head of every command on a current goal\<close>
  "with_current sv ref k = bindS (prepare_mutation sv) (\<lambda>state. bindS (fromE (expect_current state ref)) k)"

definition with_phase :: "goal_snapshot \<Rightarrow> goal_phase \<Rightarrow> goal_snapshot" where
  "with_phase g p = \<lparr>gs_id = gs_id g, gs_revision = gs_revision g + 1, gs_objective = gs_objective g,
     gs_phase = p, gs_blocked_reason = None, gs_max_rounds = gs_max_rounds g\<rparr>"

definition get_goal :: "('st, 'e) goal_services \<Rightarrow> ('st, 'e, goal_view option) goal_prog" where
  "get_goal sv = thenS (assert_live sv) (bindS (goal_state sv) (\<lambda>p.
     bindS goal_activation (\<lambda>a. returnS (view_of p a))))"

definition disarm_goal :: "('st, 'e) goal_services \<Rightarrow> ('st, 'e, goal_view option) goal_prog" where
  "disarm_goal sv = thenS (assert_live sv) (thenS (set_activation sv Disarmed) (bindS (goal_state sv) (\<lambda>p.
     bindS goal_activation (\<lambda>a. returnS (view_of p a)))))"

definition create_goal :: "('st, 'e) goal_services \<Rightarrow> int \<Rightarrow> int \<Rightarrow> string \<Rightarrow> json \<Rightarrow> json option \<Rightarrow> ('st, 'e, goal_view) goal_prog" where
  "create_goal sv dflt now uuid objective maxRounds =
     bindS (fromE (resolve_create_goal objective maxRounds dflt)) (\<lambda>(t, n).
     bindS (prepare_mutation sv) (\<lambda>state.
       if (case state of Some p \<Rightarrow> gs_phase (gp_goal p) \<noteq> PhaseComplete | None \<Rightarrow> False) then throwS GoalAlreadyExists
       else commit_snapshot sv OpCreate \<lparr>gs_id = ''goal-'' @ uuid, gs_revision = 1, gs_objective = t,
              gs_phase = PhaseActive, gs_blocked_reason = None, gs_max_rounds = n\<rparr> 0 now now Armed))"

definition edit_goal :: "('st, 'e) goal_services \<Rightarrow> int \<Rightarrow> goal_ref \<Rightarrow> json option \<Rightarrow> json option \<Rightarrow> ('st, 'e, goal_view) goal_prog" where
  "edit_goal sv now ref objective maxRounds = with_current sv ref (\<lambda>p.
     let g = gp_goal p in
     if objective = None \<and> maxRounds = None then throwS GoalInvalidEdit
     else bindS (fromE (case objective of None \<Rightarrow> Inr (gs_objective g) | Some v \<Rightarrow> resolve_objective v)) (\<lambda>t.
          bindS (fromE (case maxRounds of None \<Rightarrow> Inr (gs_max_rounds g) | Some v \<Rightarrow> resolve_max_goal_rounds v)) (\<lambda>n.
          bindS goal_activation (\<lambda>a.
            commit_current sv now p OpEdit (g\<lparr>gs_revision := gs_revision g + 1, gs_objective := t, gs_max_rounds := n\<rparr>) a))))"

definition transition_goal :: "('st, 'e) goal_services \<Rightarrow> int \<Rightarrow> goal_ref \<Rightarrow> goal_operation \<Rightarrow> goal_phase list \<Rightarrow> goal_phase
    \<Rightarrow> activation \<Rightarrow> ('st, 'e, goal_view) goal_prog" where
  "transition_goal sv now ref op allowed phase act = with_current sv ref (\<lambda>p.
     if gs_phase (gp_goal p) \<notin> set allowed then throwS GoalInvalidTransition
     else commit_current sv now p op (with_phase (gp_goal p) phase) act)"

definition pause_goal :: "('st, 'e) goal_services \<Rightarrow> int \<Rightarrow> goal_ref \<Rightarrow> ('st, 'e, goal_view) goal_prog" where
  "pause_goal sv now ref = transition_goal sv now ref OpPause [PhaseActive] PhasePaused Disarmed"

definition resume_goal :: "('st, 'e) goal_services \<Rightarrow> int \<Rightarrow> goal_ref \<Rightarrow> ('st, 'e, goal_view) goal_prog" where
  "resume_goal sv now ref = with_current sv ref (\<lambda>p. bindS goal_activation (\<lambda>a.
     let g = gp_goal p in
     if gs_phase g \<notin> set [PhaseActive, PhasePaused, PhaseBlocked] then throwS GoalInvalidTransition
     else if gs_phase g = PhaseActive \<and> a = Armed then throwS GoalInvalidTransition
     else if gs_max_rounds g \<le> gp_rounds_started p then throwS GoalInvalidTransition
     else commit_current sv now p OpResume (with_phase g PhaseActive) Armed))"

definition complete_goal :: "('st, 'e) goal_services \<Rightarrow> int \<Rightarrow> goal_ref \<Rightarrow> ('st, 'e, goal_view) goal_prog" where
  "complete_goal sv now ref =
     transition_goal sv now ref OpComplete [PhaseActive, PhasePaused, PhaseBlocked] PhaseComplete Disarmed"

definition block_goal :: "('st, 'e) goal_services \<Rightarrow> int \<Rightarrow> goal_ref \<Rightarrow> json \<Rightarrow> ('st, 'e, goal_view) goal_prog" where
  "block_goal sv now ref reason = with_current sv ref (\<lambda>p.
     if gs_phase (gp_goal p) \<noteq> PhaseActive then throwS GoalInvalidTransition
     else bindS (fromE (resolve_block_reason reason)) (\<lambda>r.
       commit_current sv now p OpBlock ((with_phase (gp_goal p) PhaseBlocked)\<lparr>gs_blocked_reason := Some r\<rparr>) Disarmed))"

definition clear_goal :: "('st, 'e) goal_services \<Rightarrow> int \<Rightarrow> goal_ref \<Rightarrow> ('st, 'e, goal_ref) goal_prog" where
  "clear_goal sv now ref = with_current sv ref (\<lambda>p.
     let tombstone = \<lparr>gr_id = gs_id (gp_goal p), gr_revision = gs_revision (gp_goal p) + 1\<rparr>
     in thenS (goal_commit sv (ClearChange tombstone (next_mutation_time now p)) Disarmed) (returnS tombstone))"

definition on_agent_created :: "('st, 'e) goal_services \<Rightarrow> ('st, 'e, unit) goal_prog" where
  "on_agent_created sv = set_activation sv Disarmed"

definition remote_create :: "('st, 'e) goal_services \<Rightarrow> int \<Rightarrow> int \<Rightarrow> string \<Rightarrow> json \<Rightarrow> json option \<Rightarrow> ('st, 'e, goal_ref) goal_prog" where
  "remote_create sv dflt now uuid objective maxRounds =
     bindS (create_goal sv dflt now uuid objective maxRounds) (\<lambda>v. returnS (snapshot_ref (gp_goal (gv_state v))))"

datatype goal_command =
    CreateGoal json "json option" string     \<comment> \<open>objective, round cap, random part of the id\<close>
  | EditGoal goal_ref "json option" "json option"
  | PauseGoal goal_ref
  | ResumeGoal goal_ref
  | CompleteGoal goal_ref
  | BlockGoal goal_ref json
  | ClearGoal goal_ref

datatype goal_reply = ViewReply goal_view | RefReply goal_ref

fun run_goal_command :: "('st, 'e) goal_services \<Rightarrow> int \<Rightarrow> int \<Rightarrow> goal_command \<Rightarrow> ('st, 'e, goal_reply) goal_prog" where
  "run_goal_command sv dflt now (CreateGoal objective maxRounds uuid) =
     bindS (create_goal sv dflt now uuid objective maxRounds) (\<lambda>v. returnS (ViewReply v))"
| "run_goal_command sv dflt now (EditGoal ref objective maxRounds) =
     bindS (edit_goal sv now ref objective maxRounds) (\<lambda>v. returnS (ViewReply v))"
| "run_goal_command sv dflt now (PauseGoal ref) = bindS (pause_goal sv now ref) (\<lambda>v. returnS (ViewReply v))"
| "run_goal_command sv dflt now (ResumeGoal ref) = bindS (resume_goal sv now ref) (\<lambda>v. returnS (ViewReply v))"
| "run_goal_command sv dflt now (CompleteGoal ref) = bindS (complete_goal sv now ref) (\<lambda>v. returnS (ViewReply v))"
| "run_goal_command sv dflt now (BlockGoal ref reason) = bindS (block_goal sv now ref reason) (\<lambda>v. returnS (ViewReply v))"
| "run_goal_command sv dflt now (ClearGoal ref) = bindS (clear_goal sv now ref) (\<lambda>r. returnS (RefReply r))"

section \<open>Changes the fold accepts\<close>

definition projection_sound :: "goal_projection_state \<Rightarrow> bool" where
  \<comment> \<open>the projection of some well-formed state of the fold\<close>
  "projection_sound s \<longleftrightarrow> gps_failure s = None \<and> (\<exists>st. goal_wf st \<and> goal_projection_state_of st = Inr s)"

definition accepts :: "goal_projection_state \<Rightarrow> goal_change \<Rightarrow> goal_projection_state \<Rightarrow> bool" where
  "accepts s c v \<longleftrightarrow> gps_failure s = None \<and> change_valid c
     \<and> bindE (apply_goal_change (goal_fold_state_of s) c) goal_projection_state_of = Inr v"

lemma accepts_projection:
  "accepts s c v \<Longrightarrow> apply_goal_projection s (log_only n t (GoalChange (change_json c))) = v"
  by (auto simp: accepts_def apply_goal_projection_def log_only_def apply_goal_event_def decode_change_json)

lemma projection_no_failure: "goal_projection_state_of st = Inr v \<Longrightarrow> gps_failure v = None"
  by (auto simp: goal_projection_state_of_def split: option.splits)

lemma accepts_no_failure: "accepts s c v \<Longrightarrow> gps_failure v = None"
  unfolding accepts_def bindE_eq_Inr using projection_no_failure by blast

lemma projection_sound_fields:
  assumes "projection_sound s"
  shows "gps_failure s = None" and "gf_seen (goal_fold_state_of s) = gps_seen s"
    and "gps_current s = None \<Longrightarrow> gf_goal (goal_fold_state_of s) = None"
    and "gps_current s = Some p \<Longrightarrow> snapshot_valid (gp_goal p) \<and> safe_int (gp_rounds_started p) \<and> 0 \<le> gp_rounds_started p
      \<and> safe_int (gp_created_at p) \<and> 0 \<le> gp_created_at p \<and> safe_int (gp_updated_at p) \<and> gp_created_at p \<le> gp_updated_at p"
proof -
  obtain st where st: "goal_wf st" "goal_projection_state_of st = Inr s" using assms by (auto simp: projection_sound_def)
  have s: "goal_fold_state_of s = st\<lparr>gf_last_ref := None\<rparr>" "gps_failure s = None" "gps_seen s = gf_seen st"
    using goal_projection_total[OF st(1)] st(2) by auto
  then show "gps_failure s = None" "gf_seen (goal_fold_state_of s) = gps_seen s" by simp_all
  show "gf_goal (goal_fold_state_of s) = None" if "gps_current s = None" using that by (simp add: goal_fold_state_of_def)
  show "snapshot_valid (gp_goal p) \<and> safe_int (gp_rounds_started p) \<and> 0 \<le> gp_rounds_started p
      \<and> safe_int (gp_created_at p) \<and> 0 \<le> gp_created_at p \<and> safe_int (gp_updated_at p) \<and> gp_created_at p \<le> gp_updated_at p"
    if "gps_current s = Some p"
    using st that by (auto simp: goal_projection_state_of_def goal_wf_def split: option.splits)
qed

lemma accepts_current:
  assumes "projection_sound s" and "gps_current s = Some p"
    and "snapshot_valid g" and "gs_id g = gs_id (gp_goal p)" and "gs_revision g = gs_revision (gp_goal p) + 1"
    and "op \<noteq> OpCreate" and "op \<noteq> OpClear"
    and "validate_operation (gp_rounds_started p) op (gp_goal p) g = Inr ()" and "safe_int now"
  shows "accepts s (SnapshotChange \<lparr>sc_operation = op, sc_goal = g, sc_rounds_started = gp_rounds_started p,
      sc_created_at = gp_created_at p, sc_updated_at = next_mutation_time now p\<rparr>)
    (s\<lparr>gps_current := Some \<lparr>gp_goal = g, gp_rounds_started = gp_rounds_started p,
        gp_created_at = gp_created_at p, gp_updated_at = next_mutation_time now p\<rparr>\<rparr>)"
proof -
  note field = projection_sound_fields[OF assms(1)]
  let ?c = "\<lparr>sc_operation = op, sc_goal = g, sc_rounds_started = gp_rounds_started p,
      sc_created_at = gp_created_at p, sc_updated_at = next_mutation_time now p\<rparr>"
  have "validate_snapshot_transition (goal_fold_state_of s) ?c (gp_goal p) = Inr ()"
    using assms(2,4,5,8) by (simp add: validate_snapshot_transition_def require_next_revision_def snapshot_ref_def
        goal_fold_state_of_def next_mutation_time_def)
  moreover have "change_valid (SnapshotChange ?c)"
    using field(4)[OF assms(2)] assms(3,7,9) by (auto simp: next_mutation_time_def max_def)
  ultimately show ?thesis using assms(2,6) field(1,2)
    by (simp add: accepts_def goal_fold_state_of_def goal_projection_state_of_def store_snapshot_def)
qed

lemma accepts_create:
  assumes "projection_sound s" and "snapshot_valid g" and "gs_revision g = 1" and "gs_phase g = PhaseActive"
    and "\<not> (case gps_current s of Some p \<Rightarrow> gs_phase (gp_goal p) \<noteq> PhaseComplete | None \<Rightarrow> False)"
    and "gs_id g \<notin> set (gps_seen s)" and "safe_int now" and "0 \<le> now"
  shows "accepts s (SnapshotChange \<lparr>sc_operation = OpCreate, sc_goal = g, sc_rounds_started = 0,
      sc_created_at = now, sc_updated_at = now\<rparr>)
    \<lparr>gps_current = Some \<lparr>gp_goal = g, gp_rounds_started = 0, gp_created_at = now, gp_updated_at = now\<rparr>,
     gps_seen = gps_seen s @ [gs_id g], gps_failure = None\<rparr>"
proof -
  note field = projection_sound_fields[OF assms(1)]
  have "\<not> (case gf_goal (goal_fold_state_of s) of Some g \<Rightarrow> gs_phase g \<noteq> PhaseComplete | None \<Rightarrow> False)"
    using assms(5) by (auto simp: goal_fold_state_of_def split: option.splits)
  moreover have "safe_int 0" by (simp add: safe_int_def max_safe_def)
  ultimately show ?thesis using assms(2-4,6-8) field(1,2)
    by (simp add: accepts_def goal_projection_state_of_def store_snapshot_def)
qed

lemma accepts_clear:
  assumes "projection_sound s" and "gps_current s = Some p" and "safe_int now" and "gs_revision (gp_goal p) < max_safe"
  shows "accepts s (ClearChange \<lparr>gr_id = gs_id (gp_goal p), gr_revision = gs_revision (gp_goal p) + 1\<rparr> (next_mutation_time now p))
    \<lparr>gps_current = None, gps_seen = gps_seen s, gps_failure = None\<rparr>"
proof -
  note field = projection_sound_fields[OF assms(1)]
  have "safe_int (gs_revision (gp_goal p) + 1) \<and> 1 \<le> gs_revision (gp_goal p) + 1 \<and> gs_id (gp_goal p) \<noteq> []"
    using field(4)[OF assms(2)] assms(4) by (simp add: snapshot_valid_def safe_int_def)
  then show ?thesis using field(1,2) field(4)[OF assms(2)] assms(2,3)
    by (auto simp: accepts_def goal_fold_state_of_def goal_projection_state_of_def require_next_revision_def
        next_mutation_time_def max_def)
qed

section \<open>The store behind the service\<close>

text \<open>A read answers the projection of the log; a goal change is committed at the next position and
  projected; a projection without failure is that of an accepted log.\<close>

abbreviation goal_event :: "event_data \<Rightarrow> bool" where
  "goal_event d \<equiv> (\<exists>v. d = GoalChange v)"

locale goal_store = fold_store "sv_current sv" "sv_put sv" view ok "\<lambda>s e. Inr (apply_goal_projection s e)" goal_event
  for sv :: "('st, 'e) goal_services" and view :: "'st \<Rightarrow> goal_projection_state" and ok :: "'st \<Rightarrow> bool" +
  assumes sound: "ok st \<Longrightarrow> gps_failure (view st) = None \<Longrightarrow> projection_sound (view st)"
    and seq_read: "ok st \<Longrightarrow> sv_current sv st = Inr (s, st') \<Longrightarrow> sv_seq sv st' = sv_seq sv st"
    and seq_write: "ok st \<Longrightarrow> goal_event d \<Longrightarrow> sv_put sv d st = Inr st' \<Longrightarrow> sv_seq sv st' = Suc (sv_seq sv st)"

fun is_rejection :: "'e goal_failure \<Rightarrow> bool" where
  \<comment> \<open>a refusal by the service's own checks, not by the store or the fold\<close>
  "is_rejection (GoalStoreFailed _) = False"
| "is_rejection (GoalReplayFailed _) = False"
| "is_rejection _ = True"

record ('st, 'a) goal_reading =
  rd_ok :: "'st \<Rightarrow> bool"
  rd_view :: "'st \<Rightarrow> goal_projection_state"
  rd_seq :: "'st \<Rightarrow> nat"
  rd_shown :: "'a \<Rightarrow> goal_projection option \<times> activation"

definition same_goal :: "('st, 'a) goal_reading \<Rightarrow> 'st goal_host \<Rightarrow> 'st goal_host \<Rightarrow> bool" where
  \<comment> \<open>nothing observable changed\<close>
  "same_goal rd h h' \<longleftrightarrow> rd_ok rd (gh_store h') \<and> rd_view rd (gh_store h') = rd_view rd (gh_store h)
     \<and> rd_seq rd (gh_store h') = rd_seq rd (gh_store h) \<and> gh_activation h' = gh_activation h \<and> gh_notes h' = gh_notes h"

definition goal_outcome :: "('st, 'a) goal_reading \<Rightarrow> 'st goal_host \<Rightarrow> ('e goal_failure + 'a) \<times> 'st goal_host \<Rightarrow> bool" where
  \<comment> \<open>a command either is refused and changes nothing, or commits one event the fold accepts and
    answers the state and the activation that result\<close>
  "goal_outcome rd h r = (case r of
     (Inl e, h') \<Rightarrow> is_rejection e \<and> same_goal rd h h'
   | (Inr x, h') \<Rightarrow> rd_ok rd (gh_store h') \<and> gps_failure (rd_view rd (gh_store h')) = None
       \<and> rd_seq rd (gh_store h') = Suc (rd_seq rd (gh_store h))
       \<and> rd_shown rd x = (gps_current (rd_view rd (gh_store h')), gh_activation h'))"

lemma goal_outcome_from: "same_goal rd h h' \<Longrightarrow> goal_outcome rd h' r \<Longrightarrow> goal_outcome rd h r"
  by (auto simp: goal_outcome_def same_goal_def split: prod.splits sum.splits)

lemma goal_outcome_throw: "is_rejection e \<Longrightarrow> rd_ok rd (gh_store h) \<Longrightarrow> goal_outcome rd h (throwS e h)"
  by (simp add: goal_outcome_def throwS_def same_goal_def)

lemma goal_outcome_fromE:
  assumes "rd_ok rd (gh_store h)" and "\<And>e. r = Inl e \<Longrightarrow> is_rejection e" and "\<And>x. r = Inr x \<Longrightarrow> goal_outcome rd h (k x h)"
  shows "goal_outcome rd h (bindS (fromE r) k h)"
  using assms by (cases r) (auto simp: bindS_def fromE_def goal_outcome_def same_goal_def)

lemma resolve_rejects:
  "resolve_max_goal_rounds v = Inl e \<Longrightarrow> is_rejection e"
  "resolve_objective v = Inl e \<Longrightarrow> is_rejection e"
  "resolve_create_goal v m d = Inl e \<Longrightarrow> is_rejection e"
  "resolve_block_reason v = Inl e \<Longrightarrow> is_rejection e"
  "expect_current p r = Inl e \<Longrightarrow> is_rejection e"
  by (auto simp: resolve_max_goal_rounds_def resolve_objective_def resolve_create_goal_def resolve_block_reason_def
      expect_current_def bindE_eq_Inl split: json.splits if_splits option.splits)

lemma trim_idem: "trim (trim t) = trim t"
proof -
  have drop: "dropWhile P (dropWhile P xs) = dropWhile P xs" for P and xs :: "char list"
    by (induction xs) simp_all
  have hd: "dropWhile P (rev (dropWhile P (rev (dropWhile P xs)))) = rev (dropWhile P (rev (dropWhile P xs)))"
    for P and xs :: "char list"
  proof -
    let ?u = "dropWhile P xs"
    obtain ws where ws: "?u = rev (dropWhile P (rev ?u)) @ ws"
      by (metis rev_append rev_rev_ident takeWhile_dropWhile_id)
    show ?thesis
    proof (cases "rev (dropWhile P (rev ?u))")
      case (Cons c cs)
      then have "?u = c # cs @ ws" using ws by simp
      then have "\<not> P c" by (metis hd_dropWhile list.distinct(1) list.sel(1))
      then show ?thesis using Cons by simp
    next
      case Nil
      then show ?thesis by (simp only: dropWhile.simps)
    qed
  qed
  show ?thesis unfolding trim_def hd by (simp add: drop)
qed

lemma resolve_results:
  "resolve_max_goal_rounds v = Inr n \<Longrightarrow> safe_int n \<and> 1 \<le> n"
  "resolve_objective v = Inr t \<Longrightarrow> normalized t"
  "resolve_block_reason v = Inr r \<Longrightarrow> reason_valid r"
  by (auto simp: resolve_max_goal_rounds_def resolve_objective_def resolve_block_reason_def normalized_def
      reason_valid_def trim_idem split: json.splits if_splits option.splits)

abbreviation shown_view :: "goal_view \<Rightarrow> goal_projection option \<times> activation" where
  "shown_view \<equiv> \<lambda>v. (Some (gv_state v), gv_activation v)"

fun shown_reply :: "goal_reply \<Rightarrow> goal_projection option \<times> activation" where
  \<comment> \<open>the current goal and the activation an answer stands for\<close>
  "shown_reply (ViewReply v) = (Some (gv_state v), gv_activation v)"
| "shown_reply (RefReply _) = (None, Disarmed)"

context goal_store begin

abbreviation reading :: "('r \<Rightarrow> goal_projection option \<times> activation) \<Rightarrow> ('st, 'r) goal_reading" where
  "reading shown \<equiv> \<lparr>rd_ok = ok, rd_view = view, rd_seq = sv_seq sv, rd_shown = shown\<rparr>"

abbreviation now_of :: "'st goal_host \<Rightarrow> goal_projection_state" where
  "now_of h \<equiv> view (gh_store h)"

lemma read_projection_ok:
  assumes "ok (gh_store h)"
  shows "\<exists>h'. read_projection sv h = (Inr (now_of h), h') \<and> same_goal (reading shown) h h'"
proof -
  obtain st' where "sv_current sv (gh_store h) = Inr (now_of h, st')" "ok st'" "view st' = now_of h"
    using reads[OF assms] by blast
  then show ?thesis using seq_read[OF assms] by (simp add: read_projection_def same_goal_def)
qed

lemma goal_state_ok:
  assumes "ok (gh_store h)" and "gps_failure (now_of h) = None"
  shows "\<exists>h'. goal_state sv h = (Inr (gps_current (now_of h)), h') \<and> same_goal (reading shown) h h'"
  using read_projection_ok[OF assms(1), of shown] assms(2) by (auto simp: goal_state_def bindS_def returnS_def)

lemma set_activation_ok:
  assumes "ok (gh_store h)"
  shows "\<exists>h'. set_activation sv act h = (Inr (), h') \<and> ok (gh_store h') \<and> now_of h' = now_of h
    \<and> sv_seq sv (gh_store h') = sv_seq sv (gh_store h) \<and> gh_activation h' = act"
proof (cases "gh_activation h = act")
  case True
  then show ?thesis using assms by (simp add: set_activation_def bindS_def goal_activation_def returnS_def)
next
  case False
  let ?h = "h\<lparr>gh_activation := act\<rparr>"
  have "ok (gh_store ?h)" using assms by simp
  from read_projection_ok[OF this, of "\<lambda>_. (None, act)"]
  obtain h' where "read_projection sv ?h = (Inr (now_of h), h')" "same_goal (reading (\<lambda>_. (None, act))) ?h h'" by auto
  then show ?thesis using False
    by (auto simp: set_activation_def bindS_def thenS_def goal_activation_def modifyS_def returnS_def emit_def same_goal_def)
qed

lemma goal_commit_ok:
  assumes "ok (gh_store h)" and "accepts (now_of h) c v"
  shows "\<exists>h'. goal_commit sv c act h = (Inr (), h') \<and> ok (gh_store h') \<and> now_of h' = v
    \<and> sv_seq sv (gh_store h') = Suc (sv_seq sv (gh_store h)) \<and> gh_activation h' = act
    \<and> last_opt (gh_notes h') = Some (GoalChanged (change_operation c) (goal_change_ref c) (view_of (gps_current v) act))"
proof -
  let ?d = "GoalChange (change_json c)"
  have "\<exists>st. sv_put sv ?d (gh_store h) = Inr st \<and> ok st \<and> view st = v"
    by (rule writes[OF assms(1)]) (simp_all add: accepts_projection[OF assms(2)])
  then obtain st where put: "sv_put sv ?d (gh_store h) = Inr st" "ok st" "view st = v" by blast
  have seq: "sv_seq sv st = Suc (sv_seq sv (gh_store h))" using seq_write[OF assms(1) _ put(1)] by blast
  let ?h = "h\<lparr>gh_store := st\<rparr>"
  obtain h1 where h1: "set_activation sv act ?h = (Inr (), h1)" "ok (gh_store h1)" "now_of h1 = v"
      "sv_seq sv (gh_store h1) = sv_seq sv st" "gh_activation h1 = act"
    using set_activation_ok[of ?h act] put by auto
  then have "append_change sv act c h = (Inr (sv_seq sv (gh_store h)), h1)"
    using put(1) seq by (simp add: append_change_def Let_def on_goal_event_def contained_def thenS_def bindS_def returnS_def)
  moreover have same: "h1\<lparr>gh_activation := act\<rparr> = h1" using h1(5) by simp
  moreover obtain h2 where "goal_state sv h1 = (Inr (gps_current v), h2)" "same_goal (reading (\<lambda>_. (None, act))) h1 h2"
    using goal_state_ok[OF h1(2), of "\<lambda>_. (None, act)"] h1(3) accepts_no_failure[OF assms(2)] by auto
  ultimately show ?thesis using h1 seq
    by (auto simp: goal_commit_def Let_def bindS_def thenS_def whenS_def modifyS_def goal_activation_def emit_def
        same_goal_def)
qed

lemma commit_snapshot_outcome:
  assumes "ok (gh_store h)"
    and "accepts (now_of h) (SnapshotChange \<lparr>sc_operation = op, sc_goal = g, sc_rounds_started = n,
        sc_created_at = c, sc_updated_at = u\<rparr>) v"
    and "gps_current v = Some \<lparr>gp_goal = g, gp_rounds_started = n, gp_created_at = c, gp_updated_at = u\<rparr>"
    and "shown = (\<lambda>v :: goal_view. (Some (gv_state v), gv_activation v))"
  shows "goal_outcome (reading shown) h (commit_snapshot sv op g n c u act h)"
  using goal_commit_ok[OF assms(1,2), of act] accepts_no_failure[OF assms(2)] assms(3,4)
  by (auto simp: commit_snapshot_def goal_outcome_def thenS_def bindS_def goal_activation_def returnS_def)

lemma prepared_outcome:
  assumes "ok (gh_store h)" and "gps_failure (now_of h) = None"
    and "\<And>h'. same_goal (reading shown) h h' \<Longrightarrow> goal_outcome (reading shown) h' (k (gps_current (now_of h)) h')"
  shows "goal_outcome (reading shown) h (bindS (prepare_mutation sv) k h)"
proof (cases "sv_live sv")
  case True
  obtain h' where "goal_state sv h = (Inr (gps_current (now_of h)), h')" "same_goal (reading shown) h h'"
    using goal_state_ok[OF assms(1,2)] by blast
  moreover from goal_outcome_from[OF this(2) assms(3)[OF this(2)]]
  have "goal_outcome (reading shown) h (k (gps_current (now_of h)) h')" .
  ultimately show ?thesis using True
    by (simp add: prepare_mutation_def assert_live_def thenS_def bindS_def returnS_def)
next
  case False
  then show ?thesis using assms(1)
    by (auto simp: prepare_mutation_def assert_live_def thenS_def bindS_def throwS_def goal_outcome_def same_goal_def)
qed

lemma current_outcome:
  assumes "ok (gh_store h)" and "gps_failure (now_of h) = None"
    and "\<And>p h'. gps_current (now_of h') = Some p \<Longrightarrow> ok (gh_store h') \<Longrightarrow> now_of h' = now_of h
      \<Longrightarrow> projection_sound (now_of h') \<Longrightarrow> goal_outcome (reading shown) h' (k p h')"
  shows "goal_outcome (reading shown) h (with_current sv ref k h)"
  unfolding with_current_def
proof (rule prepared_outcome[OF assms(1,2)])
  fix h' assume same: "same_goal (reading shown) h h'"
  then have h': "ok (gh_store h')" "now_of h' = now_of h" by (simp_all add: same_goal_def)
  show "goal_outcome (reading shown) h' (bindS (fromE (expect_current (gps_current (now_of h)) ref)) k h')"
  proof (rule goal_outcome_fromE)
    fix p assume "expect_current (gps_current (now_of h)) ref = Inr p"
    then have "gps_current (now_of h') = Some p" using h' by (auto simp: expect_current_def split: option.splits if_splits)
    then show "goal_outcome (reading shown) h' (k p h')"
      using assms(2,3) h' sound[OF h'(1)] by simp
  qed (use h' resolve_rejects in auto)
qed

definition may_change :: "'st goal_host \<Rightarrow> int \<Rightarrow> bool" where
  "may_change h now \<longleftrightarrow> ok (gh_store h) \<and> gps_failure (now_of h) = None \<and> safe_int now \<and> 0 \<le> now
     \<and> (case gps_current (now_of h) of Some p \<Rightarrow> gs_revision (gp_goal p) < max_safe | None \<Rightarrow> True)"

lemma commit_current_outcome:
  assumes "may_change h now" and "projection_sound (now_of h)" and "gps_current (now_of h) = Some p"
    and "snapshot_valid g" and "gs_id g = gs_id (gp_goal p)" and "gs_revision g = gs_revision (gp_goal p) + 1"
    and "op \<noteq> OpCreate" and "op \<noteq> OpClear"
    and "validate_operation (gp_rounds_started p) op (gp_goal p) g = Inr ()"
  shows "goal_outcome (reading shown_view) h (commit_current sv now p op g act h)"
  unfolding commit_current_def
  by (rule commit_snapshot_outcome[OF _ accepts_current[OF assms(2-9)]]) (use assms(1) in \<open>simp_all add: may_change_def\<close>)

lemma next_snapshot_valid:
  assumes "may_change h now" and "projection_sound (now_of h)" and "gps_current (now_of h) = Some p"
  shows "safe_int (gs_revision (gp_goal p) + 1) \<and> 1 \<le> gs_revision (gp_goal p) + 1 \<and> snapshot_valid (gp_goal p)"
  using projection_sound_fields(4)[OF assms(2,3)] assms(1,3) by (simp add: may_change_def snapshot_valid_def safe_int_def)

lemma with_phase_valid:
  assumes "may_change h now" and "projection_sound (now_of h)" and "gps_current (now_of h) = Some p" and "phase \<noteq> PhaseBlocked"
  shows "snapshot_valid (with_phase (gp_goal p) phase)"
  using next_snapshot_valid[OF assms(1-3)] assms(4) by (simp add: snapshot_valid_def with_phase_def)

lemma current_command:
  assumes "may_change h now"
    and "\<And>p h'. gps_current (now_of h') = Some p \<Longrightarrow> may_change h' now \<Longrightarrow> projection_sound (now_of h')
      \<Longrightarrow> goal_outcome (reading shown) h' (k p h')"
  shows "goal_outcome (reading shown) h (with_current sv ref k h)"
proof (rule current_outcome)
  fix p h' assume h': "gps_current (now_of h') = Some p" "ok (gh_store h')" "now_of h' = now_of h" "projection_sound (now_of h')"
  then have "may_change h' now" using assms(1) by (simp add: may_change_def)
  then show "goal_outcome (reading shown) h' (k p h')" using assms(2) h'(1,4) by blast
qed (use assms(1) in \<open>simp_all add: may_change_def\<close>)

lemma transition_outcome:
  assumes "may_change h now" and "phase \<noteq> PhaseBlocked" and "op \<noteq> OpCreate" and "op \<noteq> OpClear"
    and "\<And>n g. gs_phase g \<in> set allowed \<Longrightarrow> validate_operation n op g (with_phase g phase) = Inr ()"
  shows "goal_outcome (reading shown_view) h (transition_goal sv now ref op allowed phase act h)"
  unfolding transition_goal_def
proof (rule current_command[OF assms(1)])
  fix p h' assume h': "gps_current (now_of h') = Some p" "may_change h' now" "projection_sound (now_of h')"
  show "goal_outcome (reading shown_view) h' ((if gs_phase (gp_goal p) \<notin> set allowed then throwS GoalInvalidTransition
      else commit_current sv now p op (with_phase (gp_goal p) phase) act) h')"
  proof (cases "gs_phase (gp_goal p) \<in> set allowed")
    case True
    then show ?thesis
      using commit_current_outcome[OF h'(2,3,1) with_phase_valid[OF h'(2,3,1) assms(2)] _ _ assms(3,4) assms(5)[OF True]]
      by (simp add: with_phase_def)
  qed (use h'(2) in \<open>simp add: goal_outcome_throw may_change_def\<close>)
qed

lemma pause_outcome: "may_change h now \<Longrightarrow> goal_outcome (reading shown_view) h (pause_goal sv now ref h)"
  unfolding pause_goal_def
  by (rule transition_outcome) (simp_all add: validate_operation_def require_same_definition_def with_phase_def)

lemma complete_outcome: "may_change h now \<Longrightarrow> goal_outcome (reading shown_view) h (complete_goal sv now ref h)"
  unfolding complete_goal_def
  by (rule transition_outcome) (auto simp: validate_operation_def require_same_definition_def with_phase_def)

lemma resume_outcome:
  assumes "may_change h now"
  shows "goal_outcome (reading shown_view) h (resume_goal sv now ref h)"
  unfolding resume_goal_def
proof (rule current_command[OF assms])
  fix p h' assume h': "gps_current (now_of h') = Some p" "may_change h' now" "projection_sound (now_of h')"
  have throw: "goal_outcome (reading shown_view) h' (throwS GoalInvalidTransition h')"
    using h'(2) by (simp add: goal_outcome_throw may_change_def)
  let ?g = "gp_goal p"
  have commit: "goal_outcome (reading shown_view) h' (commit_current sv now p OpResume (with_phase ?g PhaseActive) Armed h')"
    if "gs_phase ?g \<in> set [PhaseActive, PhasePaused, PhaseBlocked]" "\<not> gs_max_rounds ?g \<le> gp_rounds_started p"
    by (rule commit_current_outcome[OF h'(2,3,1) with_phase_valid[OF h'(2,3,1)]])
      (use that in \<open>simp_all add: validate_operation_def require_same_definition_def with_phase_def\<close>)
  show "goal_outcome (reading shown_view) h' (bindS goal_activation (\<lambda>a. let g = gp_goal p in
      if gs_phase g \<notin> set [PhaseActive, PhasePaused, PhaseBlocked] then throwS GoalInvalidTransition
      else if gs_phase g = PhaseActive \<and> a = Armed then throwS GoalInvalidTransition
      else if gs_max_rounds g \<le> gp_rounds_started p then throwS GoalInvalidTransition
      else commit_current sv now p OpResume (with_phase g PhaseActive) Armed) h')"
    using throw commit by (cases "gs_phase ?g") (auto simp: bindS_def goal_activation_def Let_def)
qed

lemma block_outcome:
  assumes "may_change h now"
  shows "goal_outcome (reading shown_view) h (block_goal sv now ref reason h)"
  unfolding block_goal_def
proof (rule current_command[OF assms])
  fix p h' assume h': "gps_current (now_of h') = Some p" "may_change h' now" "projection_sound (now_of h')"
  let ?g = "gp_goal p"
  have ok: "ok (gh_store h')" using h'(2) by (simp add: may_change_def)
  have commit: "goal_outcome (reading shown_view) h'
      (commit_current sv now p OpBlock ((with_phase ?g PhaseBlocked)\<lparr>gs_blocked_reason := Some r\<rparr>) Disarmed h')"
    if "gs_phase ?g = PhaseActive" "resolve_block_reason reason = Inr r" for r
    by (rule commit_current_outcome[OF h'(2,3,1)])
      (use that(1) resolve_results(3)[OF that(2)] next_snapshot_valid[OF h'(2,3,1)]
        in \<open>simp_all add: validate_operation_def require_same_definition_def with_phase_def snapshot_valid_def\<close>)
  show "goal_outcome (reading shown_view) h' ((if gs_phase ?g \<noteq> PhaseActive then throwS GoalInvalidTransition
      else bindS (fromE (resolve_block_reason reason)) (\<lambda>r.
        commit_current sv now p OpBlock ((with_phase ?g PhaseBlocked)\<lparr>gs_blocked_reason := Some r\<rparr>) Disarmed)) h')"
  proof (cases "gs_phase ?g = PhaseActive")
    case True
    have "goal_outcome (reading shown_view) h' (bindS (fromE (resolve_block_reason reason)) (\<lambda>r.
        commit_current sv now p OpBlock ((with_phase ?g PhaseBlocked)\<lparr>gs_blocked_reason := Some r\<rparr>) Disarmed) h')"
      by (rule goal_outcome_fromE) (use ok commit[OF True] resolve_rejects(4) in auto)
    then show ?thesis using True by simp
  qed (use ok in \<open>simp add: goal_outcome_throw\<close>)
qed

lemma edit_outcome:
  assumes "may_change h now"
  shows "goal_outcome (reading shown_view) h (edit_goal sv now ref objective maxRounds h)"
  unfolding edit_goal_def
proof (rule current_command[OF assms])
  fix p h' assume h': "gps_current (now_of h') = Some p" "may_change h' now" "projection_sound (now_of h')"
  let ?g = "gp_goal p"
  let ?t = "case objective of None \<Rightarrow> Inr (gs_objective ?g) | Some v \<Rightarrow> resolve_objective v"
  let ?n = "case maxRounds of None \<Rightarrow> Inr (gs_max_rounds ?g) | Some v \<Rightarrow> resolve_max_goal_rounds v"
  let ?k = "\<lambda>t n. bindS goal_activation (\<lambda>a.
      commit_current sv now p OpEdit (?g\<lparr>gs_revision := gs_revision ?g + 1, gs_objective := t, gs_max_rounds := n\<rparr>) a)"
  have ok: "ok (gh_store h')" using h'(2) by (simp add: may_change_def)
  note old = next_snapshot_valid[OF h'(2,3,1)]
  have rejects: "is_rejection e" if "?t = Inl e \<or> ?n = Inl e" for e
    using that resolve_rejects(1,2) by (auto split: option.splits)
  have "goal_outcome (reading shown_view) h' (?k t n h')" if t: "?t = Inr t" and n: "?n = Inr n" for t n
  proof -
    have "normalized t" using t old resolve_results(2) by (auto simp: snapshot_valid_def split: option.splits)
    moreover have "safe_int n \<and> 1 \<le> n" using n old resolve_results(1) by (auto simp: snapshot_valid_def split: option.splits)
    ultimately have "goal_outcome (reading shown_view) h'
        (commit_current sv now p OpEdit (?g\<lparr>gs_revision := gs_revision ?g + 1, gs_objective := t, gs_max_rounds := n\<rparr>) a h')" for a
      by (intro commit_current_outcome[OF h'(2,3,1)])
        (use old in \<open>simp_all add: validate_operation_def snapshot_valid_def split: option.splits\<close>)
    then show ?thesis by (simp add: bindS_def goal_activation_def)
  qed
  then have "goal_outcome (reading shown_view) h' (bindS (fromE ?t) (\<lambda>t. bindS (fromE ?n) (?k t)) h')"
    by (intro goal_outcome_fromE[where rd = "reading shown_view"]) (use ok rejects in auto)
  then show "goal_outcome (reading shown_view) h' ((let g = gp_goal p in
      if objective = None \<and> maxRounds = None then throwS GoalInvalidEdit
      else bindS (fromE (case objective of None \<Rightarrow> Inr (gs_objective g) | Some v \<Rightarrow> resolve_objective v)) (\<lambda>t.
           bindS (fromE (case maxRounds of None \<Rightarrow> Inr (gs_max_rounds g) | Some v \<Rightarrow> resolve_max_goal_rounds v)) (\<lambda>n.
           bindS goal_activation (\<lambda>a.
             commit_current sv now p OpEdit (g\<lparr>gs_revision := gs_revision g + 1, gs_objective := t, gs_max_rounds := n\<rparr>) a)))) h')"
    using ok by (simp add: Let_def goal_outcome_throw)
qed

lemma create_outcome:
  assumes "may_change h now" and "''goal-'' @ uuid \<notin> set (gps_seen (now_of h))"
  shows "goal_outcome (reading shown_view) h (create_goal sv dflt now uuid objective maxRounds h)"
  unfolding create_goal_def
proof (rule goal_outcome_fromE)
  show "rd_ok (reading shown_view) (gh_store h)" using assms(1) by (simp add: may_change_def)
  fix x assume x: "resolve_create_goal objective maxRounds dflt = (Inr x :: 'e goal_failure + string \<times> int)"
  obtain t n where tn: "x = (t, n)" by (cases x)
  let ?g = "\<lparr>gs_id = ''goal-'' @ uuid, gs_revision = 1, gs_objective = t, gs_phase = PhaseActive,
      gs_blocked_reason = None, gs_max_rounds = n\<rparr>"
  have "normalized t" "safe_int n \<and> 1 \<le> n"
    using x resolve_results(1,2) unfolding tn resolve_create_goal_def by (auto split: option.splits)
  then have valid: "snapshot_valid ?g" by (simp add: snapshot_valid_def safe_int_def max_safe_def)
  have pre: "ok (gh_store h)" "gps_failure (now_of h) = None" using assms(1) by (simp_all add: may_change_def)
  have "goal_outcome (reading shown_view) h (bindS (prepare_mutation sv) (\<lambda>state.
      if (case state of Some p \<Rightarrow> gs_phase (gp_goal p) \<noteq> PhaseComplete | None \<Rightarrow> False) then throwS GoalAlreadyExists
      else commit_snapshot sv OpCreate ?g 0 now now Armed) h)"
  proof (rule prepared_outcome[OF pre])
    fix h' assume "same_goal (reading shown_view) h h'"
    then have h': "ok (gh_store h')" "now_of h' = now_of h" by (simp_all add: same_goal_def)
    have sound: "projection_sound (now_of h')" using sound[OF h'(1)] h'(2) pre(2) by simp
    have "goal_outcome (reading shown_view) h' (commit_snapshot sv OpCreate ?g 0 now now Armed h')"
      if "\<not> (case gps_current (now_of h') of Some p \<Rightarrow> gs_phase (gp_goal p) \<noteq> PhaseComplete | None \<Rightarrow> False)"
      by (rule commit_snapshot_outcome[OF h'(1) accepts_create[OF sound valid _ _ that]])
        (use assms h'(2) in \<open>simp_all add: may_change_def\<close>)
    then show "goal_outcome (reading shown_view) h' ((if (case gps_current (now_of h) of
        Some p \<Rightarrow> gs_phase (gp_goal p) \<noteq> PhaseComplete | None \<Rightarrow> False) then throwS GoalAlreadyExists
        else commit_snapshot sv OpCreate ?g 0 now now Armed) h')"
      using h' by (simp add: goal_outcome_throw)
  qed
  then show "goal_outcome (reading shown_view) h ((case x of (t, n) \<Rightarrow> bindS (prepare_mutation sv) (\<lambda>state.
      if (case state of Some p \<Rightarrow> gs_phase (gp_goal p) \<noteq> PhaseComplete | None \<Rightarrow> False) then throwS GoalAlreadyExists
      else commit_snapshot sv OpCreate \<lparr>gs_id = ''goal-'' @ uuid, gs_revision = 1, gs_objective = t,
        gs_phase = PhaseActive, gs_blocked_reason = None, gs_max_rounds = n\<rparr> 0 now now Armed)) h)"
    by (simp add: tn)
qed (rule resolve_rejects)

lemma create_succeeds:
  assumes "may_change h now" and "sv_live sv" and "resolve_create_goal objective maxRounds dflt = (Inr (t, n) :: 'e goal_failure + string \<times> int)"
    and "gps_current (now_of h) = None" and "''goal-'' @ uuid \<notin> set (gps_seen (now_of h))"
  shows "\<exists>v h'. create_goal sv dflt now uuid objective maxRounds h = (Inr v, h')
    \<and> gs_objective (gp_goal (gv_state v)) = t \<and> gh_activation h' = Armed"
proof -
  have pre: "ok (gh_store h)" "gps_failure (now_of h) = None" "safe_int now" "0 \<le> now" using assms(1) by (simp_all add: may_change_def)
  obtain h1 where h1: "goal_state sv h = (Inr None, h1)" "same_goal (reading shown_view) h h1"
    using goal_state_ok[OF pre(1,2), of shown_view] assms(4) by auto
  then have now: "ok (gh_store h1)" "now_of h1 = now_of h" by (simp_all add: same_goal_def)
  let ?g = "\<lparr>gs_id = ''goal-'' @ uuid, gs_revision = 1, gs_objective = t, gs_phase = PhaseActive,
      gs_blocked_reason = None, gs_max_rounds = n\<rparr>"
  have "normalized t" "safe_int n \<and> 1 \<le> n"
    using assms(3) resolve_results(1,2) unfolding resolve_create_goal_def by (auto split: option.splits)
  then have valid: "snapshot_valid ?g" by (simp add: snapshot_valid_def safe_int_def max_safe_def)
  have sound: "projection_sound (now_of h1)" using sound[OF now(1)] now(2) pre(2) by simp
  obtain h2 where "goal_commit sv (SnapshotChange \<lparr>sc_operation = OpCreate, sc_goal = ?g, sc_rounds_started = 0,
      sc_created_at = now, sc_updated_at = now\<rparr>) Armed h1 = (Inr (), h2)" "gh_activation h2 = Armed"
    using goal_commit_ok[OF now(1) accepts_create[OF sound valid _ _ _ _ pre(3,4)], of Armed] assms(4,5) now(2) by auto
  then show ?thesis using h1(1) assms(2,3)
    by (simp add: create_goal_def bindS_def fromE_def prepare_mutation_def assert_live_def thenS_def returnS_def
        commit_snapshot_def goal_activation_def)
qed

lemma clear_outcome:
  assumes "may_change h now"
  shows "goal_outcome (reading (\<lambda>_. (None, Disarmed))) h (clear_goal sv now ref h)"
  unfolding clear_goal_def
proof (rule current_command[OF assms])
  fix p h' assume h': "gps_current (now_of h') = Some p" "may_change h' now" "projection_sound (now_of h')"
  have bounds: "safe_int now" "gs_revision (gp_goal p) < max_safe" "ok (gh_store h')"
    using h'(1,2) by (simp_all add: may_change_def)
  note accepted = accepts_clear[OF h'(3,1) bounds(1,2)]
  show "goal_outcome (reading (\<lambda>_. (None, Disarmed))) h'
      ((let tombstone = \<lparr>gr_id = gs_id (gp_goal p), gr_revision = gs_revision (gp_goal p) + 1\<rparr>
        in thenS (goal_commit sv (ClearChange tombstone (next_mutation_time now p)) Disarmed) (returnS tombstone)) h')"
    using goal_commit_ok[OF bounds(3) accepted, of Disarmed]
    by (auto simp: Let_def thenS_def bindS_def returnS_def goal_outcome_def)
qed

lemma outcome_reply:
  assumes "goal_outcome (reading f) h (p h)" and "\<And>x. shown_reply (g x) = f x"
  shows "goal_outcome (reading shown_reply) h (bindS p (\<lambda>x. returnS (g x)) h)"
  using assms by (auto simp: goal_outcome_def bindS_def returnS_def same_goal_def split: prod.splits sum.splits)

lemma view_reply:
  "goal_outcome (reading shown_view) h (p h)
     \<Longrightarrow> goal_outcome (reading shown_reply) h (bindS p (\<lambda>v. returnS (ViewReply v)) h)"
  by (rule outcome_reply) simp_all

lemma ref_reply:
  "goal_outcome (reading (\<lambda>_. (None, Disarmed))) h (p h)
     \<Longrightarrow> goal_outcome (reading shown_reply) h (bindS p (\<lambda>r. returnS (RefReply r)) h)"
  by (rule outcome_reply) simp_all

lemma command_outcome:
  assumes "may_change h now" and "\<And>t m uuid. c = CreateGoal t m uuid \<Longrightarrow> ''goal-'' @ uuid \<notin> set (gps_seen (now_of h))"
  shows "goal_outcome (reading shown_reply) h (run_goal_command sv dflt now c h)"
proof (cases c)
  case (CreateGoal t m uuid)
  show ?thesis unfolding CreateGoal run_goal_command.simps
    by (rule view_reply, rule create_outcome[OF assms(1) assms(2)[OF CreateGoal]])
next
  case (ClearGoal ref)
  show ?thesis unfolding ClearGoal run_goal_command.simps by (rule ref_reply, rule clear_outcome[OF assms(1)])
qed (simp_all only: run_goal_command.simps,
    (rule view_reply, rule edit_outcome pause_outcome resume_outcome complete_outcome block_outcome, rule assms(1))+)

end

section \<open>A Session with its registry behind the service\<close>

type_synonym goal_unit_store = "(goal_projection_state, goal_projection option, goal_unit_error) unit_store"

definition session_goals :: "projection list \<Rightarrow> (nat \<Rightarrow> int) \<Rightarrow> bool \<Rightarrow> (goal_unit_store, goal_unit_error store_error) goal_services" where
  "session_goals projections clock live = \<lparr>sv_current = unit_current ''goal'', sv_put = unit_put projections clock,
     sv_seq = (\<lambda>st. length (ss_log (fst st))), sv_live = live\<rparr>"

definition goals_ok :: "projection list \<Rightarrow> goal_unit_store \<Rightarrow> bool" where
  "goals_ok projections st \<longleftrightarrow> store_ok projections goal_unit st \<and> (\<forall>v. log_only_data projections (GoalChange v))"

lemma goal_unit_fields:
  "ud_key goal_unit = ''goal''" "ud_version goal_unit = 6"
  "ud_apply goal_unit = (\<lambda>s e. Inr (apply_goal_projection s e))"
  by (simp_all add: goal_unit_def)

lemma foldE_foldl: "foldE (\<lambda>s e. Inr (f s e)) s es = Inr (foldl f s es)"
  by (induction es arbitrary: s) simp_all

lemma unit_fold_goal: "unit_fold h n goal_unit es = Inr (goal_projection_of es)"
  by (simp add: unit_fold_def goal_unit_def goal_projection_of_def foldE_foldl)

lemma goal_store_view: "store_view goal_unit st = goal_projection_of (ss_log (fst st))"
  by (simp add: store_view_def store_fold_def unit_fold_goal)

lemma projection_sound_of: "gps_failure (goal_projection_of es) = None \<Longrightarrow> projection_sound (goal_projection_of es)"
  using goal_projection_follows[of es] goal_fold_wf[of es]
  by (auto simp: projection_sound_def split: sum.splits)

interpretation session_goal: goal_store "session_goals projections clock live" "store_view goal_unit" "goals_ok projections"
proof
  fix st assume "goals_ok projections st"
  then show "\<exists>st'. sv_current (session_goals projections clock live) st = Inr (store_view goal_unit st, st')
      \<and> goals_ok projections st' \<and> store_view goal_unit st' = store_view goal_unit st"
    using unit_store.reads[of projections goal_unit st] by (auto simp: goals_ok_def session_goals_def goal_unit_fields)
next
  fix st d v
  assume "goals_ok projections st" "goal_event d" "\<And>n t. Inr (apply_goal_projection (store_view goal_unit st) (log_only n t d)) = Inr v"
  then show "\<exists>st'. sv_put (session_goals projections clock live) d st = Inr st' \<and> goals_ok projections st' \<and> store_view goal_unit st' = v"
    using unit_store.writes[of projections goal_unit st d v clock] by (auto simp: goals_ok_def session_goals_def goal_unit_fields)
next
  fix st assume "gps_failure (store_view goal_unit st) = None"
  then show "projection_sound (store_view goal_unit st)" by (simp add: goal_store_view projection_sound_of)
next
  fix st s st'
  assume "goals_ok projections st" "sv_current (session_goals projections clock live) st = Inr (s, st')"
  then show "sv_seq (session_goals projections clock live) st' = sv_seq (session_goals projections clock live) st"
    using unit_current_ok[of projections goal_unit st] by (auto simp: goals_ok_def session_goals_def goal_unit_fields)
next
  fix st d st'
  assume ok: "goals_ok projections st" and d: "goal_event d" and put: "sv_put (session_goals projections clock live) d st = Inr st'"
  have "log_only_data projections d" using ok d by (auto simp: goals_ok_def)
  moreover have "store_ok projections goal_unit st" using ok by (simp add: goals_ok_def)
  ultimately obtain st1 e where "unit_put projections clock d st = Inr st1" "ss_log (fst st1) = ss_log (fst st) @ [e]"
    using unit_put_ok[of projections goal_unit st d clock] by (auto simp: goal_unit_fields)
  then show "sv_seq (session_goals projections clock live) st' = Suc (sv_seq (session_goals projections clock live) st)"
    using put by (simp add: session_goals_def)
qed

section \<open>Properties of the goal service\<close>

definition current_goal :: "goal_fold_state \<Rightarrow> goal_projection option" where
  "current_goal st = (case goal_projection_state_of st of Inr s \<Rightarrow> gps_current s | Inl _ \<Rightarrow> None)"

lemma goal_fold_view:
  assumes "goal_fold (ss_log (fst s)) = Inr st"
  shows "gps_failure (store_view goal_unit s) = None" and "gps_current (store_view goal_unit s) = current_goal st"
    and "gps_seen (store_view goal_unit s) = gf_seen st"
proof -
  have p: "goal_projection_state_of st = Inr (store_view goal_unit s)"
    using goal_projection_follows[of "ss_log (fst s)"] assms by (simp add: goal_store_view)
  then show "gps_failure (store_view goal_unit s) = None" "gps_current (store_view goal_unit s) = current_goal st"
    "gps_seen (store_view goal_unit s) = gf_seen st"
    using projection_no_failure[OF p] goal_projection_total[OF goal_fold_wf[OF assms]] by (auto simp: current_goal_def)
qed

lemma view_goal_fold:
  assumes "gps_failure (store_view goal_unit s) = None"
  shows "\<exists>st. goal_fold (ss_log (fst s)) = Inr st \<and> current_goal st = gps_current (store_view goal_unit s)"
  using assms goal_projection_follows[of "ss_log (fst s)"]
  by (auto simp: goal_store_view current_goal_def split: sum.splits)

lemma current_goal_goal: "current_goal st = Some p \<Longrightarrow> gf_goal st = Some (gp_goal p)"
  by (auto simp: current_goal_def goal_projection_state_of_def split: option.splits)


lemma ex_goals_ok: "\<exists>st. goals_ok ex_projections st \<and> ss_log (fst st) = []"
proof -
  have "register_unit goal_unit [] = Inr [(ud_key goal_unit, \<lparr>rg_def = goal_unit, rg_cell = None, rg_refs = 1\<rparr>)]"
    by (simp add: register_unit_def goal_unit_def safe_int_def max_safe_def)
  then obtain st where st: "store_ok ex_projections goal_unit st" "ss_log (fst st) = []" using fresh_store by blast
  then have "goals_ok ex_projections st"
    by (simp add: goals_ok_def log_only_data_def image_offload_projection_def)
  then show ?thesis using st(2) by blast
qed


section \<open>A checkpoint that cannot be read back\<close>

abbreviation goal_registry :: "(goal_projection_state, goal_projection option, goal_unit_error) registry" where
  "goal_registry \<equiv> [(''goal'', \<lparr>rg_def = goal_unit, rg_cell = None, rg_refs = 1\<rparr>)]"

lemma projection_current:
  "goal_projection_state_of st = Inr s \<Longrightarrow> gf_goal st = Some g
     \<Longrightarrow> \<exists>p. gps_current s = Some p \<and> gp_goal p = g \<and> gp_rounds_started p = gf_rounds_started st"
  by (auto simp: goal_projection_state_of_def split: option.splits)

lemma restore_goal:
  assumes "contiguous es" and "es \<noteq> []"
  shows "restore h n [] es 0 goal_registry
    = Inr (int (length es) - 1, [(''goal'', gps_current (goal_projection_of es))],
        [(''goal'', \<lparr>cr_ver = 6, cr_seq = int (length es) - 1, cr_val = goal_projection_of es\<rparr>)])"
proof -
  have fin: "end_cursor es 0 = int (length es) - 1" using end_cursor_drop[OF assms(1), of 0] assms(2) by simp
  have "foldE (replay_step goal_unit 0) initial_goal_state (enumerate 0 es) = Inr (goal_projection_of es)"
    using replay_suffix[OF assms(1), of 0 0 h n goal_unit initial_goal_state]
    by (simp add: unit_fold_goal goal_projection_of_def)
  moreover have "ud_init goal_unit h n = initial_goal_state" "ud_view goal_unit = Some (\<lambda>s. Inr (gps_current s))"
    by (simp_all add: goal_unit_def)
  ultimately show ?thesis
    by (simp add: restore_def live_units_def restore_unit_def Let_def cursor_before_eq fin restored_row_def goal_unit_fields
        List.map_filter_def)
qed

text \<open>C39: lowering a goal's round cap below the rounds it has started, which the service and the
  replay accept, leaves a state whose checkpoint the projection schema rejects: restoring from the
  log alone succeeds, and restoring with the row it has just written fails.\<close>
theorem lowered_cap_blocks_restore:
  assumes "goal_fold es = Inr st" and "gf_goal st = Some g" and "gs_max_rounds g < gf_rounds_started st"
    and "contiguous es"
  shows "\<exists>fin v rows. restore h n [] es 0 goal_registry = Inr (fin, v, rows)
      \<and> restore h n rows es 0 goal_registry = Inl (UnitFailed GoalStateRejected)"
proof -
  have ne: "es \<noteq> []" using assms(1,2) by (auto simp: goal_fold_def empty_goal_fold_state_def)
  have fin: "end_cursor es 0 = int (length es) - 1" using end_cursor_drop[OF assms(4), of 0] ne by simp
  have p: "goal_projection_state_of st = Inr (goal_projection_of es)"
    using goal_projection_follows[of es] assms(1) by simp
  have "\<not> goal_state_valid (goal_projection_of es)"
    using projection_current[OF p assms(2)] assms(3) by (auto simp: goal_state_valid_def)
  then have "ud_parse goal_unit (goal_projection_of es) = Inl GoalStateRejected" by (simp add: goal_unit_def)
  then have "restore h n [(''goal'', \<lparr>cr_ver = 6, cr_seq = int (length es) - 1, cr_val = goal_projection_of es\<rparr>)] es 0 goal_registry
      = Inl (UnitFailed GoalStateRejected)"
    by (simp add: restore_def live_units_def restore_unit_def Let_def cursor_before_eq fin goal_unit_fields unit_error_def)
  then show ?thesis using restore_goal[OF assms(4) ne] by blast
qed

abbreviation ex_goal_header :: session_header where
  "ex_goal_header \<equiv> \<lparr>sh_version = 6, sh_id = ''a'', sh_created_at = 1, sh_cwd = None, sh_parent_session = None,
     sh_is_seeded = False, sh_origin_subagent = False, sh_delegation_depth = None, sh_agent_preset = None\<rparr>"

theorem lowered_cap_blocks_restore_witness:
  "\<exists>fin v rows. restore ex_goal_header 0 [] ex_goal_log 0 goal_registry = Inr (fin, v, rows)
     \<and> restore ex_goal_header 0 rows ex_goal_log 0 goal_registry = Inl (UnitFailed GoalStateRejected)"
proof -
  have "contiguous ex_goal_log" by (simp add: contiguous_def ex_goal_log_def log_only_def)
  then show ?thesis
    using lowered_cap_blocks_restore[OF ex_goal_fold, of "ex_goal 2 PhaseActive 1"] by (simp add: ex_goal_def)
qed

end
