(* ===== verification/ToolPairing.thy ===== *)
theory ToolPairing imports SessionLog Effects begin

text \<open>
  The tool-pairing balance of a Session surface
  (\<open>packages/compaction/compaction/src/tool-pairing.ts\<close>): the incremental cache of the cuts at
  which no tool call is unanswered. The locale \<open>surface_history\<close> states what the cache relies on:
  within one replacement generation the surface only grows, and events do not change. It is
  interpreted on the logs a Session accepts.
\<close>

section \<open>The cache\<close>

record balance_cache =
  bc_generation :: nat
  bc_cut_balanced :: "bool list"
  bc_index_by_seq :: "(nat \<times> nat) list"
  bc_in_progress :: int

datatype pairing_error =
    PairingSurface session_error
  | NoMatchingEvent nat
  | NoMatchingCall nat
  | SeqNotOnSurface nat

definition event_delta :: "session_event \<Rightarrow> int" where
  "event_delta e = (case ev_data e of
     AssistantMessage _ _ m _ _ _ \<Rightarrow> int (length (filter is_tool_call (msg_content m)))
   | ToolResult _ _ _ _ _ \<Rightarrow> - 1
   | _ \<Rightarrow> 0)"

definition scan_seq :: "(nat \<Rightarrow> session_event option) \<Rightarrow> bool list \<times> int \<Rightarrow> nat \<Rightarrow> pairing_error + bool list \<times> int" where
  \<comment> \<open>one turn of the loop over the unseen tail\<close>
  "scan_seq look acc n =
     (case look n of
        None \<Rightarrow> Inl (NoMatchingEvent n)
      | Some e \<Rightarrow>
          if ev_seq e \<noteq> n then Inl (NoMatchingEvent n)
          else let progress = snd acc + event_delta e
               in if progress < 0 then Inl (NoMatchingCall n) else Inr (fst acc @ [progress = 0], progress))"

definition extend_cache :: "(nat \<Rightarrow> session_event option) \<Rightarrow> balance_cache \<Rightarrow> nat list \<Rightarrow> pairing_error + balance_cache" where
  "extend_cache look cache seqs =
     (let processed = length (bc_cut_balanced cache) - 1;
          tail = drop processed seqs
      in bindE (foldE (scan_seq look) ([], bc_in_progress cache) tail) (\<lambda>(pending, progress).
           Inr (cache\<lparr>bc_index_by_seq := foldl (\<lambda>m (n, i). AList.update n i m) (bc_index_by_seq cache)
                                          (zip tail [processed ..< processed + length tail]),
                      bc_cut_balanced := bc_cut_balanced cache @ pending, bc_in_progress := progress\<rparr>)))"

definition balance_state :: "(nat \<Rightarrow> session_event option) \<Rightarrow> nat list \<Rightarrow> nat \<Rightarrow> balance_cache option
    \<Rightarrow> pairing_error + balance_cache" where
  "balance_state look seqs generation cached =
     (let rebuild = extend_cache look \<lparr>bc_generation = generation, bc_cut_balanced = [True],
            bc_index_by_seq = [], bc_in_progress = 0\<rparr> seqs
      in case cached of
           None \<Rightarrow> rebuild
         | Some c \<Rightarrow>
             if bc_generation c \<noteq> generation \<or> length seqs < length (bc_cut_balanced c) - 1 then rebuild
             else if length (bc_cut_balanced c) - 1 < length seqs then extend_cache look c seqs
             else Inr c)"

definition cut_balance :: "balance_cache \<Rightarrow> nat \<Rightarrow> nat \<Rightarrow> pairing_error + bool" where
  "cut_balance cache n offset =
     (case bindO (map_of (bc_index_by_seq cache) n) (\<lambda>i. nth_opt (bc_cut_balanced cache) (i + offset)) of
        None \<Rightarrow> Inl (SeqNotOnSurface n)
      | Some b \<Rightarrow> Inr b)"

section \<open>Against a Session\<close>

record pairing_host =
  ph_session :: session
  ph_cache :: "balance_cache option"

definition surface_get :: "projection list \<Rightarrow> (fold_state \<Rightarrow> 'a) \<Rightarrow> ('x pairing_host_scheme, session_error, 'a) prog" where
  \<comment> \<open>a getter of \<open>session.surface\<close>\<close>
  "surface_get projections get h =
     (let s = ph_session h
      in case read_surface get projections 0 (ss_log s) (ss_surface s) of
           Inl e \<Rightarrow> (Inl (SurfaceFailed e), h)
         | Inr (x, mg) \<Rightarrow> (Inr x, h\<lparr>ph_session := s\<lparr>ss_surface := mg\<rparr>\<rparr>))"

definition mapErrS :: "('e \<Rightarrow> 'f) \<Rightarrow> ('s, 'e, 'a) prog \<Rightarrow> ('s, 'f, 'a) prog" where
  "mapErrS f p st = (case p st of (Inl e, st') \<Rightarrow> (Inl (f e), st') | (Inr x, st') \<Rightarrow> (Inr x, st'))"

definition balance_cache_of :: "projection list \<Rightarrow> ('x pairing_host_scheme, pairing_error, balance_cache) prog" where
  "balance_cache_of projections =
     bindS (mapErrS PairingSurface (surface_get projections fs_nodes)) (\<lambda>seqs.
     bindS (mapErrS PairingSurface (surface_get projections fs_replace_generation)) (\<lambda>generation. \<lambda>h.
       case balance_state (event_at (ph_session h)) seqs generation (ph_cache h) of
         Inl e \<Rightarrow> (Inl e, h)
       | Inr c \<Rightarrow> (Inr c, h\<lparr>ph_cache := Some c\<rparr>)))"

definition cut_balanced :: "projection list \<Rightarrow> nat \<Rightarrow> nat \<Rightarrow> ('x pairing_host_scheme, pairing_error, bool) prog" where
  "cut_balanced projections offset n = bindS (balance_cache_of projections) (\<lambda>c h. (cut_balance c n offset, h))"

definition tool_pairing_balanced_before :: "projection list \<Rightarrow> nat \<Rightarrow> ('x pairing_host_scheme, pairing_error, bool) prog" where
  "tool_pairing_balanced_before projections n = cut_balanced projections 0 n"

definition tool_pairing_balanced_after :: "projection list \<Rightarrow> nat \<Rightarrow> ('x pairing_host_scheme, pairing_error, bool) prog" where
  "tool_pairing_balanced_after projections n = cut_balanced projections 1 n"

section \<open>The balance from scratch\<close>

definition call_count :: "(nat \<Rightarrow> session_event option) \<Rightarrow> nat list \<Rightarrow> int" where
  \<comment> \<open>tool calls less tool results\<close>
  "call_count look ns = sum_list (map (\<lambda>n. case look n of Some e \<Rightarrow> event_delta e | None \<Rightarrow> 0) ns)"

definition paired :: "(nat \<Rightarrow> session_event option) \<Rightarrow> nat list \<Rightarrow> bool" where
  \<comment> \<open>no result comes before its call\<close>
  "paired look ns \<longleftrightarrow> list_all (\<lambda>i. 0 \<le> call_count look (take i ns)) [0 ..< Suc (length ns)]"

definition present :: "(nat \<Rightarrow> session_event option) \<Rightarrow> nat list \<Rightarrow> bool" where
  "present look ns \<longleftrightarrow> (\<forall>n \<in> set ns. \<exists>e. look n = Some e \<and> ev_seq e = n)"

definition exact_cache :: "(nat \<Rightarrow> session_event option) \<Rightarrow> nat \<Rightarrow> nat list \<Rightarrow> balance_cache" where
  "exact_cache look generation ns =
     \<lparr>bc_generation = generation,
      bc_cut_balanced = map (\<lambda>i. call_count look (take i ns) = 0) [0 ..< Suc (length ns)],
      bc_index_by_seq = zip ns [0 ..< length ns], bc_in_progress = call_count look ns\<rparr>"

lemma call_count_simps [simp]:
  "call_count f [] = 0"
  "call_count f (xs @ ys) = call_count f xs + call_count f ys"
  "call_count f (x # xs) = (case f x of Some e \<Rightarrow> event_delta e | None \<Rightarrow> 0) + call_count f xs"
  by (simp_all add: call_count_def)

lemma call_count_cong: "(\<And>n. n \<in> set ns \<Longrightarrow> f n = g n) \<Longrightarrow> call_count f ns = call_count g ns"
  by (induction ns) simp_all

lemma paired_iff: "paired f ns \<longleftrightarrow> (\<forall>i \<le> length ns. 0 \<le> call_count f (take i ns))"
  by (auto simp: paired_def list_all_iff)

lemma paired_snoc: "paired f (ns @ [n]) \<longleftrightarrow> paired f ns \<and> 0 \<le> call_count f (ns @ [n])"
  by (auto simp: paired_def list_all_iff less_Suc_eq_le le_Suc_eq)

lemma paired_prefix:
  assumes "paired f (xs @ ys)"
  shows "paired f xs"
  unfolding paired_iff
proof (intro allI impI)
  fix i assume "i \<le> length xs"
  then have "take i xs = take i (xs @ ys)" "i \<le> length (xs @ ys)" by simp_all
  then show "0 \<le> call_count f (take i xs)" using assms unfolding paired_iff by metis
qed

lemma scan_spec:
  assumes "present look ns" and "paired look pre"
  shows "if paired look (pre @ ns)
    then foldE (scan_seq look) ([], call_count look pre) ns
      = Inr (map (\<lambda>i. call_count look (pre @ take i ns) = 0) [1 ..< Suc (length ns)], call_count look (pre @ ns))
    else \<exists>n \<in> set ns. foldE (scan_seq look) ([], call_count look pre) ns = Inl (NoMatchingCall n)"
  using assms(1)
proof (induction ns rule: rev_induct)
  case Nil
  then show ?case using assms(2) by simp
next
  case (snoc n ns)
  obtain e where e: "look n = Some e" "ev_seq e = n" using snoc.prems by (auto simp: present_def)
  have more: "paired look (pre @ ns @ [n]) \<longleftrightarrow> paired look (pre @ ns) \<and> 0 \<le> call_count look (pre @ ns @ [n])"
    using paired_snoc[of look "pre @ ns" n] by simp
  have step: "scan_seq look (bs, call_count look (pre @ ns)) n
      = (if call_count look (pre @ ns @ [n]) < 0 then Inl (NoMatchingCall n)
         else Inr (bs @ [call_count look (pre @ ns @ [n]) = 0], call_count look (pre @ ns @ [n])))" for bs
    by (simp add: scan_seq_def e Let_def ac_simps)
  have upto: "map (\<lambda>i. call_count look (pre @ take i (ns @ [n])) = 0) [1 ..< Suc (length (ns @ [n]))]
      = map (\<lambda>i. call_count look (pre @ take i ns) = 0) [1 ..< Suc (length ns)] @ [call_count look (pre @ ns @ [n]) = 0]"
    by auto
  have IH: "if paired look (pre @ ns)
    then foldE (scan_seq look) ([], call_count look pre) ns
      = Inr (map (\<lambda>i. call_count look (pre @ take i ns) = 0) [1 ..< Suc (length ns)], call_count look (pre @ ns))
    else \<exists>n \<in> set ns. foldE (scan_seq look) ([], call_count look pre) ns = Inl (NoMatchingCall n)"
    using snoc.IH snoc.prems by (simp add: present_def)
  show ?case
  proof (cases "paired look (pre @ ns)")
    case True
    then have run: "foldE (scan_seq look) ([], call_count look pre) (ns @ [n])
        = scan_seq look (map (\<lambda>i. call_count look (pre @ take i ns) = 0) [1 ..< Suc (length ns)], call_count look (pre @ ns)) n"
      using IH by (simp only: foldE_snoc if_True bindE_simps)
    show ?thesis unfolding run step upto more using True
      by (cases "0 \<le> call_count look (pre @ ns @ [n])") (simp_all only: not_less if_True if_False simp_thms, auto)
  next
    case False
    then have "\<exists>n \<in> set ns. foldE (scan_seq look) ([], call_count look pre) ns = Inl (NoMatchingCall n)" using IH by simp
    then show ?thesis using False unfolding more by (auto simp: foldE_snoc)
  qed
qed

lemma zip_index_fold:
  assumes "distinct (map fst m @ ns)" and "length is = length ns"
  shows "foldl (\<lambda>m (n, i). AList.update n i m) m (zip ns is) = m @ zip ns is"
  using assms
proof (induction ns arbitrary: m "is")
  case (Cons n ns)
  then obtain i js where i: "is = i # js" by (cases "is") auto
  have "AList.update n i m = m @ [(n, i)]"
    using Cons.prems(1) by (induction m) auto
  then show ?case using Cons.IH[of "m @ [(n, i)]" js] Cons.prems i by simp
qed simp

lemma map_plus_upt: "map ((+) k) [a ..< b] = [k + a ..< k + b]"
  by (induction b) auto

lemma exact_extend:
  assumes "present look ns" and "distinct ns" and "k \<le> length ns" and "paired look (take k ns)"
  shows "if paired look ns
    then extend_cache look (exact_cache look g (take k ns)) ns = Inr (exact_cache look g ns)
    else \<exists>n \<in> set ns. extend_cache look (exact_cache look g (take k ns)) ns = Inl (NoMatchingCall n)"
proof -
  let ?pre = "take k ns" and ?tail = "drop k ns"
  have "present look ?tail" using assms(1) by (auto simp: present_def dest: in_set_dropD)
  note scan = scan_spec[OF this, of ?pre, simplified]
  have processed: "length (bc_cut_balanced (exact_cache look g ?pre)) - 1 = k"
    using assms(3) by (simp add: exact_cache_def min_def)
  have index: "foldl (\<lambda>m (n, i). AList.update n i m) (zip ?pre [0 ..< length ?pre]) (zip ?tail [k ..< k + length ?tail])
      = zip ns [0 ..< length ns]"
  proof -
    have "foldl (\<lambda>m (n, i). AList.update n i m) (zip ?pre [0 ..< length ?pre]) (zip ?tail [k ..< k + length ?tail])
        = zip ?pre [0 ..< length ?pre] @ zip ?tail [k ..< k + length ?tail]"
      using assms(2) by (intro zip_index_fold) (simp_all add: min_def flip: distinct_append)
    also have "\<dots> = zip (?pre @ ?tail) ([0 ..< length ?pre] @ [k ..< k + length ?tail])"
      by (rule zip_append[symmetric]) (simp add: assms(3) min_def)
    also have "[0 ..< length ?pre] @ [k ..< k + length ?tail] = [0 ..< length ns]"
      using assms(3) upt_add_eq_append[of 0 k "length ns - k"] by (simp add: min_def)
    finally show ?thesis by simp
  qed
  have cuts: "map (\<lambda>i. call_count look (take i ?pre) = 0) [0 ..< Suc (length ?pre)]
      @ map (\<lambda>i. call_count look (?pre @ take i ?tail) = 0) [1 ..< Suc (length ?tail)]
      = map (\<lambda>i. call_count look (take i ns) = 0) [0 ..< Suc (length ns)]"
  proof -
    have early: "map (\<lambda>i. call_count look (take i ?pre) = 0) [0 ..< Suc k] = map (\<lambda>i. call_count look (take i ns) = 0) [0 ..< Suc k]"
      by (rule map_cong) (auto simp: min_def)
    have late: "map (\<lambda>i. call_count look (?pre @ take i ?tail) = 0) [1 ..< Suc (length ns - k)]
        = map (\<lambda>i. call_count look (take i ns) = 0) (map ((+) k) [1 ..< Suc (length ns - k)])"
      by (simp add: take_add del: call_count_simps)
    have "[0 ..< Suc k] @ map ((+) k) [1 ..< Suc (length ns - k)] = [0 ..< Suc (length ns)]"
      using assms(3) upt_add_eq_append[of 0 "Suc k" "length ns - k"] by (simp add: map_plus_upt del: upt_Suc)
    then show ?thesis using assms(3) unfolding early[symmetric]
      by (simp only: late map_append[symmetric] early length_take length_drop min_absorb2)
  qed
  have pre: "extend_cache look (exact_cache look g ?pre) ns
      = bindE (foldE (scan_seq look) ([], call_count look ?pre) ?tail) (\<lambda>(pending, progress).
          Inr \<lparr>bc_generation = g,
            bc_cut_balanced = map (\<lambda>i. call_count look (take i ?pre) = 0) [0 ..< Suc (length ?pre)] @ pending,
            bc_index_by_seq = zip ns [0 ..< length ns], bc_in_progress = progress\<rparr>)"
    unfolding extend_cache_def Let_def processed unfolding exact_cache_def
    by (simp add: index[symmetric] del: upt_Suc)
  show ?thesis
  proof (cases "paired look ns")
    case True
    then have "foldE (scan_seq look) ([], call_count look ?pre) ?tail
        = Inr (map (\<lambda>i. call_count look (?pre @ take i ?tail) = 0) [1 ..< Suc (length ?tail)], call_count look ns)"
      using scan assms(4) by (simp del: upt_Suc call_count_simps)
    then show ?thesis using True unfolding pre by (simp only: bindE_simps prod.case cuts exact_cache_def if_True)
  next
    case False
    then show ?thesis using scan assms(4) unfolding pre by (auto simp: bindE_def dest: in_set_dropD)
  qed
qed

lemma map_of_zip_index: "map_of (zip ns [k ..< k + length ns]) n = map_option ((+) k) (index_of n ns)"
proof (induction ns arbitrary: k)
  case (Cons m ns)
  have "[k ..< k + length (m # ns)] = k # [Suc k ..< Suc k + length ns]" using upt_conv_Cons[of k "Suc (k + length ns)"] by (simp del: upt_Suc)
  then show ?case using Cons.IH[of "Suc k"] by (simp add: option.map_comp comp_def del: upt_Suc)
qed simp

lemma cut_balance_exact:
  assumes "offset \<le> 1"
  shows "cut_balance (exact_cache look g ns) n offset = (case index_of n ns of
      None \<Rightarrow> Inl (SeqNotOnSurface n)
    | Some i \<Rightarrow> Inr (call_count look (take (i + offset) ns) = 0))"
proof (cases "index_of n ns")
  case None
  then have "map_of (zip ns [0 ..< length ns]) n = None"
    using map_of_zip_index[of ns 0 n] by (simp only: add_0 option.map)
  then have "map_of (bc_index_by_seq (exact_cache look g ns)) n = None" unfolding exact_cache_def balance_cache.simps .
  then show ?thesis using None unfolding cut_balance_def by (simp only: bindO_simps option.case)
next
  case (Some i)
  then have "i + offset < Suc (length ns)" using index_of_Some[OF Some] assms by simp
  then have "nth_opt (map (\<lambda>i. call_count look (take i ns) = 0) [0 ..< Suc (length ns)]) (i + offset)
      = Some (call_count look (take (i + offset) ns) = 0)" by (simp add: nth_opt_def del: upt_Suc)
  then show ?thesis using Some map_of_zip_index[of ns 0 n]
    by (simp add: cut_balance_def exact_cache_def del: upt_Suc)
qed

section \<open>What the cache relies on\<close>

locale surface_history =
  fixes nodes :: "'h \<Rightarrow> nat list"
    and generation :: "'h \<Rightarrow> nat"
    and look :: "'h \<Rightarrow> nat \<Rightarrow> session_event option"
    and extends :: "'h \<Rightarrow> 'h \<Rightarrow> bool"
  assumes extends_refl: "extends h h' \<Longrightarrow> extends h' h'"
    and extends_trans: "extends h h' \<Longrightarrow> extends h' h'' \<Longrightarrow> extends h h''"
    and grows: "extends h h' \<Longrightarrow> generation h' = generation h \<Longrightarrow> \<exists>ns. nodes h' = nodes h @ ns"
    and kept: "extends h h' \<Longrightarrow> n \<in> set (nodes h) \<Longrightarrow> look h' n = look h n"
    and all_present: "extends h h \<Longrightarrow> present (look h) (nodes h) \<and> distinct (nodes h)"
begin

definition cache_ok :: "'h \<Rightarrow> balance_cache option \<Rightarrow> bool" where
  \<comment> \<open>the cache is exact for some earlier point of the history\<close>
  "cache_ok h c \<longleftrightarrow> (case c of None \<Rightarrow> True | Some c \<Rightarrow>
     \<exists>h0. extends h0 h \<and> paired (look h0) (nodes h0) \<and> c = exact_cache (look h0) (generation h0) (nodes h0))"

lemma cache_ok_extends: "cache_ok h c \<Longrightarrow> extends h h' \<Longrightarrow> cache_ok h' c"
  using extends_trans by (fastforce simp: cache_ok_def split: option.splits)

lemma exact_cache_cong:
  assumes "\<And>n. n \<in> set ns \<Longrightarrow> f n = g n"
  shows "exact_cache f gen ns = exact_cache g gen ns" and "paired f ns = paired g ns"
proof -
  have "call_count f (take i ns) = call_count g (take i ns)" for i
    by (rule call_count_cong) (use assms in \<open>auto dest: in_set_takeD\<close>)
  moreover from this[of "length ns"] have "call_count f ns = call_count g ns" by simp
  ultimately show "exact_cache f gen ns = exact_cache g gen ns" "paired f ns = paired g ns"
    by (simp_all add: exact_cache_def paired_def)
qed

lemma balance_state_exact:
  assumes "extends h h" and "cache_ok h c"
  shows "if paired (look h) (nodes h)
    then balance_state (look h) (nodes h) (generation h) c = Inr (exact_cache (look h) (generation h) (nodes h))
    else \<exists>n \<in> set (nodes h). balance_state (look h) (nodes h) (generation h) c = Inl (NoMatchingCall n)"
proof -
  note pr = conjunct1[OF all_present[OF assms(1)]] and di = conjunct2[OF all_present[OF assms(1)]]
  note extend = exact_extend[OF pr di, where g = "generation h"]
  have empty: "exact_cache (look h) (generation h) (take 0 (nodes h))
      = \<lparr>bc_generation = generation h, bc_cut_balanced = [True], bc_index_by_seq = [], bc_in_progress = 0\<rparr>"
    by (simp add: exact_cache_def)
  have "paired (look h) (take 0 (nodes h))" by (simp add: paired_def)
  note rebuild = extend[OF le0 this, unfolded empty]
  show ?thesis
  proof (cases c)
    case None
    then show ?thesis using rebuild by (simp add: balance_state_def Let_def)
  next
    case (Some c0)
    then obtain h0 where h0: "extends h0 h" "paired (look h0) (nodes h0)"
        "c0 = exact_cache (look h0) (generation h0) (nodes h0)"
      using assms(2) by (auto simp: cache_ok_def)
    show ?thesis
    proof (cases "generation h0 = generation h")
      case False
      then have "bc_generation c0 \<noteq> generation h" by (simp add: h0(3) exact_cache_def)
      then show ?thesis using rebuild Some by (simp add: balance_state_def Let_def)
    next
      case True
      then obtain ns where ns: "nodes h = nodes h0 @ ns" using grows[OF h0(1)] by auto
      let ?k = "length (nodes h0)"
      have same: "\<And>n. n \<in> set (nodes h0) \<Longrightarrow> look h0 n = look h n" using kept[OF h0(1)] by simp
      have c0: "c0 = exact_cache (look h) (generation h) (take ?k (nodes h))" "paired (look h) (take ?k (nodes h))"
        using h0(2,3) exact_cache_cong[OF same] True ns by simp_all
      have len: "length (bc_cut_balanced c0) - 1 = ?k" "bc_generation c0 = generation h"
        by (simp_all add: h0(3) exact_cache_def True)
      show ?thesis
      proof (cases "ns = []")
        case True
        then show ?thesis using c0 Some ns len by (simp add: balance_state_def Let_def)
      next
        case False
        then have "balance_state (look h) (nodes h) (generation h) c = extend_cache (look h) c0 (nodes h)"
          using Some ns len by (simp add: balance_state_def Let_def)
        moreover have "?k \<le> length (nodes h)" using ns by simp
        ultimately show ?thesis using extend[of ?k] c0 by simp
      qed
    qed
  qed
qed

end

section \<open>The logs of a Session\<close>

definition log_surface :: "projection list \<Rightarrow> session_event list \<Rightarrow> fold_state" where
  "log_surface projections es = (case fold_surface_state projections es of
     Inr (st, _) \<Rightarrow> st | Inl _ \<Rightarrow> create_fold_state)"

definition log_extends :: "projection list \<Rightarrow> session_event list \<Rightarrow> session_event list \<Rightarrow> bool" where
  "log_extends projections es es' \<longleftrightarrow> message_projections projections
     \<and> (\<exists>xs. es' = es @ xs) \<and> (\<exists>acc. fold_surface_state projections es' = Inr acc)"

context message_projections begin

lemma fold_same_replacements:
  assumes "fold_surface_state projections es = Inr (st0, rs0)"
    and "fold_surface_state projections (es @ xs) = Inr (st, rs)"
  shows "fs_replace_generation st0 \<le> fs_replace_generation st
     \<and> (fs_replace_generation st = fs_replace_generation st0 \<longrightarrow> (\<exists>ns. fs_nodes st = fs_nodes st0 @ ns))"
  using assms(2)
proof (induction xs arbitrary: st rs rule: rev_induct)
  case Nil
  then show ?case using assms(1) by simp
next
  case (snoc x xs)
  then have s: "fold_surface_state projections ((es @ xs) @ [x]) = Inr (st, rs)" by simp
  obtain st1 rs1 plan where 1: "fold_surface_state projections (es @ xs) = Inr (st1, rs1)"
    and st: "st = fst (apply_surface_plan st1 plan)"
    using fold_snocE[OF s] .
  show ?case using snoc.IH[OF 1] unfolding st by (cases plan) auto
qed

lemma fold_nodes_events:
  assumes "fold_surface_state projections es = Inr (st, rs)"
  shows "distinct (fs_nodes st)" and "n \<in> set (fs_nodes st) \<Longrightarrow> n < length es \<and> is_surface_eligible_type (ev_data (es ! n)) \<and> ev_seq (es ! n) = n"
proof -
  have m: "mset (fs_nodes st @ concat (map rp_shadowed rs)) =
      mset (filter (\<lambda>i. is_surface_eligible_type (ev_data (es ! i))) [0 ..< length es])"
    using fold_partition[OF assms] by simp
  have "distinct (filter (\<lambda>i. is_surface_eligible_type (ev_data (es ! i))) [0 ..< length es])" by simp
  then show "distinct (fs_nodes st)" using mset_eq_imp_distinct_iff[OF m] by simp
  show "n < length es \<and> is_surface_eligible_type (ev_data (es ! n)) \<and> ev_seq (es ! n) = n" if "n \<in> set (fs_nodes st)"
    using mset_eq_setD[OF m] that contiguous_nth[OF fold_contiguous[OF assms]] by auto
qed

end

lemma log_extendsE:
  assumes "log_extends projections es es'"
  obtains xs st rs st' rs' where "message_projections projections" "es' = es @ xs"
    "fold_surface_state projections es = Inr (st, rs)" "log_surface projections es = st"
    "fold_surface_state projections es' = Inr (st', rs')" "log_surface projections es' = st'"
proof -
  obtain xs acc where x: "message_projections projections" "es' = es @ xs" "fold_surface_state projections es' = Inr acc"
    using assms by (auto simp: log_extends_def)
  then obtain acc0 where "fold_surface_state projections es = Inr acc0"
    using message_projections.fold_prefix[OF x(1)] by blast
  then show ?thesis using that[OF x(1,2), of "fst acc0" "snd acc0" "fst acc" "snd acc"] x
    by (cases acc; cases acc0) (simp add: log_surface_def)
qed

interpretation session_history: surface_history "\<lambda>es. fs_nodes (log_surface projections es)"
    "\<lambda>es. fs_replace_generation (log_surface projections es)" "nth_opt" "log_extends projections"
proof
  fix h h' assume "log_extends projections h h'"
  then show "log_extends projections h' h'" by (auto simp: log_extends_def)
next
  fix h h' h'' assume "log_extends projections h h'" "log_extends projections h' h''"
  then show "log_extends projections h h''" by (auto simp: log_extends_def)
next
  fix h h' assume e: "log_extends projections h h'"
    and g: "fs_replace_generation (log_surface projections h') = fs_replace_generation (log_surface projections h)"
  from e show "\<exists>ns. fs_nodes (log_surface projections h') = fs_nodes (log_surface projections h) @ ns"
  proof (rule log_extendsE)
    fix xs st rs st' rs'
    assume "message_projections projections" "h' = h @ xs" "fold_surface_state projections h = Inr (st, rs)"
      "log_surface projections h = st" "fold_surface_state projections h' = Inr (st', rs')" "log_surface projections h' = st'"
    then show ?thesis using g message_projections.fold_same_replacements[of projections h st rs xs st' rs'] by simp
  qed
next
  fix h h' n assume e: "log_extends projections h h'" and n: "n \<in> set (fs_nodes (log_surface projections h))"
  from e show "nth_opt h' n = nth_opt h n"
  proof (rule log_extendsE)
    fix xs st rs
    assume "message_projections projections" "h' = h @ xs" "fold_surface_state projections h = Inr (st, rs)" "log_surface projections h = st"
    then show ?thesis using n message_projections.fold_nodes_events(2)[of projections h st rs n] by (simp add: nth_append)
  qed
next
  fix h assume e: "log_extends projections h h"
  from e show "present (nth_opt h) (fs_nodes (log_surface projections h)) \<and> distinct (fs_nodes (log_surface projections h))"
    by (rule log_extendsE) (use message_projections.fold_nodes_events in \<open>auto simp: present_def nth_opt_def\<close>)
qed

section \<open>Reading the balance of a Session\<close>

definition pairing_ok :: "projection list \<Rightarrow> 'x pairing_host_scheme \<Rightarrow> bool" where
  "pairing_ok projections h \<longleftrightarrow> message_projections projections \<and> session_ok projections (ph_session h)
     \<and> session_history.cache_ok projections (ss_log (ph_session h)) (ph_cache h)"

abbreviation surface_nodes :: "projection list \<Rightarrow> 'x pairing_host_scheme \<Rightarrow> nat list" where
  "surface_nodes projections h \<equiv> fs_nodes (log_surface projections (ss_log (ph_session h)))"

abbreviation host_log :: "'x pairing_host_scheme \<Rightarrow> session_event list" where
  "host_log h \<equiv> ss_log (ph_session h)"

definition same_log :: "projection list \<Rightarrow> 'x pairing_host_scheme \<Rightarrow> 'x pairing_host_scheme \<Rightarrow> bool" where
  \<comment> \<open>only caches changed\<close>
  "same_log projections h h' \<longleftrightarrow> pairing_ok projections h' \<and> host_log h' = host_log h
     \<and> ss_header (ph_session h') = ss_header (ph_session h)
     \<and> pairing_host.more h' = pairing_host.more h"

lemma same_log_trans: "same_log projections h h1 \<Longrightarrow> same_log projections h1 h2 \<Longrightarrow> same_log projections h h2"
  by (simp add: same_log_def)

lemma session_fold:
  assumes "message_projections projections" and "session_ok projections s"
  obtains rs where "fold_surface_state projections (ss_log s) = Inr (log_surface projections (ss_log s), rs)"
proof -
  obtain st rs where "fold_surface_state projections (ss_log s) = Inr (st, rs)"
    using message_projections.session_ok_fold[OF assms] by blast
  then show ?thesis using that by (simp add: log_surface_def)
qed

lemma log_extends_same:
  assumes "pairing_ok projections h"
  shows "log_extends projections (host_log h) (host_log h)"
proof -
  obtain rs where "fold_surface_state projections (host_log h) = Inr (log_surface projections (host_log h), rs)"
    by (rule session_fold) (use assms in \<open>auto simp: pairing_ok_def\<close>)
  then show ?thesis using assms by (auto simp: log_extends_def pairing_ok_def)
qed

lemma surface_get_ok:
  assumes "pairing_ok projections h"
  shows "\<exists>h'. surface_get projections get h = (Inr (get (log_surface projections (host_log h))), h')
     \<and> same_log projections h h' \<and> ph_cache h' = ph_cache h"
proof -
  let ?s = "ph_session h"
  have ok: "message_projections projections" "session_ok projections ?s" using assms by (simp_all add: pairing_ok_def)
  obtain rs where f: "fold_surface_state projections (ss_log ?s) = Inr (log_surface projections (ss_log ?s), rs)"
    by (rule session_fold[OF ok])
  have m: "managed projections (ss_log ?s) (ss_surface ?s)" using session_ok_managed ok(2) by blast
  then have "message_projections.mg_ok projections (ss_log ?s) (ss_surface ?s)"
    using message_projections.managed_ok[OF ok(1)] by blast
  then obtain mg where mg: "sync projections 0 (ss_log ?s) (ss_surface ?s) = Inr mg" "mg_state mg = log_surface projections (ss_log ?s)"
    using message_projections.sync_ok[OF ok(1) _ f] by metis
  have "session_ok projections (?s\<lparr>ss_surface := mg\<rparr>)"
    using ok(2) managed.read[OF m mg(1)] by (simp add: session_ok_def derived_ok_def)
  then show ?thesis using assms mg
    by (simp add: surface_get_def read_surface_def Let_def same_log_def pairing_ok_def)
qed

definition exact_balance :: "projection list \<Rightarrow> session_event list \<Rightarrow> nat \<Rightarrow> nat \<Rightarrow> pairing_error + bool" where
  \<comment> \<open>the balance of a cut recomputed from the log\<close>
  "exact_balance projections es offset n =
     (let ns = fs_nodes (log_surface projections es)
      in case index_of n ns of
           None \<Rightarrow> Inl (SeqNotOnSurface n)
         | Some i \<Rightarrow> Inr (call_count (nth_opt es) (take (i + offset) ns) = 0))"

lemma balance_cache_of_ok:
  fixes h :: "'x pairing_host_scheme"
  assumes "pairing_ok projections h"
  shows "if paired (nth_opt (host_log h)) (surface_nodes projections h)
    then \<exists>h'. balance_cache_of projections h = (Inr (exact_cache (nth_opt (host_log h))
        (fs_replace_generation (log_surface projections (host_log h))) (surface_nodes projections h)), h') \<and> same_log projections h h'
    else \<exists>h'. \<exists>k \<in> set (surface_nodes projections h).
        balance_cache_of projections h = (Inl (NoMatchingCall k), h') \<and> same_log projections h h'"
proof -
  obtain h1 where h1: "surface_get projections fs_nodes h = (Inr (surface_nodes projections h), h1)"
      "same_log projections h h1" "ph_cache h1 = ph_cache h"
    using surface_get_ok[OF assms(1), of fs_nodes] by blast
  have "pairing_ok projections h1" using h1(2) by (simp add: same_log_def)
  then obtain h2 where h2: "surface_get projections fs_replace_generation h1
        = (Inr (fs_replace_generation (log_surface projections (host_log h1))), h2)"
      "same_log projections h1 h2" "ph_cache h2 = ph_cache h1"
    using surface_get_ok[of projections h1 fs_replace_generation] by blast
  have log: "host_log h1 = host_log h" "host_log h2 = host_log h" using h1(2) h2(2) by (simp_all add: same_log_def)
  have same: "same_log projections h h2" by (rule same_log_trans[OF h1(2) h2(2)])
  let ?look = "nth_opt (host_log h)" and ?g = "fs_replace_generation (log_surface projections (host_log h))"
  let ?c = "exact_cache ?look ?g (surface_nodes projections h)"
  have "event_at (ph_session h2) = ?look" by (rule ext) (simp add: event_at_def log(2))
  then have run: "balance_cache_of projections h
      = (case balance_state ?look (surface_nodes projections h) ?g (ph_cache h) of
           Inl e \<Rightarrow> (Inl e, h2) | Inr c \<Rightarrow> (Inr c, h2\<lparr>ph_cache := Some c\<rparr>))"
    by (simp add: balance_cache_of_def bindS_def mapErrS_def h1(1,3) h2(1,3) log(1))
  note exact = session_history.balance_state_exact[OF log_extends_same[OF assms(1)], of "ph_cache h"]
  show ?thesis
  proof (cases "paired ?look (surface_nodes projections h)")
    case True
    then have "session_history.cache_ok projections (host_log h) (Some ?c)"
      using log_extends_same[OF assms(1)] by (auto simp: session_history.cache_ok_def)
    then have "same_log projections h (h2\<lparr>ph_cache := Some ?c\<rparr>)"
      using same log(2) by (simp add: same_log_def pairing_ok_def)
    then show ?thesis using True exact assms(1) unfolding run by (simp add: pairing_ok_def)
  next
    case False
    then obtain k where "k \<in> set (surface_nodes projections h)"
      "balance_state ?look (surface_nodes projections h) ?g (ph_cache h) = Inl (NoMatchingCall k)"
      using exact assms(1) by (auto simp: pairing_ok_def)
    then show ?thesis using False same unfolding run by auto
  qed
qed

lemma cut_balanced_exact:
  fixes h :: "'x pairing_host_scheme"
  assumes "pairing_ok projections h" and "paired (nth_opt (host_log h)) (surface_nodes projections h)" and "offset \<le> 1"
  shows "\<exists>h'. cut_balanced projections offset n h = (exact_balance projections (host_log h) offset n, h') \<and> same_log projections h h'"
  using balance_cache_of_ok[OF assms(1)] assms(2)
  by (auto simp: cut_balanced_def bindS_def cut_balance_exact[OF assms(3)] exact_balance_def Let_def)

lemma cut_balanced_same_log:
  fixes h :: "'x pairing_host_scheme"
  assumes "pairing_ok projections h" and "cut_balanced projections offset n h = (r, h')"
  shows "same_log projections h h'"
  using balance_cache_of_ok[OF assms(1)] assms(2) by (auto simp: cut_balanced_def bindS_def split: if_splits)

interpretation reads: host_frame "pairing_ok projections" "same_log projections"
  by unfold_locales (auto simp: same_log_def)

lemma keeps_mapErrS:
  "reads.keeps projections f \<Longrightarrow> reads.keeps projections (mapErrS g f)"
  by (fastforce simp: reads.keeps_def mapErrS_def split: prod.split sum.split)

lemma reads_surface_get: "reads.keeps projections (surface_get projections get)"
  by (rule reads.keepsI) (drule surface_get_ok[of _ _ get], auto)

lemma reads_cut_balanced:
  "reads.keeps projections (tool_pairing_balanced_before projections n)"
  "reads.keeps projections (tool_pairing_balanced_after projections n)"
  unfolding tool_pairing_balanced_before_def tool_pairing_balanced_after_def
  by (rule reads.keepsI, erule (1) cut_balanced_same_log)+

lemmas reads_rules = reads.keeps_rules keeps_mapErrS reads_surface_get reads_cut_balanced

section \<open>Reads between appends\<close>

text \<open>
  A Session with its entry of \<open>balanceCacheBySession\<close>, through any sequence of appends and balance reads.
\<close>

inductive pairing_reach :: "projection list \<Rightarrow> pairing_host \<Rightarrow> bool" for projections where
  created: "reach projections s \<Longrightarrow> pairing_reach projections \<lparr>ph_session = s, ph_cache = None\<rparr>"
| appended: "pairing_reach projections h \<Longrightarrow> append_event projections False now d op sources (ph_session h) = Inr (e, s')
    \<Longrightarrow> pairing_reach projections (h\<lparr>ph_session := s'\<rparr>)"
| balance_read: "pairing_reach projections h \<Longrightarrow> cut_balanced projections offset n h = (r, h') \<Longrightarrow> pairing_reach projections h'"

lemma pairing_ok_grow:
  assumes "pairing_ok projections h" and "session_ok projections s'" and "ss_log s' = host_log h @ xs"
  shows "pairing_ok projections (h\<lparr>ph_session := s'\<rparr>)"
proof -
  have m: "message_projections projections" using assms(1) by (simp add: pairing_ok_def)
  obtain acc where "fold_surface_state projections (ss_log s') = Inr acc"
    using message_projections.session_ok_fold[OF m assms(2)] by blast
  then have "log_extends projections (host_log h) (ss_log s')" using m assms(3) by (auto simp: log_extends_def)
  then show ?thesis using assms session_history.cache_ok_extends by (auto simp: pairing_ok_def)
qed

lemma pairing_reach_ok:
  assumes "message_projections projections" and "pairing_reach projections h"
  shows "pairing_ok projections h"
  using assms(2)
proof (induction rule: pairing_reach.induct)
  case (created s)
  then show ?case using assms(1) message_projections.reach_ok[OF assms(1)]
    by (simp add: pairing_ok_def session_history.cache_ok_def)
next
  case (appended h now d op sources e s')
  then have "session_ok projections s' \<and> ss_log s' = host_log h @ [e]"
    using message_projections.session_ok_append[OF assms(1)] by (auto simp: pairing_ok_def)
  then show ?case using pairing_ok_grow[OF appended.IH] by blast
next
  case (balance_read h offset n r h')
  then show ?case using cut_balanced_same_log[OF balance_read.IH] by (auto simp: same_log_def)
qed

text \<open>C11: however appends and balance reads alternated, the cached balance of a cut is the one counted
  from the whole log: while no tool result precedes its call, both questions answer that count (or
  that the sequence is not on the surface), and otherwise both fail on a result of the surface.\<close>

theorem cached_balance_exact:
  assumes "message_projections projections" and "pairing_reach projections h"
  shows "if paired (nth_opt (host_log h)) (surface_nodes projections h)
    then fst (tool_pairing_balanced_before projections n h) = exact_balance projections (host_log h) 0 n
       \<and> fst (tool_pairing_balanced_after projections n h) = exact_balance projections (host_log h) 1 n
    else \<exists>k \<in> set (surface_nodes projections h).
       fst (tool_pairing_balanced_before projections n h) = Inl (NoMatchingCall k)
       \<and> fst (tool_pairing_balanced_after projections n h) = Inl (NoMatchingCall k)"
proof -
  note ok = pairing_reach_ok[OF assms]
  show ?thesis
  proof (cases "paired (nth_opt (host_log h)) (surface_nodes projections h)")
    case True
    then show ?thesis using cut_balanced_exact[OF ok True, of 0 n] cut_balanced_exact[OF ok True, of 1 n]
      by (auto simp: tool_pairing_balanced_before_def tool_pairing_balanced_after_def)
  next
    case False
    then show ?thesis using balance_cache_of_ok[OF ok]
      by (auto simp: tool_pairing_balanced_before_def tool_pairing_balanced_after_def cut_balanced_def bindS_def)
  qed
qed

definition ex_call_log :: "session_event list" where
  "ex_call_log =
     [\<lparr>ev_seq = 0, ev_time = 1, ev_data = UserMessage \<lparr>msg_id = ''m0'', msg_role = User, msg_content = [TextBlock ''hi''],
         msg_source = UserSource, msg_tool_call_id = None, msg_is_error = None\<rparr>,
       ev_surface_op = Some (JStr ''append''), ev_source_event_seqs = None, ev_ignorable = False\<rparr>,
      \<lparr>ev_seq = 1, ev_time = 2, ev_data = AssistantMessage 1 1
         (create_assistant_message ''m1'' [ToolCallBlock ''c'' ''t'' ''a''] ''p'' ''m'' None) [] None False,
       ev_surface_op = Some (JStr ''append''), ev_source_event_seqs = None, ev_ignorable = False\<rparr>]"

lemma no_projections: "message_projections []"
  by unfold_locales simp_all

lemma ex_call_session:
  "\<exists>s. new_session [] ''a'' (Some ex_call_log) None Snapshot None 5 = Inr s
     \<and> ss_log s = ex_call_log @ [log_only 2 5 (EndSeed False)]"
proof -
  have "(case new_session [] ''a'' (Some ex_call_log) None Snapshot None 5 of
      Inr s \<Rightarrow> ss_log s = ex_call_log @ [log_only 2 5 (EndSeed False)] | Inl _ \<Rightarrow> False)"
    by code_simp
  then show ?thesis by (auto split: sum.splits)
qed

theorem cached_balance_exact_witness:
  "\<exists>h :: pairing_host. ss_log (ph_session h) = ex_call_log @ [log_only 2 5 (EndSeed False)]
     \<and> fst (tool_pairing_balanced_before [] 1 h) = Inr True
     \<and> fst (tool_pairing_balanced_after [] 1 h) = Inr False
     \<and> fst (tool_pairing_balanced_after [] 2 h) = Inl (SeqNotOnSurface 2)"
proof -
  obtain s where s: "new_session [] ''a'' (Some ex_call_log) None Snapshot None 5 = Inr s"
    "ss_log s = ex_call_log @ [log_only 2 5 (EndSeed False)]"
    using ex_call_session by blast
  let ?es = "ex_call_log @ [log_only 2 5 (EndSeed False)]"
  have r: "pairing_reach [] \<lparr>ph_session = s, ph_cache = None\<rparr>"
    by (intro pairing_reach.created) (rule reach.created[OF s(1)])
  have p: "paired (nth_opt ?es) (fs_nodes (log_surface [] ?es))" by code_simp
  have e: "exact_balance [] ?es 0 1 = Inr True" "exact_balance [] ?es 1 1 = Inr False"
    "exact_balance [] ?es 1 2 = Inl (SeqNotOnSurface 2)" by code_simp+
  have at: "fst (tool_pairing_balanced_before [] n \<lparr>ph_session = s, ph_cache = None\<rparr>) = exact_balance [] ?es 0 n"
      "fst (tool_pairing_balanced_after [] n \<lparr>ph_session = s, ph_cache = None\<rparr>) = exact_balance [] ?es 1 n" for n
    using cached_balance_exact[OF no_projections r, of n] p s(2) by simp_all
  show ?thesis
    by (rule exI[of _ "\<lparr>ph_session = s, ph_cache = None\<rparr>"]) (simp only: at e s(2) pairing_host.select_convs simp_thms)
qed

end
