(* ===== verification/Compaction.thy ===== *)
theory Compaction imports ToolPairing begin

text \<open>
  Compaction of a Session's history (\<open>packages/compaction/compaction-basic/src/region.ts\<close>, with
  \<open>checkpoint.ts\<close> and \<open>types.ts\<close> of the seam and \<open>frameSummary\<close> of \<open>summarizer.ts\<close>): the choice of a
  range, its validation, the log-recorded transaction that replaces it by a summary, and the lock
  that the \<open>compaction/start\<close> and \<open>compaction/end\<close> markers form. The token meter, the summarizer,
  the recovery hook and the durability checkpoint are fields of \<open>region_dependencies\<close> and
  \<open>compaction_options\<close>: programs over the whole state, since anything may happen to the Session and
  to the abort signal while one of them is awaited.
\<close>

section \<open>Vocabulary\<close>

record token_node =
  tn_seq :: nat
  tn_tokens :: int
  tn_heuristic_tokens :: int

datatype token_baseline = NoBaseline | EstimatedBaseline int | UsageBaseline int token_usage

record token_measurement =
  tm_log_revision :: nat
  tm_baseline :: token_baseline
  tm_surface_delta_tokens :: int
  tm_total_tokens :: int
  tm_surface_tokens :: int
  tm_nodes :: "token_node list"

datatype manual_code = Busy | Cancelled | Changed | SummaryFailed | CommitFailed | PersistenceFailed

datatype compaction_error =
    FromPairing pairing_error
  | FromSession session_error
  | MeterMismatch
  | RegionStartMissing nat
  | RegionEndMissing nat
  | RegionReversed nat nat
  | RegionStartUnbalanced nat
  | RegionEndUnbalanced nat
  | NoOpenTurn
  | SurfaceChanged "compaction_error option"       \<comment> \<open>\<open>SurfaceChangedError\<close> with its cause\<close>
  | SummaryNotSmaller int int
  | SignalAborted
  | ManualError manual_code "compaction_error option"
  | FromService string                              \<comment> \<open>thrown by a dependency\<close>

record summarization_input =
  si_tools :: "tool_schema list option"
  si_messages :: "message list"

record summary_result =
  sr_summary :: "content_block list"
  sr_provider :: string
  sr_model :: string
  sr_max_tokens :: "int option"
  sr_usage :: "token_usage option"
  sr_raw_output :: "content_block list option"
  sr_llm_stream_call :: bool

record surface_selection =
  sel_start :: nat
  sel_end :: nat
  sel_start_idx :: nat
  sel_end_idx :: nat
  sel_shadowed :: "nat list"

record prepared_compaction = surface_selection +
  pc_measurement :: token_measurement
  pc_selected_nodes :: "token_node list"
  pc_shadowed_token_count :: int
  pc_shadowed_route_token_count :: int
  pc_input :: summarization_input

record compaction_result =
  cr_compaction_id :: string
  cr_source_command_id :: "string option"
  cr_start_seq :: nat
  cr_summary_seq :: nat
  cr_end_seq :: nat
  cr_summary :: "content_block list"
  cr_shadowed_range :: "nat \<times> nat"
  cr_shadowed_seqs :: "nat list"
  cr_shadowed_token_count :: int

record 'w compaction_host = pairing_host +
  ch_aborted :: bool       \<comment> \<open>\<open>signal.aborted\<close>; False without a signal\<close>
  ch_world :: 'w           \<comment> \<open>what the dependencies keep\<close>

record 'w region_dependencies =
  rd_projections :: "projection list"
  rd_clock :: "nat \<Rightarrow> int"                 \<comment> \<open>\<open>Date.now()\<close> at a log position\<close>
  rd_fresh_id :: "nat \<Rightarrow> string"           \<comment> \<open>the message identity drawn at a log position\<close>
  rd_error_chain :: "compaction_error \<Rightarrow> string"
  rd_estimate_message :: "message \<Rightarrow> int"
  rd_measure :: "('w compaction_host, compaction_error, token_measurement) prog"
  rd_summarize :: "summarization_input \<Rightarrow> ('w compaction_host, compaction_error, summary_result) prog"
  rd_recover :: "compaction_error \<Rightarrow> nat list \<Rightarrow> ('w compaction_host, compaction_error, bool) prog"

datatype surface_stability = WholeSurface | SelectedSpan

record 'w compaction_options =
  co_manual :: bool        \<comment> \<open>\<open>owner === null\<close>\<close>
  co_stability :: surface_stability
  co_flush :: "('w compaction_host, compaction_error, unit) prog option"
  co_source_command_id :: "string option"

abbreviation host_nodes :: "'w region_dependencies \<Rightarrow> ('w compaction_host, compaction_error, nat list) prog" where
  \<comment> \<open>\<open>session.surface.nodes\<close>\<close>
  "host_nodes deps \<equiv> mapErrS FromSession (surface_get (rd_projections deps) fs_nodes)"

definition append_to :: "'w region_dependencies \<Rightarrow> event_data \<Rightarrow> json option \<Rightarrow> json option
    \<Rightarrow> ('w compaction_host, compaction_error, session_event) prog" where
  \<comment> \<open>\<open>session.append\<close>\<close>
  "append_to deps d op sources h =
     (case append_event (rd_projections deps) False (rd_clock deps (length (host_log h))) d op sources (ph_session h) of
        Inl e \<Rightarrow> (Inl (FromSession e), h)
      | Inr (e, s') \<Rightarrow> (Inr e, h\<lparr>ph_session := s'\<rparr>))"

definition throw_if_aborted :: "('w compaction_host, compaction_error, unit) prog" where
  "throw_if_aborted h = ((if ch_aborted h then Inl SignalAborted else Inr ()), h)"

section \<open>Choosing a range\<close>

definition system_head :: "session \<Rightarrow> nat \<Rightarrow> session_event option" where
  \<comment> \<open>a surface node is a position of the log, so the event exists\<close>
  "system_head s n = (case event_at s n of
     Some e \<Rightarrow> if is_system_message (ev_data e) then Some e else None
   | None \<Rightarrow> None)"

primrec keep_from :: "int \<Rightarrow> int list \<Rightarrow> int \<Rightarrow> nat \<Rightarrow> nat" where
  \<comment> \<open>the first loop of \<open>selectCompactableRange\<close>, from the position above the next one\<close>
  "keep_from retain tokens accumulated 0 = 0"
| "keep_from retain tokens accumulated (Suc i) =
     (let accumulated' = accumulated + tokens ! i
      in if retain \<le> accumulated' then i else keep_from retain tokens accumulated' i)"

primrec back_off :: "projection list \<Rightarrow> nat list \<Rightarrow> nat \<Rightarrow> nat \<Rightarrow> ('x pairing_host_scheme, pairing_error, nat) prog" where
  \<comment> \<open>the second loop, down to a balanced cut\<close>
  "back_off projections ns firstIdx 0 = returnS 0"
| "back_off projections ns firstIdx (Suc k) =
     (if Suc k \<le> firstIdx then returnS (Suc k)
      else bindS (tool_pairing_balanced_before projections (ns ! Suc k)) (\<lambda>balanced.
             if balanced then returnS (Suc k) else back_off projections ns firstIdx k))"

definition select_compactable_range :: "'w region_dependencies \<Rightarrow> token_measurement \<Rightarrow> int
    \<Rightarrow> ('w compaction_host, compaction_error, (nat \<times> nat) option) prog" where
  "select_compactable_range deps measurement retainTokens =
     (let priced = tm_nodes measurement in
      if priced = [] then returnS None
      else bindS (host_nodes deps) (\<lambda>ns.
        if length ns \<noteq> length priced \<or> list_ex (\<lambda>(n, p). n \<noteq> tn_seq p) (zip ns priced) then throwS MeterMismatch
        else withS (\<lambda>h.
          let firstIdx = (if system_head (ph_session h) (ns ! 0) = None then 0 else 1);
              keep = keep_from retainTokens (map tn_tokens priced) 0 (length priced)
          in if keep \<le> firstIdx then returnS None
             else bindS (mapErrS FromPairing (back_off (rd_projections deps) ns firstIdx keep)) (\<lambda>keep.
                    if keep \<le> firstIdx then returnS None
                    else returnS (Some (ns ! firstIdx, ns ! (keep - 1)))))))"

section \<open>Entry state\<close>

record entry_state =
  es_open_turn :: "nat option"
  es_open_turn_known :: bool
  es_unmatched_start :: "session_event option"
  es_compaction_known :: bool
  es_latest_end_seed :: "nat option"

definition inspect_step :: "session_event \<Rightarrow> entry_state \<Rightarrow> entry_state" where
  "inspect_step e st =
     (let st1 = (if es_latest_end_seed st = None \<and> is_end_seed e then st\<lparr>es_latest_end_seed := Some (ev_seq e)\<rparr> else st);
          st2 = (if es_compaction_known st1 then st1
                 else case ev_data e of
                   CompactionStart _ _ _ \<Rightarrow> st1\<lparr>es_unmatched_start := Some e, es_compaction_known := True\<rparr>
                 | CompactionEnd _ _ _ _ \<Rightarrow> st1\<lparr>es_compaction_known := True\<rparr>
                 | _ \<Rightarrow> st1)
      in if es_open_turn_known st2 then st2
         else case ev_data e of
           TurnStart t \<Rightarrow> st2\<lparr>es_open_turn := Some t, es_open_turn_known := True\<rparr>
         | TurnEnd _ _ \<Rightarrow> st2\<lparr>es_open_turn_known := True\<rparr>
         | _ \<Rightarrow> st2)"

fun inspect_loop :: "session_event list \<Rightarrow> entry_state \<Rightarrow> entry_state" where
  \<comment> \<open>over the events from the newest to the oldest\<close>
  "inspect_loop [] st = st"
| "inspect_loop (e # es) st =
     (let st' = inspect_step e st
      in if es_open_turn_known st' \<and> es_compaction_known st' \<and> es_latest_end_seed st' \<noteq> None then st'
         else inspect_loop es st')"

definition inspect_entry_state :: "session_event list \<Rightarrow> entry_state" where
  "inspect_entry_state log =
     inspect_loop (rev log) \<lparr>es_open_turn = None, es_open_turn_known = False, es_unmatched_start = None,
       es_compaction_known = False, es_latest_end_seed = None\<rparr>"

definition assert_compaction_inactive :: "session_event option \<Rightarrow> nat option \<Rightarrow> compaction_error + unit" where
  "assert_compaction_inactive unmatched latestEndSeed =
     (case unmatched of
        None \<Rightarrow> Inr ()
      | Some e \<Rightarrow> (case latestEndSeed of
            Some n \<Rightarrow> checkE (ev_seq e < n) (ManualError Busy None)
          | None \<Rightarrow> Inl (ManualError Busy None)))"

definition assert_no_active_compaction :: "session_event list \<Rightarrow> compaction_error + unit" where
  "assert_no_active_compaction log =
     (let st = inspect_entry_state log in assert_compaction_inactive (es_unmatched_start st) (es_latest_end_seed st))"

section \<open>One selected span\<close>

definition validate_surface_region :: "'w region_dependencies \<Rightarrow> nat \<Rightarrow> nat
    \<Rightarrow> ('w compaction_host, compaction_error, surface_selection) prog" where
  "validate_surface_region deps s t =
     bindS (host_nodes deps) (\<lambda>ns.
       case index_of s ns of
         None \<Rightarrow> throwS (RegionStartMissing s)
       | Some i \<Rightarrow>
           (case index_of t ns of
              None \<Rightarrow> throwS (RegionEndMissing t)
            | Some j \<Rightarrow>
                if j < i then throwS (RegionReversed s t)
                else bindS (mapErrS FromPairing (tool_pairing_balanced_before (rd_projections deps) (ns ! i))) (\<lambda>before.
                  if \<not> before then throwS (RegionStartUnbalanced s)
                  else bindS (mapErrS FromPairing (tool_pairing_balanced_after (rd_projections deps) (ns ! j))) (\<lambda>after.
                    if \<not> after then throwS (RegionEndUnbalanced t)
                    else returnS \<lparr>sel_start = s, sel_end = t, sel_start_idx = i, sel_end_idx = j,
                                  sel_shadowed = take (j + 1 - i) (drop i ns)\<rparr>))))"

definition derive_at :: "'w region_dependencies \<Rightarrow> session_event \<Rightarrow> ('w compaction_host, compaction_error, message option) prog" where
  \<comment> \<open>\<open>session.deriveEventMessage(event)\<close>\<close>
  "derive_at deps e = mapErrS FromSession
     (surface_get (rd_projections deps) (\<lambda>st. derive_event_message e (fs_projected_messages st)))"

primrec derive_all :: "'w region_dependencies \<Rightarrow> nat list \<Rightarrow> ('w compaction_host, compaction_error, message list) prog" where
  "derive_all deps [] = returnS []"
| "derive_all deps (n # ns) = withS (\<lambda>h. case event_at (ph_session h) n of
       None \<Rightarrow> derive_all deps ns  \<comment> \<open>a surface node is a position of the log\<close>
     | Some e \<Rightarrow> bindS (derive_at deps e) (\<lambda>m. bindS (derive_all deps ns) (\<lambda>ms.
         returnS (case m of Some x \<Rightarrow> x # ms | None \<Rightarrow> ms))))"

definition header_of :: "('w compaction_host, compaction_error, epoch_header option) prog" where
  \<comment> \<open>\<open>session.requestHeader()\<close>\<close>
  "header_of h = (let (header, s) = request_header (ph_session h) in (Inr header, h\<lparr>ph_session := s\<rparr>))"

definition build_summarization_input :: "'w region_dependencies \<Rightarrow> nat list
    \<Rightarrow> ('w compaction_host, compaction_error, summarization_input) prog" where
  "build_summarization_input deps shadowed =
     bindS header_of (\<lambda>header.
     bindS (host_nodes deps) (\<lambda>ns.
     bindS (withS (\<lambda>h. case system_head (ph_session h) (ns ! 0) of
              None \<Rightarrow> returnS None
            | Some e \<Rightarrow> derive_at deps e)) (\<lambda>system.
     bindS (derive_all deps shadowed) (\<lambda>ms.
       returnS \<lparr>si_tools = bindO header eh_tools,
                si_messages = (case system of None \<Rightarrow> ms | Some m \<Rightarrow> m # ms)\<rparr>))))"

definition prepare_compaction :: "'w region_dependencies \<Rightarrow> surface_selection
    \<Rightarrow> ('w compaction_host, compaction_error, prepared_compaction) prog" where
  "prepare_compaction deps sel =
     bindS (rd_measure deps) (\<lambda>measurement.
       let selected = take (sel_end_idx sel + 1 - sel_start_idx sel) (drop (sel_start_idx sel) (tm_nodes measurement))
       in if map tn_seq selected \<noteq> sel_shadowed sel then throwS (SurfaceChanged None)
          else bindS (build_summarization_input deps (sel_shadowed sel)) (\<lambda>input.
            returnS (surface_selection.extend sel
              (prepared_compaction.fields measurement selected
                 (foldl (\<lambda>total node. total + tn_heuristic_tokens node) 0 selected)
                 (foldl (\<lambda>total node. total + tn_tokens node) 0 selected) input))))"

section \<open>Stability\<close>

definition assert_whole_surface_unchanged :: "'w region_dependencies \<Rightarrow> prepared_compaction
    \<Rightarrow> ('w compaction_host, compaction_error, unit) prog" where
  "assert_whole_surface_unchanged deps p =
     bindS (rd_measure deps) (\<lambda>current.
       if tm_nodes current \<noteq> tm_nodes (pc_measurement p) then throwS (SurfaceChanged None) else returnS ())"

definition assert_selected_span_stable :: "'w region_dependencies \<Rightarrow> prepared_compaction
    \<Rightarrow> ('w compaction_host, compaction_error, unit) prog" where
  "assert_selected_span_stable deps p =
     bindS (catchS (validate_surface_region deps (sel_start p) (sel_end p)) (\<lambda>e. throwS (SurfaceChanged (Some e)))) (\<lambda>current.
       if sel_shadowed current \<noteq> sel_shadowed p then throwS (SurfaceChanged None)
       else bindS (rd_measure deps) (\<lambda>measurement.
         if take (sel_end_idx current + 1 - sel_start_idx current) (drop (sel_start_idx current) (tm_nodes measurement))
             \<noteq> pc_selected_nodes p
         then throwS (SurfaceChanged None) else returnS ()))"

definition assert_stable :: "'w region_dependencies \<Rightarrow> surface_stability \<Rightarrow> prepared_compaction
    \<Rightarrow> ('w compaction_host, compaction_error, unit) prog" where
  "assert_stable deps stability = (case stability of
     WholeSurface \<Rightarrow> assert_whole_surface_unchanged deps
   | SelectedSpan \<Rightarrow> assert_selected_span_stable deps)"

section \<open>Summarizing\<close>

definition compact_checkpoint_source :: "string \<Rightarrow> string option \<Rightarrow> message_source" where
  "compact_checkpoint_source compactionId command =
     OtherSource ''compact-checkpoint'' (JObj ((''compactionId'', JStr compactionId)
       # (case command of None \<Rightarrow> [] | Some c \<Rightarrow> [(''sourceCommandId'', JStr c)])))"

definition is_compact_checkpoint_source :: "message_source \<Rightarrow> bool" where
  "is_compact_checkpoint_source source = (case source of OtherSource kind _ \<Rightarrow> kind = ''compact-checkpoint'' | _ \<Rightarrow> False)"

definition summary_open_tag :: string where "summary_open_tag = ''<compacted-summary>''"

definition summary_close_tag :: string where "summary_close_tag = ''</compacted-summary>''"

definition checkpoint_preamble :: string where
  "checkpoint_preamble = ''This is an automatically generated checkpoint condensing an earlier span of the conversation to free up context. Treat the captured context as established background and build on it without restating it. Continue the task directly from the messages that follow, without acknowledging this checkpoint.''"

definition frame_summary :: "content_block list \<Rightarrow> content_block list" where
  "frame_summary summary =
     [TextBlock (checkpoint_preamble @ [CHR 0x0A, CHR 0x0A] @ summary_open_tag)] @ summary @ [TextBlock summary_close_tag]"

definition retry_preparation :: "'w region_dependencies \<Rightarrow> surface_stability \<Rightarrow> prepared_compaction \<Rightarrow> compaction_error
    \<Rightarrow> ('w compaction_host, compaction_error, prepared_compaction) prog" where
  \<comment> \<open>the \<open>catch\<close> block of the loop, once the signal is known not to be aborted\<close>
  "retry_preparation deps stability p err =
     bindS (assert_stable deps stability p) (\<lambda>_.
     bindS (rd_recover deps err (sel_shadowed p)) (\<lambda>recovered.
       if \<not> recovered then throwS err
       else bindS (validate_surface_region deps (sel_start p) (sel_end p)) (prepare_compaction deps)))"

primrec summarize_loop :: "'w region_dependencies \<Rightarrow> surface_stability \<Rightarrow> nat \<Rightarrow> prepared_compaction \<Rightarrow> 'w compaction_host
    \<Rightarrow> ((compaction_error + prepared_compaction \<times> summary_result) \<times> 'w compaction_host) option" where
  \<comment> \<open>\<open>for (;;)\<close>; None when the fuel ends before the loop does\<close>
  "summarize_loop deps stability 0 p h = None"
| "summarize_loop deps stability (Suc fuel) p h =
     (if ch_aborted h then Some (Inl SignalAborted, h)
      else case rd_summarize deps (pc_input p) h of
             (Inr r, h1) \<Rightarrow> Some (Inr (p, r), h1)
           | (Inl err, h1) \<Rightarrow>
               if ch_aborted h1 then Some (Inl err, h1)
               else case retry_preparation deps stability p err h1 of
                      (Inl e, h2) \<Rightarrow> Some (Inl e, h2)
                    | (Inr p', h2) \<Rightarrow> summarize_loop deps stability fuel p' h2)"

record summarized_compaction = prepared_compaction +
  sc_result :: summary_result
  sc_checkpoint_message :: message

definition frame_checkpoint :: "'w region_dependencies \<Rightarrow> string \<Rightarrow> string option \<Rightarrow> nat \<Rightarrow> prepared_compaction
    \<Rightarrow> summary_result \<Rightarrow> compaction_error + summarized_compaction" where
  \<comment> \<open>after the loop: the checkpoint message, created at the log position \<open>n\<close>, must be smaller\<close>
  "frame_checkpoint deps compactionId command n p summary =
     (let m = \<lparr>msg_id = rd_fresh_id deps n, msg_role = User,
              msg_content = frame_summary (sr_summary summary),
              msg_source = compact_checkpoint_source compactionId command,
              msg_tool_call_id = None, msg_is_error = None\<rparr>;
          framed = rd_estimate_message deps m
      in if pc_shadowed_route_token_count p \<le> framed
         then Inl (SummaryNotSmaller framed (pc_shadowed_route_token_count p))
         else Inr (prepared_compaction.extend p (summarized_compaction.fields summary m)))"

definition summarize_compaction :: "'w region_dependencies \<Rightarrow> surface_stability \<Rightarrow> string \<Rightarrow> string option \<Rightarrow> nat
    \<Rightarrow> prepared_compaction \<Rightarrow> 'w compaction_host
    \<Rightarrow> ((compaction_error + summarized_compaction) \<times> 'w compaction_host) option" where
  "summarize_compaction deps stability compactionId command fuel prepared h =
     map_option (\<lambda>(r, h1). (bindE r (\<lambda>(p, summary).
         frame_checkpoint deps compactionId command (length (host_log h1)) p summary), h1))
       (summarize_loop deps stability fuel prepared h)"

section \<open>Committing\<close>

definition summary_event :: "string \<Rightarrow> string option \<Rightarrow> summarized_compaction \<Rightarrow> compaction_summary" where
  "summary_event compactionId command sc =
     \<lparr>cs_compaction_id = compactionId, cs_source_command_id = command, cs_summary = sr_summary (sc_result sc),
      cs_raw_output = sr_raw_output (sc_result sc), cs_llm_stream_call = sr_llm_stream_call (sc_result sc),
      cs_shadowed_range = (sel_start sc, sel_end sc), cs_shadowed_seqs = sel_shadowed sc,
      cs_shadowed_token_count = pc_shadowed_token_count sc, cs_provider = sr_provider (sc_result sc),
      cs_model = sr_model (sc_result sc), cs_max_tokens = sr_max_tokens (sc_result sc), cs_usage = sr_usage (sc_result sc)\<rparr>"

definition commit_compaction_body :: "'w region_dependencies \<Rightarrow> string \<Rightarrow> string option \<Rightarrow> nat \<Rightarrow> summarized_compaction
    \<Rightarrow> ('w compaction_host, compaction_error, compaction_result) prog" where
  \<comment> \<open>the result without its \<open>endSeq\<close>, which is 0 here\<close>
  "commit_compaction_body deps compactionId command startSeq sc =
     bindS (append_to deps (CompactionSummary (summary_event compactionId command sc)) None None) (\<lambda>summaryEvent.
     bindS (append_to deps (UserMessage (sc_checkpoint_message sc))
              (Some (replace_json (sel_start sc) (sel_end sc)))
              (Some (JArr (map seq_json ([startSeq, ev_seq summaryEvent] @ sel_shadowed sc))))) (\<lambda>_.
       returnS \<lparr>cr_compaction_id = compactionId, cr_source_command_id = command, cr_start_seq = startSeq,
         cr_summary_seq = ev_seq summaryEvent, cr_end_seq = 0, cr_summary = sr_summary (sc_result sc),
         cr_shadowed_range = (sel_start sc, sel_end sc), cr_shadowed_seqs = sel_shadowed sc,
         cr_shadowed_token_count = pc_shadowed_token_count sc\<rparr>))"

definition complete_compaction :: "compaction_result \<Rightarrow> session_event \<Rightarrow> compaction_result" where
  "complete_compaction pending endEvent = pending\<lparr>cr_end_seq := ev_seq endEvent\<rparr>"

section \<open>The transaction\<close>

datatype failure_stage = SummaryStage | CommitStage

datatype manual_failure = TransactionFailure compaction_error failure_stage

definition transaction_owner :: "'w compaction_options \<Rightarrow> session_event list \<Rightarrow> compaction_error + nat option" where
  \<comment> \<open>the checks of the log between the validation and \<open>compaction/start\<close>\<close>
  "transaction_owner options log =
     (let entry = inspect_entry_state log
      in bindE (assert_compaction_inactive (es_unmatched_start entry) (es_latest_end_seed entry)) (\<lambda>_.
           if co_manual options
           then (if es_open_turn entry \<noteq> None then Inl (ManualError Busy None) else Inr None)
           else (case es_open_turn entry of None \<Rightarrow> Inl NoOpenTurn | Some turn \<Rightarrow> Inr (Some turn))))"

definition open_transaction :: "'w region_dependencies \<Rightarrow> 'w compaction_options \<Rightarrow> string \<Rightarrow> nat \<Rightarrow> nat
    \<Rightarrow> ('w compaction_host, compaction_error, surface_selection \<times> nat option \<times> session_event) prog" where
  \<comment> \<open>up to the append of \<open>compaction/start\<close>; answers the selection, the owner and the start event\<close>
  "open_transaction deps options compactionId s t =
     bindS (if co_manual options then throw_if_aborted else returnS ()) (\<lambda>_.
     bindS (validate_surface_region deps s t) (\<lambda>selection. withS (\<lambda>h.
       case transaction_owner options (host_log h) of
         Inl e \<Rightarrow> throwS e
       | Inr owner \<Rightarrow>
           bindS (append_to deps (CompactionStart compactionId (co_source_command_id options) owner) None None)
             (\<lambda>startEvent. returnS (selection, owner, startEvent)))))"

definition attempt_compaction :: "'w region_dependencies \<Rightarrow> 'w compaction_options \<Rightarrow> string \<Rightarrow> nat
    \<Rightarrow> surface_selection \<Rightarrow> nat option \<Rightarrow> session_event \<Rightarrow> 'w compaction_host
    \<Rightarrow> ((manual_failure \<times> bool + compaction_result) \<times> 'w compaction_host) option" where
  \<comment> \<open>the \<open>try\<close> block; a failure comes with its stage and with \<open>closing\<close>\<close>
  "attempt_compaction deps options compactionId fuel selection owner startEvent h =
     (case prepare_compaction deps selection h of
        (Inl e, h1) \<Rightarrow> Some (Inl (TransactionFailure e SummaryStage, False), h1)
      | (Inr p, h1) \<Rightarrow>
          (case summarize_compaction deps (co_stability options) compactionId (co_source_command_id options) fuel p h1 of
             None \<Rightarrow> None
           | Some (Inl e, h2) \<Rightarrow> Some (Inl (TransactionFailure e SummaryStage, False), h2)
           | Some (Inr sc, h2) \<Rightarrow>
               (case bindS (if co_manual options then throw_if_aborted else returnS ()) (\<lambda>_.
                       assert_stable deps (co_stability options) (prepared_compaction.truncate sc)) h2 of
                  (Inl e, h3) \<Rightarrow> Some (Inl (TransactionFailure e SummaryStage, False), h3)
                | (Inr _, h3) \<Rightarrow>
                    (case commit_compaction_body deps compactionId (co_source_command_id options) (ev_seq startEvent) sc h3 of
                       (Inl e, h4) \<Rightarrow> Some (Inl (TransactionFailure e CommitStage, False), h4)
                     | (Inr pending, h4) \<Rightarrow>
                         (case append_to deps (CompactionEnd compactionId (co_source_command_id options) owner None) None None h4 of
                            (Inl e, h5) \<Rightarrow> Some (Inl (TransactionFailure e CommitStage, True), h5)
                          | (Inr endEvent, h5) \<Rightarrow> Some (Inr (complete_compaction pending endEvent), h5))))))"

definition close_attempt :: "'w region_dependencies \<Rightarrow> 'w compaction_options \<Rightarrow> string \<Rightarrow> nat option
    \<Rightarrow> manual_failure \<times> bool + compaction_result \<Rightarrow> 'w compaction_host
    \<Rightarrow> (manual_failure + compaction_result) \<times> bool \<times> 'w compaction_host" where
  \<comment> \<open>the \<open>catch\<close> block; the middle component is \<open>closed\<close>\<close>
  "close_attempt deps options compactionId owner outcome h =
     (case outcome of
        Inr result \<Rightarrow> (Inr result, True, h)
      | Inl (TransactionFailure e stage, True) \<Rightarrow> (Inl (TransactionFailure e CommitStage), False, h)
      | Inl (TransactionFailure e stage, False) \<Rightarrow>
          (case append_to deps (CompactionEnd compactionId (co_source_command_id options) owner (Some (rd_error_chain deps e))) None None h of
             (Inr _, h1) \<Rightarrow> (Inl (TransactionFailure e stage), True, h1)
           | (Inl closeError, h1) \<Rightarrow> (Inl (TransactionFailure closeError CommitStage), False, h1)))"

definition throw_manual_failure :: "manual_failure \<Rightarrow> compaction_error" where
  \<comment> \<open>\<open>throwManualFailure\<close>\<close>
  "throw_manual_failure f = (case f of
     TransactionFailure e CommitStage \<Rightarrow> ManualError CommitFailed (Some e)
   | TransactionFailure e SummaryStage \<Rightarrow>
       (case e of SurfaceChanged _ \<Rightarrow> ManualError Changed (Some e) | _ \<Rightarrow> ManualError SummaryFailed (Some e)))"

definition settle_transaction :: "'w compaction_options \<Rightarrow> (manual_failure + compaction_result) \<times> bool \<times> 'w compaction_host
    \<Rightarrow> (compaction_error + compaction_result) \<times> 'w compaction_host" where
  \<comment> \<open>from the durability checkpoint on\<close>
  "settle_transaction options outcome =
     (case outcome of (r, closed, h) \<Rightarrow>
        (case (if closed then (case co_flush options of None \<Rightarrow> (Inr (), h) | Some flush \<Rightarrow> flush h) else (Inr (), h)) of
           (flushed, h') \<Rightarrow>
             if co_manual options \<and> ch_aborted h' then (Inl SignalAborted, h')
             else (case r of
                 Inl f \<Rightarrow> (Inl (if co_manual options then throw_manual_failure f else (case f of TransactionFailure e _ \<Rightarrow> e)), h')
               | Inr result \<Rightarrow>
                   (case flushed of
                      Inl e \<Rightarrow> (Inl (ManualError PersistenceFailed (Some e)), h')
                    | Inr _ \<Rightarrow> (Inr result, h')))))"

definition compact_surface_region :: "'w region_dependencies \<Rightarrow> 'w compaction_options \<Rightarrow> string \<Rightarrow> nat \<Rightarrow> nat \<Rightarrow> nat
    \<Rightarrow> 'w compaction_host \<Rightarrow> ((compaction_error + compaction_result) \<times> 'w compaction_host) option" where
  "compact_surface_region deps options compactionId fuel s t h =
     (case open_transaction deps options compactionId s t h of
        (Inl e, h1) \<Rightarrow> Some (Inl e, h1)
      | (Inr (selection, owner, startEvent), h1) \<Rightarrow>
          map_option (\<lambda>(outcome, h2). settle_transaction options (close_attempt deps options compactionId owner outcome h2))
            (attempt_compaction deps options compactionId fuel selection owner startEvent h1))"

section \<open>What the operations keep\<close>

fun is_compaction_marker :: "event_data \<Rightarrow> bool" where
  "is_compaction_marker (CompactionStart _ _ _) = True"
| "is_compaction_marker (CompactionEnd _ _ _ _) = True"
| "is_compaction_marker _ = False"

definition marker_free :: "projection list \<Rightarrow> 'x pairing_host_scheme \<Rightarrow> 'x pairing_host_scheme \<Rightarrow> bool" where
  \<comment> \<open>the log grew by events that are not markers of a compaction\<close>
  "marker_free projections h h' \<longleftrightarrow> pairing_ok projections h'
     \<and> (\<exists>xs. host_log h' = host_log h @ xs \<and> list_all (\<lambda>e. \<not> is_compaction_marker (ev_data e)) xs)"

interpretation grows: host_frame "pairing_ok projections" "marker_free projections"
  by unfold_locales (fastforce simp: marker_free_def)+

lemma same_log_unmarked: "same_log projections h h' \<Longrightarrow> marker_free projections h h'"
  by (simp add: same_log_def marker_free_def)

lemma reads_grows: "reads.keeps projections f \<Longrightarrow> grows.keeps projections f"
  by (simp add: reads.keeps_def grows.keeps_def same_log_unmarked)

definition compaction_free :: "projection list \<Rightarrow> bool" where
  \<comment> \<open>no message projection interprets a \<open>compaction/*\<close> event\<close>
  "compaction_free projections \<longleftrightarrow> message_projections projections
     \<and> list_all (\<lambda>p. mp_type p \<notin> {''compaction/start'', ''compaction/summary'', ''compaction/end'', ''compaction/prune''}) projections"

definition services_ok :: "'w region_dependencies \<Rightarrow> bool" where
  \<comment> \<open>the meter only reads; the summarizer and the recovery leave a valid Session whose log grew by no
     compaction marker, since the open marker locks every other compaction out\<close>
  "services_ok deps \<longleftrightarrow> compaction_free (rd_projections deps)
     \<and> reads.keeps (rd_projections deps) (rd_measure deps)
     \<and> (\<forall>input. grows.keeps (rd_projections deps) (rd_summarize deps input))
     \<and> (\<forall>e ns. grows.keeps (rd_projections deps) (rd_recover deps e ns))"

lemma services_grow:
  assumes "services_ok deps"
  shows "grows.keeps (rd_projections deps) (rd_summarize deps input)"
    and "grows.keeps (rd_projections deps) (rd_recover deps e ns)"
  using assms by (simp_all add: services_ok_def)

lemma reads_back_off: "reads.keeps projections (back_off projections ns firstIdx k)"
  by (induction k) (auto intro: reads_rules)

lemma reads_select:
  "reads.keeps (rd_projections deps) (select_compactable_range deps m retain)"
  unfolding select_compactable_range_def Let_def by (intro reads_rules reads_back_off)

lemma reads_validate: "reads.keeps (rd_projections deps) (validate_surface_region deps s t)"
  unfolding validate_surface_region_def
  by (auto intro!: reads_rules split: option.split)

lemma reads_throw_if_aborted: "reads.keeps projections throw_if_aborted"
  by (rule reads.keepsI) (auto simp: throw_if_aborted_def reads.related_refl)

lemma reads_derive_at: "reads.keeps (rd_projections deps) (derive_at deps e)"
  unfolding derive_at_def by (intro reads_rules)

lemma reads_derive_all: "reads.keeps (rd_projections deps) (derive_all deps ns)"
  by (induction ns) (auto intro!: reads_rules reads_derive_at split: option.split)

lemma reads_header_of: "reads.keeps projections header_of"
proof (rule reads.keepsI)
  fix h :: "'a compaction_host" and r :: "compaction_error + epoch_header option" and h'
  assume ok: "pairing_ok projections h" and run: "header_of h = (r, h')"
  obtain hd s where s: "request_header (ph_session h) = (hd, s)" by fastforce
  then have h': "h' = h\<lparr>ph_session := s\<rparr>" using run by (simp add: header_of_def)
  have "ss_log s = host_log h \<and> ss_header s = ss_header (ph_session h)"
    using s by (auto simp: request_header_def Let_def split: prod.splits if_splits)
  moreover have "session_ok projections s"
    using request_header_ok[of projections "ph_session h" hd s] ok s by (simp add: pairing_ok_def)
  ultimately show "same_log projections h h'"
    using ok unfolding h' by (simp add: same_log_def pairing_ok_def)
qed

lemma reads_build: "reads.keeps (rd_projections deps) (build_summarization_input deps ns)"
  unfolding build_summarization_input_def
  by (intro reads_rules reads_header_of reads_derive_all) (auto intro!: reads_rules reads_derive_at split: option.split)

lemma reads_prepare: "services_ok deps \<Longrightarrow> reads.keeps (rd_projections deps) (prepare_compaction deps sel)"
  unfolding prepare_compaction_def Let_def by (intro reads_rules reads_build) (simp add: services_ok_def)

lemma reads_stable: "services_ok deps \<Longrightarrow> reads.keeps (rd_projections deps) (assert_stable deps stability p)"
  unfolding assert_stable_def assert_whole_surface_unchanged_def assert_selected_span_stable_def
  by (cases stability) (auto intro!: reads_rules reads_validate simp: services_ok_def)

section \<open>Appending the log-only events\<close>

definition compaction_record :: "event_data \<Rightarrow> bool" where
  "compaction_record d = (case d of
     CompactionStart _ _ _ \<Rightarrow> True | CompactionSummary _ \<Rightarrow> True | CompactionEnd _ _ _ _ \<Rightarrow> True
   | CompactionPrune _ _ _ \<Rightarrow> True | _ \<Rightarrow> False)"

lemma compaction_record_log_only:
  assumes "compaction_free projections" and "compaction_record d"
  shows "log_only_data projections d"
proof -
  have "event_type d \<in> {''compaction/start'', ''compaction/summary'', ''compaction/end'', ''compaction/prune''}"
    using assms(2) by (cases d) (simp_all add: compaction_record_def)
  then have "List.find (\<lambda>p. mp_type p = event_type d) projections = None"
    using assms(1) by (auto simp: compaction_free_def find_None_iff list_all_iff)
  then show ?thesis using assms(2) by (cases d) (simp_all add: log_only_data_def compaction_record_def)
qed

abbreviation log_entry :: "'w region_dependencies \<Rightarrow> 'w compaction_host \<Rightarrow> event_data \<Rightarrow> session_event" where
  "log_entry deps h d \<equiv> log_only (length (host_log h)) (rd_clock deps (length (host_log h))) d"

lemma append_record:
  fixes h :: "'w compaction_host"
  assumes "compaction_free (rd_projections deps)" and "pairing_ok (rd_projections deps) h" and "compaction_record d"
  obtains h' where "append_to deps d None None h = (Inr (log_entry deps h d), h')" "pairing_ok (rd_projections deps) h'"
    "host_log h' = host_log h @ [log_entry deps h d]" "pairing_host.more h' = pairing_host.more h"
proof -
  have m: "message_projections (rd_projections deps)" and s: "session_ok (rd_projections deps) (ph_session h)"
    using assms(1,2) by (simp_all add: compaction_free_def pairing_ok_def)
  obtain s' where s': "append_event (rd_projections deps) False (rd_clock deps (length (host_log h))) d None None (ph_session h)
        = Inr (log_entry deps h d, s')"
      "session_ok (rd_projections deps) s'" "ss_log s' = host_log h @ [log_entry deps h d]"
    using message_projections.append_log_only[OF m s compaction_record_log_only[OF assms(1,3)]] by blast
  show ?thesis
  proof
    show "append_to deps d None None h = (Inr (log_entry deps h d), h\<lparr>ph_session := s'\<rparr>)"
      by (simp add: append_to_def s'(1))
    show "pairing_ok (rd_projections deps) (h\<lparr>ph_session := s'\<rparr>)" by (rule pairing_ok_grow[OF assms(2) s'(2,3)])
  qed (simp_all add: s'(3))
qed

lemma grows_append:
  assumes "\<not> is_compaction_marker d"
  shows "grows.keeps (rd_projections deps) (append_to deps d op sources)"
proof (rule grows.keepsI)
  fix h :: "'a compaction_host" and r h'
  assume ok: "pairing_ok (rd_projections deps) h" and run: "append_to deps d op sources h = (r, h')"
  have m: "message_projections (rd_projections deps)" and s: "session_ok (rd_projections deps) (ph_session h)"
    using ok by (simp_all add: pairing_ok_def)
  show "marker_free (rd_projections deps) h h'"
  proof (cases "append_event (rd_projections deps) False (rd_clock deps (length (host_log h))) d op sources (ph_session h)")
    case (Inl e)
    then show ?thesis using run ok grows.related_refl by (auto simp: append_to_def)
  next
    case (Inr es)
    obtain e s' where es: "es = (e, s')" by fastforce
    have s': "session_ok (rd_projections deps) s'" "ss_log s' = host_log h @ [e]"
      using message_projections.session_ok_append[OF m s] Inr es by auto
    have "ev_data e = d" using Inr es by (auto simp: append_event_def Let_def split: if_splits sum.splits)
    then show ?thesis using pairing_ok_grow[OF ok s'] s'(2) run Inr es assms
      by (auto simp: append_to_def marker_free_def)
  qed
qed

section \<open>The lock\<close>

lemma inspect_step_unmatched:
  "es_compaction_known (inspect_step e st) \<longleftrightarrow> es_compaction_known st \<or> is_compaction_marker (ev_data e)"
  "es_unmatched_start (inspect_step e st) =
     (if es_compaction_known st then es_unmatched_start st
      else case ev_data e of CompactionStart _ _ _ \<Rightarrow> Some e | _ \<Rightarrow> es_unmatched_start st)"
  by (auto simp: inspect_step_def Let_def split: event_data.split)

lemma inspect_loop_unmatched:
  "es_unmatched_start (inspect_loop es st) =
     (if es_compaction_known st then es_unmatched_start st
      else case List.find (\<lambda>e. is_compaction_marker (ev_data e)) es of
             None \<Rightarrow> es_unmatched_start st
           | Some e \<Rightarrow> (case ev_data e of CompactionStart _ _ _ \<Rightarrow> Some e | _ \<Rightarrow> es_unmatched_start st))"
proof (induction es arbitrary: st)
  case (Cons e es)
  show ?case
  proof (cases "es_compaction_known st \<or> is_compaction_marker (ev_data e)")
    case True
    then have "es_unmatched_start (inspect_loop (e # es) st) = es_unmatched_start (inspect_step e st)"
      by (simp add: Let_def Cons.IH inspect_step_unmatched(1))
    then show ?thesis using True by (auto simp: inspect_step_unmatched(2))
  next
    case False
    then have same: "es_unmatched_start (inspect_step e st) = es_unmatched_start st"
      by (cases "ev_data e") (simp_all add: inspect_step_unmatched(2))
    have rest: "es_unmatched_start (inspect_loop (e # es) st) =
        (case List.find (\<lambda>e. is_compaction_marker (ev_data e)) es of
           None \<Rightarrow> es_unmatched_start (inspect_step e st)
         | Some e' \<Rightarrow> (case ev_data e' of CompactionStart _ _ _ \<Rightarrow> Some e' | _ \<Rightarrow> es_unmatched_start (inspect_step e st)))"
      using False by (simp add: Let_def Cons.IH inspect_step_unmatched(1))
    show ?thesis unfolding rest same using False by simp
  qed
qed simp

lemma find_append: "List.find P (xs @ ys) = (case List.find P xs of None \<Rightarrow> List.find P ys | Some x \<Rightarrow> Some x)"
  by (induction xs) auto

lemma unlocked_after_end:
  assumes "list_all (\<lambda>e. \<not> is_compaction_marker (ev_data e)) ys"
  shows "assert_no_active_compaction (log @ [log_only n t (CompactionEnd c s w err)] @ ys) = Inr ()"
proof -
  have "List.find (\<lambda>e. is_compaction_marker (ev_data e)) (rev ys) = None"
    using assms by (auto simp: find_None_iff list_all_iff)
  then show ?thesis
    by (simp add: assert_no_active_compaction_def assert_compaction_inactive_def inspect_entry_state_def
        inspect_loop_unmatched find_append log_only_def Let_def)
qed

section \<open>The transaction is bracketed\<close>

lemma grows_retry:
  assumes "services_ok deps"
  shows "grows.keeps (rd_projections deps) (retry_preparation deps stability p err)"
  unfolding retry_preparation_def
  by (intro grows.keeps_rules reads_grows[OF reads_stable[OF assms]] reads_grows[OF reads_validate]
      reads_grows[OF reads_prepare[OF assms]]) (use assms in \<open>simp add: services_ok_def\<close>)

lemma grows_summarize:
  assumes "services_ok deps" and "pairing_ok (rd_projections deps) h"
    and "summarize_loop deps stability fuel p h = Some (r, h')"
  shows "marker_free (rd_projections deps) h h'"
  using assms(2,3)
proof (induction fuel arbitrary: p h)
  case (Suc fuel)
  obtain x h1 where run: "rd_summarize deps (pc_input p) h = (x, h1)" by fastforce
  then have h1: "marker_free (rd_projections deps) h h1"
    using assms(1) grows.keepsD[OF _ Suc.prems(1)] by (auto simp: services_ok_def)
  show ?case
  proof (cases "ch_aborted h \<or> (\<exists>y. x = Inr y) \<or> ch_aborted h1")
    case True
    then show ?thesis using Suc.prems run h1 grows.related_refl[OF Suc.prems(1)]
      by (auto split: if_splits sum.splits)
  next
    case False
    then obtain e where x: "x = Inl e" "\<not> ch_aborted h" "\<not> ch_aborted h1" by (cases x) auto
    obtain y h2 where y: "retry_preparation deps stability p e h1 = (y, h2)" by fastforce
    have h2: "marker_free (rd_projections deps) h h2"
      using grows.related_trans[OF h1] grows.keepsD[OF grows_retry[OF assms(1)] grows.related_ok[OF h1] y] by blast
    show ?thesis
    proof (cases y)
      case (Inl e2)
      then show ?thesis using Suc.prems(2) run x y h2 by simp
    next
      case (Inr p')
      then have "summarize_loop deps stability fuel p' h2 = Some (r, h')" using Suc.prems(2) run x y by simp
      then show ?thesis using Suc.IH[OF grows.related_ok[OF h2]] grows.related_trans[OF h2] by blast
    qed
  qed
qed simp

text \<open>Where the \<open>try\<close> block stopped.\<close>

lemma attempt_cases:
  assumes "attempt_compaction deps options cid fuel sel owner startEvent h = Some (outcome, h')"
  obtains (prepare) e where "prepare_compaction deps sel h = (Inl e, h')" "outcome = Inl (TransactionFailure e SummaryStage, False)"
  | (summarize) p h1 e where "prepare_compaction deps sel h = (Inr p, h1)"
      "summarize_compaction deps (co_stability options) cid (co_source_command_id options) fuel p h1 = Some (Inl e, h')"
      "outcome = Inl (TransactionFailure e SummaryStage, False)"
  | (stable) p h1 sc h2 e where "prepare_compaction deps sel h = (Inr p, h1)"
      "summarize_compaction deps (co_stability options) cid (co_source_command_id options) fuel p h1 = Some (Inr sc, h2)"
      "bindS (if co_manual options then throw_if_aborted else returnS ()) (\<lambda>_.
         assert_stable deps (co_stability options) (prepared_compaction.truncate sc)) h2 = (Inl e, h')"
      "outcome = Inl (TransactionFailure e SummaryStage, False)"
  | (commit) p h1 sc h2 h3 x h4 where "prepare_compaction deps sel h = (Inr p, h1)"
      "summarize_compaction deps (co_stability options) cid (co_source_command_id options) fuel p h1 = Some (Inr sc, h2)"
      "bindS (if co_manual options then throw_if_aborted else returnS ()) (\<lambda>_.
         assert_stable deps (co_stability options) (prepared_compaction.truncate sc)) h2 = (Inr (), h3)"
      "commit_compaction_body deps cid (co_source_command_id options) (ev_seq startEvent) sc h3 = (x, h4)"
      "case x of Inl e \<Rightarrow> outcome = Inl (TransactionFailure e CommitStage, False) \<and> h' = h4
       | Inr pending \<Rightarrow> (case append_to deps (CompactionEnd cid (co_source_command_id options) owner None) None None h4 of
           (Inl e, h5) \<Rightarrow> outcome = Inl (TransactionFailure e CommitStage, True) \<and> h' = h5
         | (Inr endEvent, h5) \<Rightarrow> outcome = Inr (complete_compaction pending endEvent) \<and> h' = h5)"
proof -
  obtain y h1 where y: "prepare_compaction deps sel h = (y, h1)" by fastforce
  show thesis
  proof (cases y)
    case (Inl e)
    then show ?thesis using assms y prepare[of e] by (simp add: attempt_compaction_def)
  next
    case (Inr p)
    show ?thesis
    proof (cases "summarize_compaction deps (co_stability options) cid (co_source_command_id options) fuel p h1")
      case None
      then show ?thesis using assms y Inr by (simp add: attempt_compaction_def)
    next
      case (Some zh)
      obtain z h2 where z: "zh = (z, h2)" by fastforce
      show ?thesis
      proof (cases z)
        case (Inl e)
        then show ?thesis using assms y \<open>y = Inr p\<close> Some z summarize[of p h1 e] by (simp add: attempt_compaction_def)
      next
        case (Inr sc)
        obtain w h3 where w: "bindS (if co_manual options then throw_if_aborted else returnS ()) (\<lambda>_.
            assert_stable deps (co_stability options) (prepared_compaction.truncate sc)) h2 = (w, h3)" by fastforce
        obtain x h4 where x: "commit_compaction_body deps cid (co_source_command_id options) (ev_seq startEvent) sc h3 = (x, h4)"
          by fastforce
        show ?thesis
        proof (cases w)
          case (Inl e)
          then show ?thesis using assms y \<open>y = Inr p\<close> Some z \<open>z = Inr sc\<close> w stable[of p h1 sc h2 e]
            by (simp add: attempt_compaction_def)
        next
          case (Inr u)
          have "case x of Inl e \<Rightarrow> outcome = Inl (TransactionFailure e CommitStage, False) \<and> h' = h4
              | Inr pending \<Rightarrow> (case append_to deps (CompactionEnd cid (co_source_command_id options) owner None) None None h4 of
                  (Inl e, h5) \<Rightarrow> outcome = Inl (TransactionFailure e CommitStage, True) \<and> h' = h5
                | (Inr endEvent, h5) \<Rightarrow> outcome = Inr (complete_compaction pending endEvent) \<and> h' = h5)"
            using assms y \<open>y = Inr p\<close> Some z \<open>z = Inr sc\<close> w Inr x
            by (simp add: attempt_compaction_def split: sum.splits prod.splits)
          then show ?thesis using commit[of p h1 sc h2 h3 x h4] y \<open>y = Inr p\<close> Some z \<open>z = Inr sc\<close> w Inr x by simp
        qed
      qed
    qed
  qed
qed

lemma grows_commit: "grows.keeps (rd_projections deps) (commit_compaction_body deps cid command startSeq sc)"
  unfolding commit_compaction_body_def by (intro grows.keeps_rules grows_append) simp_all

lemma commit_start_seq:
  "commit_compaction_body deps cid command startSeq sc h = (Inr pending, h') \<Longrightarrow> cr_start_seq pending = startSeq"
  by (auto simp: commit_compaction_body_def bindS_def returnS_def split: prod.splits sum.splits)

lemma grows_guard:
  "grows.keeps projections (if b then throw_if_aborted else returnS ())"
  by (intro grows.keeps_rules reads_grows[OF reads_throw_if_aborted])

abbreviation end_data :: "string \<Rightarrow> 'w compaction_options \<Rightarrow> nat option \<Rightarrow> string option \<Rightarrow> event_data" where
  "end_data cid options owner err \<equiv> CompactionEnd cid (co_source_command_id options) owner err"

lemma attempt_spec:
  assumes "services_ok deps" and "pairing_ok (rd_projections deps) h"
    and "attempt_compaction deps options cid fuel sel owner startEvent h = Some (outcome, h')"
  shows "(\<exists>e stage. outcome = Inl (TransactionFailure e stage, False) \<and> marker_free (rd_projections deps) h h')
    \<or> (\<exists>pending h4. outcome = Inr (complete_compaction pending (log_entry deps h4 (end_data cid options owner None)))
         \<and> cr_start_seq pending = ev_seq startEvent \<and> marker_free (rd_projections deps) h h4
         \<and> pairing_ok (rd_projections deps) h'
         \<and> host_log h' = host_log h4 @ [log_entry deps h4 (end_data cid options owner None)])"
proof -
  let ?P = "rd_projections deps"
  have prepared: "marker_free ?P h h1" if "prepare_compaction deps sel h = (y, h1)" for y h1
    using grows.keepsD[OF reads_grows[OF reads_prepare[OF assms(1)]] assms(2) that] .
  have summarized: "marker_free ?P h h2"
    if "prepare_compaction deps sel h = (y, h1)"
      "summarize_compaction deps (co_stability options) cid (co_source_command_id options) fuel p h1 = Some (z, h2)" for y p h1 z h2
  proof -
    note h1 = prepared[OF that(1)]
    from that(2) obtain r where "summarize_loop deps (co_stability options) fuel p h1 = Some (r, h2)"
      by (auto simp: summarize_compaction_def)
    then show ?thesis using grows.related_trans[OF h1] grows_summarize[OF assms(1) grows.related_ok[OF h1]] by blast
  qed
  have guarded: "grows.keeps ?P (bindS (if co_manual options then throw_if_aborted else returnS ()) (\<lambda>_.
      assert_stable deps (co_stability options) p))" for p
    by (intro grows.keeps_bindS grows_guard reads_grows[OF reads_stable[OF assms(1)]])
  from assms(3) show ?thesis
  proof (cases rule: attempt_cases)
    case (prepare e)
    then show ?thesis using prepared by blast
  next
    case (summarize p h1 e)
    then show ?thesis using summarized by blast
  next
    case (stable p h1 sc h2 e)
    note h2 = summarized[OF stable(1,2)]
    show ?thesis using grows.related_trans[OF h2 grows.keepsD[OF guarded grows.related_ok[OF h2] stable(3)]] stable(4) by blast
  next
    case (commit p h1 sc h2 h3 x h4)
    note h2 = summarized[OF commit(1,2)]
    note h3 = grows.related_trans[OF h2 grows.keepsD[OF guarded grows.related_ok[OF h2] commit(3)]]
    note h4 = grows.related_trans[OF h3 grows.keepsD[OF grows_commit grows.related_ok[OF h3] commit(4)]]
    show ?thesis
    proof (cases x)
      case (Inl e)
      then show ?thesis using h4 commit(5) by auto
    next
      case (Inr pending)
      have free: "compaction_free ?P" using assms(1) by (simp add: services_ok_def)
      obtain h5 where h5: "append_to deps (end_data cid options owner None) None None h4
            = (Inr (log_entry deps h4 (end_data cid options owner None)), h5)"
          "pairing_ok ?P h5" "host_log h5 = host_log h4 @ [log_entry deps h4 (end_data cid options owner None)]"
        using append_record[OF free grows.related_ok[OF h4], of "end_data cid options owner None"]
        by (auto simp: compaction_record_def)
      show ?thesis using h4 h5 commit(4,5) Inr commit_start_seq[OF commit(4)[unfolded Inr]] by auto
    qed
  qed
qed

lemma open_spec:
  assumes "services_ok deps" and "pairing_ok (rd_projections deps) h"
    and "open_transaction deps options cid s t h = (r, h')"
  shows "case r of
      Inl _ \<Rightarrow> same_log (rd_projections deps) h h'
    | Inr (sel, owner, e) \<Rightarrow> pairing_ok (rd_projections deps) h' \<and> assert_no_active_compaction (host_log h) = Inr ()
        \<and> e = log_entry deps h (CompactionStart cid (co_source_command_id options) owner)
        \<and> host_log h' = host_log h @ [e]
        \<and> (\<exists>h1 h2. same_log (rd_projections deps) h h1 \<and> validate_surface_region deps s t h1 = (Inr sel, h2)
             \<and> same_log (rd_projections deps) h1 h2 \<and> pairing_host.more h' = pairing_host.more h2)"
proof -
  let ?P = "rd_projections deps"
  obtain g h1 where g: "(if co_manual options then throw_if_aborted else returnS ()) h = (g :: compaction_error + unit, h1)" by fastforce
  have h1: "same_log ?P h h1"
    using g reads.related_refl[OF assms(2)] by (auto simp: throw_if_aborted_def returnS_def split: if_splits)
  show ?thesis
  proof (cases g)
    case (Inl e)
    then show ?thesis using assms(3) g h1 by (auto simp: open_transaction_def bindS_def)
  next
    case (Inr u)
    obtain v h2 where v: "validate_surface_region deps s t h1 = (v, h2)" by fastforce
    have step: "same_log ?P h1 h2" by (rule reads.keepsD[OF reads_validate reads.related_ok[OF h1] v])
    note h2 = reads.related_trans[OF h1 step]
    have log: "host_log h2 = host_log h" using h2 by (simp add: same_log_def)
    show ?thesis
    proof (cases v)
      case (Inl e)
      then show ?thesis using assms(3) g \<open>g = Inr u\<close> v h2 by (auto simp: open_transaction_def bindS_def)
    next
      case (Inr sel)
      have free: "compaction_free ?P" using assms(1) by (simp add: services_ok_def)
      note add = append_record[OF free reads.related_ok[OF h2], of "CompactionStart cid (co_source_command_id options) owner" for owner]
      have start: "compaction_record (CompactionStart cid (co_source_command_id options) owner)" for owner
        by (simp add: compaction_record_def)
      show ?thesis
      proof (cases "transaction_owner options (host_log h)")
        case (Inl e)
        then show ?thesis using assms(3) g \<open>g = Inr u\<close> v Inr h2
          by (auto simp: open_transaction_def bindS_def withS_def throwS_def log)
      next
        case (Inr owner)
        have inactive: "assert_no_active_compaction (host_log h) = Inr ()"
          using Inr by (auto simp: transaction_owner_def assert_no_active_compaction_def Let_def)
        obtain h3 where h3: "append_to deps (CompactionStart cid (co_source_command_id options) owner) None None h2
            = (Inr (log_entry deps h2 (CompactionStart cid (co_source_command_id options) owner)), h3)"
            "pairing_ok ?P h3" "host_log h3 = host_log h2 @ [log_entry deps h2 (CompactionStart cid (co_source_command_id options) owner)]"
            "pairing_host.more h3 = pairing_host.more h2"
          using add[OF start, of owner] .
        then have "r = Inr (sel, owner, log_entry deps h (CompactionStart cid (co_source_command_id options) owner))" "h' = h3"
          using assms(3) g \<open>g = Inr u\<close> v \<open>v = Inr sel\<close> Inr log
          by (auto simp: open_transaction_def bindS_def withS_def returnS_def)
        moreover have "validate_surface_region deps s t h1 = (Inr sel, h2)" using v \<open>v = Inr sel\<close> by simp
        ultimately show ?thesis using h3 h1 step inactive log by (simp only: prod.case sum.case simp_thms) metis
      qed
    qed
  qed
qed

lemma close_spec:
  assumes "services_ok deps" and "pairing_ok (rd_projections deps) h"
  obtains h' where "close_attempt deps options cid owner (Inl (TransactionFailure e stage, False)) h
        = (Inl (TransactionFailure e stage), True, h')"
    "pairing_ok (rd_projections deps) h'"
    "host_log h' = host_log h @ [log_entry deps h (end_data cid options owner (Some (rd_error_chain deps e)))]"
proof -
  let ?d = "end_data cid options owner (Some (rd_error_chain deps e))"
  have free: "compaction_free (rd_projections deps)" using assms(1) by (simp add: services_ok_def)
  have "compaction_record ?d" by (simp add: compaction_record_def)
  from append_record[OF free assms(2) this] obtain h' where
    h': "append_to deps ?d None None h = (Inr (log_entry deps h ?d), h')" "pairing_ok (rd_projections deps) h'"
      "host_log h' = host_log h @ [log_entry deps h ?d]" .
  have "close_attempt deps options cid owner (Inl (TransactionFailure e stage, False)) h = (Inl (TransactionFailure e stage), True, h')"
    unfolding close_attempt_def by (simp add: h'(1))
  then show ?thesis using h'(2,3) by (rule that)
qed

lemma marker_freeE:
  assumes "marker_free projections h h'"
  obtains xs where "host_log h' = host_log h @ xs" "list_all (\<lambda>e. \<not> is_compaction_marker (ev_data e)) xs"
    "pairing_ok projections h'"
  using assms by (auto simp: marker_free_def)

definition good_end :: "nat \<Rightarrow> nat \<Rightarrow> string option \<Rightarrow> 'e + compaction_result \<Rightarrow> bool" where
  \<comment> \<open>a result is answered only under an end marker without an error, and names both markers\<close>
  "good_end startSeq endSeq err r = (case r of
     Inl _ \<Rightarrow> True | Inr res \<Rightarrow> err = None \<and> cr_start_seq res = startSeq \<and> cr_end_seq res = endSeq)"

lemma closed_spec:
  assumes "services_ok deps" and "pairing_ok (rd_projections deps) h"
    and "attempt_compaction deps options cid fuel sel owner startEvent h = Some (outcome, h2)"
  obtains r h3 xs n t err where "close_attempt deps options cid owner outcome h2 = (r, True, h3)"
    "pairing_ok (rd_projections deps) h3"
    "host_log h3 = host_log h @ xs @ [log_only n t (end_data cid options owner err)]"
    "list_all (\<lambda>e. \<not> is_compaction_marker (ev_data e)) xs" "good_end (ev_seq startEvent) n err r"
  using attempt_spec[OF assms]
proof (elim disjE exE conjE)
  fix e stage assume o: "outcome = Inl (TransactionFailure e stage, False)" and u: "marker_free (rd_projections deps) h h2"
  from u obtain xs where xs: "host_log h2 = host_log h @ xs" "list_all (\<lambda>e. \<not> is_compaction_marker (ev_data e)) xs"
    by (rule marker_freeE)
  obtain h3 where h3: "close_attempt deps options cid owner outcome h2 = (Inl (TransactionFailure e stage), True, h3)"
    "pairing_ok (rd_projections deps) h3"
    "host_log h3 = host_log h2 @ [log_entry deps h2 (end_data cid options owner (Some (rd_error_chain deps e)))]"
    unfolding o by (rule close_spec[OF assms(1) grows.related_ok[OF u]])
  show thesis using h3(1,2)
    by (rule that[where xs = xs]) (simp_all add: h3(3) xs good_end_def)
next
  fix pending h4 assume o: "outcome = Inr (complete_compaction pending (log_entry deps h4 (end_data cid options owner None)))"
    and u: "marker_free (rd_projections deps) h h4" and ok: "pairing_ok (rd_projections deps) h2"
    and start: "cr_start_seq pending = ev_seq startEvent"
    and log: "host_log h2 = host_log h4 @ [log_entry deps h4 (end_data cid options owner None)]"
  from u obtain xs where xs: "host_log h4 = host_log h @ xs" "list_all (\<lambda>e. \<not> is_compaction_marker (ev_data e)) xs"
    by (rule marker_freeE)
  have "close_attempt deps options cid owner outcome h2 = (Inr (projr outcome), True, h2)"
    by (simp add: o close_attempt_def)
  then show thesis using ok
    by (rule that[where xs = xs and n = "length (host_log h4)"])
      (simp_all add: log xs good_end_def o complete_compaction_def start log_only_def)
qed

definition flush_ok :: "projection list \<Rightarrow> 'w compaction_options \<Rightarrow> bool" where
  "flush_ok projections options = (case co_flush options of
     None \<Rightarrow> True | Some flush \<Rightarrow> grows.keeps projections flush)"

lemma settle_spec:
  assumes "flush_ok projections options" and "pairing_ok projections h"
    and "settle_transaction options (r, True, h) = (r', h')"
  shows "marker_free projections h h'" and "r' = Inr res \<Longrightarrow> r = Inr res"
proof -
  obtain f h1 where f: "(case co_flush options of None \<Rightarrow> (Inr (), h) | Some flush \<Rightarrow> flush h) = (f, h1)" by fastforce
  have "marker_free projections h h1"
    using f assms(1,2) grows.related_refl[OF assms(2)] grows.keepsD[OF _ assms(2)]
    by (auto simp: flush_ok_def split: option.splits)
  then show "marker_free projections h h'" "r' = Inr res \<Longrightarrow> r = Inr res"
    using assms(3) f by (auto simp: settle_transaction_def split: sum.splits if_splits)
qed


section \<open>The replacement is accepted\<close>

lemma call_count_take_drop: "call_count f (take (a + b) ns) = call_count f (take a ns) + call_count f (take b (drop a ns))"
  by (simp add: take_add)

lemma paired_spliced:
  assumes "paired look ns" and "i \<le> j" and "j < length ns"
    and "call_count look (take i ns) = 0" and "call_count look (take (j + 1) ns) = 0"
    and "\<And>n. n \<in> set ns \<Longrightarrow> look' n = look n"
    and "look' new = Some e" and "event_delta e = 0"
  shows "paired look' (take i ns @ [new] @ drop (j + 1) ns)"
  unfolding paired_iff
proof (intro allI impI)
  have same: "call_count look' (take k ns) = call_count look (take k ns)"
      "call_count look' (take k (drop m ns)) = call_count look (take k (drop m ns))" for k m
    using assms(6) by (auto intro!: call_count_cong dest: in_set_takeD in_set_dropD)
  have old: "0 \<le> call_count look (take k ns)" for k
    using assms(1) unfolding paired_iff by (metis nat_le_linear take_all)
  fix k assume "k \<le> length (take i ns @ [new] @ drop (j + 1) ns)"
  show "0 \<le> call_count look' (take k (take i ns @ [new] @ drop (j + 1) ns))"
  proof (cases "k \<le> i")
    case True
    then have "take k (take i ns @ [new] @ drop (j + 1) ns) = take k ns" using assms(2,3) by (simp add: min_def)
    then show ?thesis using old same by simp
  next
    case False
    then have "take k (take i ns @ [new] @ drop (j + 1) ns) = take i ns @ new # take (k - i - 1) (drop (j + 1) ns)"
      using assms(2,3) by (simp add: min_def take_Cons')
    moreover have "call_count look (take (k - i - 1) (drop (j + 1) ns)) = call_count look (take (j + 1 + (k - i - 1)) ns)"
      using assms(5) call_count_take_drop[of look "j + 1" "k - i - 1" ns] by simp
    ultimately show ?thesis
      using old[of "j + 1 + (k - i - 1)"] same(1)[of i] same(2)[of "k - i - 1" "j + 1"] assms(4,7,8) by simp
  qed
qed

lemma validate_spec:
  fixes h :: "'w compaction_host"
  assumes "pairing_ok (rd_projections deps) h" and "validate_surface_region deps s t h = (Inr sel, h')"
  shows "let ns = surface_nodes (rd_projections deps) h; look = nth_opt (host_log h)
    in paired look ns \<and> sel_start sel = s \<and> sel_end sel = t
       \<and> replacement_range ns s t = Inr (sel_start_idx sel, sel_end_idx sel, sel_shadowed sel)
       \<and> call_count look (take (sel_start_idx sel) ns) = 0 \<and> call_count look (take (sel_end_idx sel + 1) ns) = 0"
proof -
  let ?P = "rd_projections deps"
  let ?ns = "surface_nodes ?P h" and ?look = "nth_opt (host_log h)"
  obtain h1 where h1: "surface_get ?P fs_nodes h = (Inr ?ns, h1)" "same_log ?P h h1"
    using surface_get_ok[OF assms(1), of fs_nodes] by auto
  have ok1: "pairing_ok ?P h1" and log1: "host_log h1 = host_log h" using h1(2) by (simp_all add: same_log_def)
  obtain i where i: "index_of s ?ns = Some i"
    using assms(2) h1(1) by (auto simp: validate_surface_region_def bindS_def mapErrS_def throwS_def split: option.splits)
  obtain j where j: "index_of t ?ns = Some j" "i \<le> j"
    using assms(2) h1(1) i
    by (auto simp: validate_surface_region_def bindS_def mapErrS_def throwS_def split: option.splits if_splits)
  note idx = index_of_Some[OF i] index_of_Some[OF j(1)]
  obtain b h2 where b: "tool_pairing_balanced_before ?P s h1 = (b, h2)" by fastforce
  have h2: "same_log ?P h1 h2" by (rule reads.keepsD[OF reads_cut_balanced(1) ok1 b])
  have ok2: "pairing_ok ?P h2" and log2: "host_log h2 = host_log h" using h2 log1 by (simp_all add: same_log_def)
  obtain a h3 where a: "tool_pairing_balanced_after ?P t h2 = (a, h3)" by fastforce
  have ab: "b = Inr True" "a = Inr True"
      and sel: "sel = \<lparr>sel_start = s, sel_end = t, sel_start_idx = i, sel_end_idx = j, sel_shadowed = take (j + 1 - i) (drop i ?ns)\<rparr>"
    using assms(2) h1(1) i j idx b a
    by (auto simp: validate_surface_region_def bindS_def mapErrS_def throwS_def returnS_def split: sum.splits if_splits)
  have pair: "paired ?look ?ns"
  proof (rule ccontr)
    assume "\<not> paired ?look ?ns"
    then show False using balance_cache_of_ok[OF ok1] b ab(1)
      by (auto simp: log1 tool_pairing_balanced_before_def cut_balanced_def bindS_def)
  qed
  have "call_count ?look (take i ?ns) = 0" "call_count ?look (take (j + 1) ?ns) = 0"
    using cut_balanced_exact[OF ok1, of 0 s] cut_balanced_exact[OF ok2, of 1 t] pair a b ab i j(1)
    by (auto simp: log1 log2 tool_pairing_balanced_before_def tool_pairing_balanced_after_def exact_balance_def Let_def)
  then show ?thesis using pair i j by (simp add: sel replacement_range_def)
qed

definition checkpoint_event :: "nat \<Rightarrow> int \<Rightarrow> message \<Rightarrow> nat \<Rightarrow> nat \<Rightarrow> nat list \<Rightarrow> session_event" where
  "checkpoint_event n time m s t sources =
     \<lparr>ev_seq = n, ev_time = time, ev_data = UserMessage m, ev_surface_op = Some (replace_json s t),
      ev_source_event_seqs = Some (JArr (map seq_json sources)), ev_ignorable = False\<rparr>"

lemma distinct_map_seq [simp]: "distinct (map seq_of (map seq_json ns)) \<longleftrightarrow> distinct ns"
  by (simp add: comp_def)

lemma checkpoint_plan:
  assumes "message_projections projections" and "replacement_range (fs_nodes st) s t = Inr (i, j, sh)"
    and "set sh \<subseteq> set sources" and "distinct sources" and "sources \<noteq> []" and "list_all (\<lambda>x. x < n) sources"
    and "s < n" and "t < n" and "int n \<le> max_safe"
    and "i \<noteq> 0 \<or> \<not> head_is_system (fs_nodes st) es 0"
  shows "plan_surface_event projections st (checkpoint_event n time m s t sources) n es 0
       = Inr (ReplacePlan \<lparr>rp_seq = n, rp_start = s, rp_end = t, rp_shadowed = sh\<rparr> i j)"
proof -
  let ?e = "checkpoint_event n time m s t sources"
  have none: "List.find (\<lambda>p. mp_type p = ''user/message'') projections = None"
    using message_projections.core_not_projected[OF assms(1), of "UserMessage m"]
    by (simp add: core_event_types_def surface_event_types_def)
  have "list_all is_event_seq (map seq_json sources)" using assms(6,9) by (auto simp: list_all_iff)
  moreover have "map seq_of (map seq_json sources) = sources" by (simp add: comp_def)
  moreover have "first_not_earlier n sources = None" using assms(6) by (simp add: first_not_earlier_None)
  ultimately have cited: "cited_sources ?e = Inr sources"
    using assms(4,5) by (simp add: cited_sources_def checkpoint_event_def Let_def del: map_map)
  have refs: "assert_source_event_references ?e sh' = Inr ()" if "set sh' \<subseteq> set sources" for sh'
    using cited that by (simp add: assert_source_event_references_def Let_def checkpoint_event_def subset_iff filter_empty_conv)
  have "is_replace_op (replace_json s t)"
    using assms(7-9) by (simp add: is_replace_op_def replace_json_def)
  then have "surface_op_of ?e = Inr (Some (Replace s t))"
    by (simp add: surface_op_of_def checkpoint_event_def replace_json_def)
  then have "validate_surface_metadata ?e = Inr (Some (Replace s t))"
    using refs[of "[]"] assms(7,8) by (simp add: validate_surface_metadata_def) (simp add: checkpoint_event_def)
  moreover have "assert_developer_header ?e es 0 = Inr ()" "ev_seq ?e = n" "event_type (ev_data ?e) = ''user/message''"
      "needs_message_projection (ev_data ?e) = False" "assert_tool_result_rewrite ?e sh es 0 = Inr ()"
    by (simp_all add: checkpoint_event_def assert_developer_header_def assert_tool_result_rewrite_def)
  moreover have "assert_system_head_rewrite ?e (fs_nodes st) i sh es 0 = Inr ()"
    using assms(10) by (auto simp: assert_system_head_rewrite_def)
  ultimately show ?thesis
    using none assms(2) refs[OF assms(3)] by (simp add: plan_surface_event_def)
qed

lemma append_planned:
  assumes "message_projections projections" and "session_ok projections s"
    and "fold_surface_state projections (ss_log s) = Inr (st, rs)"
    and "e = \<lparr>ev_seq = length (ss_log s), ev_time = now, ev_data = d, ev_surface_op = op, ev_source_event_seqs = sources, ev_ignorable = False\<rparr>"
    and "validate_session_event_data d = Inr ()"
    and "plan_surface_event projections st e (length (ss_log s)) (ss_log s) 0 = Inr plan"
  obtains s' where "append_event projections False now d op sources s = Inr (e, s')" "session_ok projections s'"
    "ss_log s' = ss_log s @ [e]" "log_surface projections (ss_log s @ [e]) = fst (apply_surface_plan st plan)"
proof -
  have mok: "message_projections.mg_ok projections (ss_log s) (ss_surface s)"
    using message_projections.managed_ok[OF assms(1) session_ok_managed[OF assms(2)]] by simp
  obtain mg where "validate_next projections 0 (ss_log s) (ss_surface s) e = Inr mg"
    using message_projections.validate_next_ok[OF assms(1) mok assms(3), of e] assms(6) by auto
  then have "\<exists>s'. append_event projections False now d op sources s = Inr (e, s')"
    using assms(5) by (simp add: append_event_def Let_def commit_def assms(4)[symmetric])
  then obtain s' where s': "append_event projections False now d op sources s = Inr (e, s')" by blast
  note ok = message_projections.session_ok_append[OF assms(1,2) s']
  have "fold_surface_state projections (ss_log s @ [e])
      = Inr (fst (apply_surface_plan st plan), rs @ (case snd (apply_surface_plan st plan) of None \<Rightarrow> [] | Some r \<Rightarrow> [r]))"
    unfolding message_projections.fold_snoc[OF assms(1)] using assms(3,6)
    by (auto simp: fold_step_def apply_surface_event_def split: prod.splits option.splits)
  then show ?thesis using that[OF s'] ok by (simp add: log_surface_def)
qed

lemma surface_after_record:
  assumes "compaction_free projections" and "session_ok projections s" and "compaction_record d"
  shows "log_surface projections (ss_log s @ [log_only (length (ss_log s)) t d]) = log_surface projections (ss_log s)"
proof -
  have m: "message_projections projections" using assms(1) by (simp add: compaction_free_def)
  obtain rs where f: "fold_surface_state projections (ss_log s) = Inr (log_surface projections (ss_log s), rs)"
    by (rule session_fold[OF m assms(2)])
  have "plan_surface_event projections st (log_only n t d) n es 0 = Inr NoPlan" for st n es
    using compaction_record_log_only[OF assms(1,3)] by (cases d)
      (simp_all add: log_only_data_def plan_surface_event_def log_only_def validate_surface_metadata_def
        surface_op_of_def assert_developer_header_def)
  then have "fold_surface_state projections (ss_log s @ [log_only (length (ss_log s)) t d]) = Inr (log_surface projections (ss_log s), rs)"
    unfolding message_projections.fold_snoc[OF m] using f
    by (simp add: fold_step_def apply_surface_event_def)
  then show ?thesis by (simp add: log_surface_def)
qed

lemma node_event:
  assumes "pairing_ok projections h" and "n \<in> set (surface_nodes projections h)"
  shows "n < length (host_log h)" and "is_surface_eligible_type (ev_data (host_log h ! n))"
proof -
  have m: "message_projections projections" and s: "session_ok projections (ph_session h)"
    using assms(1) by (simp_all add: pairing_ok_def)
  obtain rs where f: "fold_surface_state projections (host_log h) = Inr (log_surface projections (host_log h), rs)"
    by (rule session_fold[OF m s])
  show "n < length (host_log h)" "is_surface_eligible_type (ev_data (host_log h ! n))"
    using message_projections.fold_nodes_events(2)[OF m f assms(2)] by simp_all
qed

definition commit_result :: "string \<Rightarrow> string option \<Rightarrow> nat \<Rightarrow> nat \<Rightarrow> summarized_compaction \<Rightarrow> compaction_result" where
  \<comment> \<open>what a committed body answers, with its summary at the position \<open>n\<close>\<close>
  "commit_result cid command startSeq n sc =
     \<lparr>cr_compaction_id = cid, cr_source_command_id = command, cr_start_seq = startSeq, cr_summary_seq = n,
      cr_end_seq = 0, cr_summary = sr_summary (sc_result sc), cr_shadowed_range = (sel_start sc, sel_end sc),
      cr_shadowed_seqs = sel_shadowed sc, cr_shadowed_token_count = pc_shadowed_token_count sc\<rparr>"

lemma checkpoint_planned:
  assumes "pairing_ok projections h" and "host_log h1 = host_log h @ [summary]"
    and "log_surface projections (host_log h1) = log_surface projections (host_log h)"
    and "replacement_range (surface_nodes projections h) s t = Inr (i, j, sh)"
    and "startSeq < length (host_log h)" and "startSeq \<notin> set sh" and "int (length (host_log h)) < max_safe"
    and "i \<noteq> 0 \<or> \<not> head_is_system (surface_nodes projections h) (host_log h) 0"
  shows "plan_surface_event projections (log_surface projections (host_log h1))
      (checkpoint_event (length (host_log h) + 1) time m s t ([startSeq, length (host_log h)] @ sh)) (length (host_log h1)) (host_log h1) 0
      = Inr (ReplacePlan \<lparr>rp_seq = length (host_log h) + 1, rp_start = s, rp_end = t, rp_shadowed = sh\<rparr> i j)"
proof -
  let ?n = "length (host_log h)" and ?ns = "surface_nodes projections h"
  note range = replacement_range_Some[OF assms(4)]
  have mp: "message_projections projections" and s: "session_ok projections (ph_session h)"
    using assms(1) by (simp_all add: pairing_ok_def)
  obtain rs where f: "fold_surface_state projections (host_log h) = Inr (log_surface projections (host_log h), rs)"
    by (rule session_fold[OF mp s])
  have below: "list_all (\<lambda>x. x < ?n) ?ns" using node_event(1)[OF assms(1)] by (simp add: list_all_iff)
  then have ends: "s < ?n" "t < ?n" using range by (metis nth_mem order_le_less_trans list_all_iff)+
  have "distinct sh" using message_projections.fold_nodes_events(1)[OF mp f] unfolding range(3) by simp
  moreover have "list_all (\<lambda>x. x < ?n) sh" using shadowed_subset[OF assms(4)] below by (auto simp: list_all_iff)
  ultimately have "distinct ([startSeq, ?n] @ sh)" "list_all (\<lambda>x. x < ?n + 1) ([startSeq, ?n] @ sh)"
    using assms(5,6) by (auto simp: list_all_iff less_SucI)
  moreover have "i \<noteq> 0 \<or> \<not> head_is_system ?ns (host_log h1) 0"
    using assms(8) head_is_system_append[OF below] by (simp add: assms(2))
  ultimately show ?thesis
    unfolding assms(3)
    using checkpoint_plan[OF mp, of "log_surface projections (host_log h)" s t i j sh "[startSeq, ?n] @ sh" "?n + 1" "host_log h1" time m]
      assms(4,7) ends by (simp add: assms(2) subset_insertI2)
qed

lemma commit_accepted:
  fixes deps :: "'w region_dependencies"
  assumes "compaction_free (rd_projections deps)" and "pairing_ok (rd_projections deps) h"
    and "replacement_range (surface_nodes (rd_projections deps) h) (sel_start sc) (sel_end sc) = Inr (i, j, sel_shadowed sc)"
    and "startSeq < length (host_log h)" and "startSeq \<notin> set (sel_shadowed sc)" and "int (length (host_log h)) < max_safe"
    and "i \<noteq> 0 \<or> \<not> head_is_system (surface_nodes (rd_projections deps) h) (host_log h) 0"
    and "msg_role (sc_checkpoint_message sc) = User" and "\<not> list_ex is_tool_change (msg_content (sc_checkpoint_message sc))"
  obtains h' where "commit_compaction_body deps cid command startSeq sc h
        = (Inr (commit_result cid command startSeq (length (host_log h)) sc), h')"
    "pairing_ok (rd_projections deps) h'"
    "host_log h' = host_log h @ [log_entry deps h (CompactionSummary (summary_event cid command sc)),
       checkpoint_event (length (host_log h) + 1) (rd_clock deps (length (host_log h) + 1)) (sc_checkpoint_message sc)
         (sel_start sc) (sel_end sc) ([startSeq, length (host_log h)] @ sel_shadowed sc)]"
    "surface_nodes (rd_projections deps) h' = take i (surface_nodes (rd_projections deps) h)
       @ [length (host_log h) + 1] @ drop (j + 1) (surface_nodes (rd_projections deps) h)"
proof -
  let ?P = "rd_projections deps" and ?n = "length (host_log h)" and ?m = "sc_checkpoint_message sc"
  let ?d = "CompactionSummary (summary_event cid command sc)"
  let ?sources = "[startSeq, ?n] @ sel_shadowed sc"
  let ?checkpoint = "checkpoint_event (?n + 1) (rd_clock deps (?n + 1)) ?m (sel_start sc) (sel_end sc) ?sources"
  have rec: "compaction_record ?d" by (simp add: compaction_record_def)
  have m: "message_projections ?P" and s: "session_ok ?P (ph_session h)"
    using assms(1,2) by (simp_all add: compaction_free_def pairing_ok_def)
  obtain h1 where h1: "append_to deps ?d None None h = (Inr (log_entry deps h ?d), h1)" "pairing_ok ?P h1"
      "host_log h1 = host_log h @ [log_entry deps h ?d]"
    using append_record[OF assms(1,2) rec] .
  have s1: "session_ok ?P (ph_session h1)" using h1(2) by (simp add: pairing_ok_def)
  obtain rs where f1: "fold_surface_state ?P (host_log h1) = Inr (log_surface ?P (host_log h1), rs)"
    by (rule session_fold[OF m s1])
  have same: "log_surface ?P (host_log h1) = log_surface ?P (host_log h)"
    unfolding h1(3) by (rule surface_after_record[OF assms(1) s rec])
  note plan = checkpoint_planned[OF assms(2) h1(3) same assms(3-7), of "rd_clock deps (?n + 1)" ?m]
  have v: "validate_session_event_data (UserMessage ?m) = Inr ()"
    using assms(8,9) by (simp add: validate_session_event_data_def validate_message_role_def)
  have e: "?checkpoint = \<lparr>ev_seq = length (host_log h1), ev_time = rd_clock deps (?n + 1), ev_data = UserMessage ?m,
      ev_surface_op = Some (replace_json (sel_start sc) (sel_end sc)),
      ev_source_event_seqs = Some (JArr (map seq_json ?sources)), ev_ignorable = False\<rparr>"
    by (simp add: checkpoint_event_def h1(3))
  obtain s2 where s2: "append_event ?P False (rd_clock deps (?n + 1)) (UserMessage ?m) (Some (replace_json (sel_start sc) (sel_end sc)))
        (Some (JArr (map seq_json ?sources))) (ph_session h1) = Inr (?checkpoint, s2)"
      "session_ok ?P s2" "ss_log s2 = host_log h1 @ [?checkpoint]"
      "log_surface ?P (host_log h1 @ [?checkpoint]) = fst (apply_surface_plan (log_surface ?P (host_log h1))
        (ReplacePlan \<lparr>rp_seq = ?n + 1, rp_start = sel_start sc, rp_end = sel_end sc, rp_shadowed = sel_shadowed sc\<rparr> i j))"
    by (rule append_planned[OF m s1 f1 e v plan])
  show ?thesis
  proof (rule that[of "h1\<lparr>ph_session := s2\<rparr>"])
    show "commit_compaction_body deps cid command startSeq sc h
        = (Inr (commit_result cid command startSeq ?n sc), h1\<lparr>ph_session := s2\<rparr>)"
      using h1(1,3) s2(1) by (simp add: commit_compaction_body_def bindS_def append_to_def returnS_def log_only_def commit_result_def)
    show "surface_nodes ?P (h1\<lparr>ph_session := s2\<rparr>) = take i (surface_nodes ?P h) @ [?n + 1] @ drop (j + 1) (surface_nodes ?P h)"
      using s2(3,4) replacement_range_Some(1)[OF assms(3)] by (simp add: same to_spliced_def)
  qed (simp_all add: pairing_ok_grow[OF h1(2) s2(2,3)] s2(3) h1(3))
qed


section \<open>The chosen range\<close>

lemma keep_from_spec:
  assumes "i \<le> length tokens" and "accumulated = sum_list (drop i tokens)"
  shows "keep_from retain tokens accumulated i \<le> i - 1
    \<and> (0 < keep_from retain tokens accumulated i \<longrightarrow> retain \<le> sum_list (drop (keep_from retain tokens accumulated i) tokens))"
  using assms
proof (induction i arbitrary: accumulated)
  case (Suc i)
  have "sum_list (drop i tokens) = accumulated + tokens ! i"
    using Suc.prems by (simp add: Cons_nth_drop_Suc[symmetric])
  then show ?case using Suc.IH[of "accumulated + tokens ! i"] Suc.prems(1) by (auto simp: Let_def)
qed simp_all

lemma balanced_before:
  fixes h :: "'w compaction_host"
  assumes "pairing_ok projections h" and "paired (nth_opt (host_log h)) (surface_nodes projections h)"
    and "k < length (surface_nodes projections h)"
  obtains h' where "tool_pairing_balanced_before projections (surface_nodes projections h ! k) h
      = (Inr (call_count (nth_opt (host_log h)) (take k (surface_nodes projections h)) = 0), h')" "same_log projections h h'"
    and "tool_pairing_balanced_after projections (surface_nodes projections h ! k) h
      = (Inr (call_count (nth_opt (host_log h)) (take (k + 1) (surface_nodes projections h)) = 0), h')"
proof -
  let ?ns = "surface_nodes projections h"
  have mp: "message_projections projections" and s: "session_ok projections (ph_session h)"
    using assms(1) by (simp_all add: pairing_ok_def)
  obtain rs where f: "fold_surface_state projections (host_log h) = Inr (log_surface projections (host_log h), rs)"
    by (rule session_fold[OF mp s])
  have "distinct ?ns" using message_projections.fold_nodes_events(1)[OF mp f] by simp
  then have "index_of (?ns ! k) ?ns = Some k" using assms(3) by (simp add: index_of_nth)
  moreover obtain c h' where "balance_cache_of projections h = (Inr c, h')" "same_log projections h h'"
      "c = exact_cache (nth_opt (host_log h)) (fs_replace_generation (log_surface projections (host_log h))) ?ns"
    using balance_cache_of_ok[OF assms(1)] assms(2) by auto
  ultimately show ?thesis
    using that[of h'] by (simp add: tool_pairing_balanced_before_def tool_pairing_balanced_after_def
        cut_balanced_def bindS_def cut_balance_exact)
qed

lemma back_off_spec:
  fixes h :: "'w compaction_host"
  assumes "pairing_ok projections h" and "paired (nth_opt (host_log h)) (surface_nodes projections h)"
    and "k < length (surface_nodes projections h)"
  shows "\<exists>k' h'. back_off projections (surface_nodes projections h) firstIdx k h = (Inr k', h') \<and> same_log projections h h'
     \<and> k' \<le> k \<and> (k' \<le> firstIdx \<or> call_count (nth_opt (host_log h)) (take k' (surface_nodes projections h)) = 0)"
  using assms
proof (induction k arbitrary: h)
  case 0
  then show ?case using reads.related_refl by (simp add: returnS_def)
next
  case (Suc k)
  let ?ns = "surface_nodes projections h"
  show ?case
  proof (cases "Suc k \<le> firstIdx")
    case True
    then show ?thesis using reads.related_refl[OF Suc.prems(1)] by (simp add: returnS_def)
  next
    case False
    obtain h1 where h1: "tool_pairing_balanced_before projections (?ns ! Suc k) h
        = (Inr (call_count (nth_opt (host_log h)) (take (Suc k) ?ns) = 0), h1)" "same_log projections h h1"
      using balanced_before[OF Suc.prems] .
    show ?thesis
    proof (cases "call_count (nth_opt (host_log h)) (take (Suc k) ?ns) = 0")
      case True
      then show ?thesis using False h1 by (intro exI[of _ "Suc k"] exI[of _ h1]) (simp add: bindS_def returnS_def)
    next
      case unbalanced: False
      have log: "host_log h1 = host_log h" "pairing_ok projections h1" using h1(2) by (simp_all add: same_log_def)
      obtain k' h' where "back_off projections ?ns firstIdx k h1 = (Inr k', h')" "same_log projections h1 h'" "k' \<le> k"
          "k' \<le> firstIdx \<or> call_count (nth_opt (host_log h)) (take k' ?ns) = 0"
        using Suc.IH[of h1] Suc.prems(2,3) log by auto
      then show ?thesis using False unbalanced h1 reads.related_trans[OF h1(2)]
        by (intro exI[of _ k'] exI[of _ h']) (simp add: bindS_def)
    qed
  qed
qed

lemma validate_ok:
  fixes h :: "'w compaction_host"
  assumes "pairing_ok (rd_projections deps) h" and "ns = surface_nodes (rd_projections deps) h"
    and "paired (nth_opt (host_log h)) ns" and "i \<le> j" and "j < length ns"
    and "call_count (nth_opt (host_log h)) (take i ns) = 0" and "call_count (nth_opt (host_log h)) (take (j + 1) ns) = 0"
  shows "\<exists>h'. validate_surface_region deps (ns ! i) (ns ! j) h
     = (Inr \<lparr>sel_start = ns ! i, sel_end = ns ! j, sel_start_idx = i, sel_end_idx = j,
            sel_shadowed = take (j + 1 - i) (drop i ns)\<rparr>, h') \<and> same_log (rd_projections deps) h h'"
proof -
  let ?P = "rd_projections deps"
  obtain h1 where h1: "surface_get ?P fs_nodes h = (Inr ns, h1)" "same_log ?P h h1"
    using surface_get_ok[OF assms(1), of fs_nodes] assms(2) by auto
  have log1: "host_log h1 = host_log h" "pairing_ok ?P h1" using h1(2) by (simp_all add: same_log_def)
  have distinct: "distinct ns"
  proof -
    have mp: "message_projections ?P" and s: "session_ok ?P (ph_session h)" using assms(1) by (simp_all add: pairing_ok_def)
    obtain rs where "fold_surface_state ?P (host_log h) = Inr (log_surface ?P (host_log h), rs)" by (rule session_fold[OF mp s])
    then show ?thesis using message_projections.fold_nodes_events(1)[OF mp] assms(2) by blast
  qed
  have idx: "index_of (ns ! i) ns = Some i" "index_of (ns ! j) ns = Some j"
    using distinct assms(4,5) by (simp_all add: index_of_nth)
  have at1: "paired (nth_opt (host_log h1)) (surface_nodes ?P h1)" "i < length (surface_nodes ?P h1)"
    using assms(2-5) log1(1) by simp_all
  obtain h2 where "tool_pairing_balanced_before ?P (surface_nodes ?P h1 ! i) h1
      = (Inr (call_count (nth_opt (host_log h1)) (take i (surface_nodes ?P h1)) = 0), h2)" "same_log ?P h1 h2"
    using balanced_before[OF log1(2) at1] .
  then have h2: "tool_pairing_balanced_before ?P (ns ! i) h1 = (Inr True, h2)" "same_log ?P h1 h2"
    using assms(2,6) log1(1) by simp_all
  have log2: "host_log h2 = host_log h" "pairing_ok ?P h2" using h2(2) log1(1) by (simp_all add: same_log_def)
  have at2: "paired (nth_opt (host_log h2)) (surface_nodes ?P h2)" "j < length (surface_nodes ?P h2)"
    using assms(2,3,5) log2(1) by simp_all
  obtain h3 where "same_log ?P h2 h3" "tool_pairing_balanced_after ?P (surface_nodes ?P h2 ! j) h2
      = (Inr (call_count (nth_opt (host_log h2)) (take (j + 1) (surface_nodes ?P h2)) = 0), h3)"
    using balanced_before[OF log2(2) at2] .
  then have h3: "tool_pairing_balanced_after ?P (ns ! j) h2 = (Inr True, h3)" "same_log ?P h2 h3"
    using assms(2,7) log2(1) by simp_all
  have "same_log ?P h h3" using reads.related_trans[OF h1(2) reads.related_trans[OF h2(2) h3(2)]] .
  then show ?thesis using idx h1(1) h2(1) h3(1) assms(4)
    by (intro exI[of _ h3]) (simp add: validate_surface_region_def bindS_def mapErrS_def returnS_def)
qed

lemma back_off_paired:
  fixes h :: "'w compaction_host"
  assumes "pairing_ok projections h" and "back_off projections ns firstIdx k h = (Inr k', h')" and "firstIdx < k"
  shows "paired (nth_opt (host_log h)) (surface_nodes projections h)"
proof (rule ccontr)
  assume n: "\<not> ?thesis"
  obtain l where k: "k = Suc l" "\<not> Suc l \<le> firstIdx" using assms(3) by (cases k) auto
  obtain x h1 where "balance_cache_of projections h = (Inl x, h1)" using balance_cache_of_ok[OF assms(1)] n by auto
  then have "tool_pairing_balanced_before projections (ns ! k) h = (Inl x, h1)"
    by (simp add: tool_pairing_balanced_before_def cut_balanced_def bindS_def)
  then show False using assms(2) k by (simp add: bindS_def)
qed

lemma system_head_iff:
  "ns \<noteq> [] \<Longrightarrow> system_head s (ns ! 0) = None \<longleftrightarrow> \<not> head_is_system ns (ss_log s) 0"
  by (cases ns) (auto simp: system_head_def head_is_system_def event_at_def event_in_window_0 nth_opt_def split: option.splits)

lemma head_balanced:
  assumes "ns \<noteq> []"
  shows "call_count (nth_opt es) (take (if head_is_system ns es 0 then 1 else 0) ns) = 0"
  using assms by (cases ns)
    (auto simp: head_is_system_def event_in_window_0 event_delta_def is_system_message_def nth_opt_def split: option.splits event_data.splits)

lemma select_steps:
  fixes h :: "'w compaction_host"
  assumes "pairing_ok (rd_projections deps) h"
    and "select_compactable_range deps m retain h = (Inr (Some (s, t)), h')"
  obtains h1 k where "same_log (rd_projections deps) h h1"
    "length (surface_nodes (rd_projections deps) h) = length (tm_nodes m)"
    "back_off (rd_projections deps) (surface_nodes (rd_projections deps) h)
       (if head_is_system (surface_nodes (rd_projections deps) h) (host_log h) 0 then 1 else 0)
       (keep_from retain (map tn_tokens (tm_nodes m)) 0 (length (tm_nodes m))) h1 = (Inr k, h')"
    "(if head_is_system (surface_nodes (rd_projections deps) h) (host_log h) 0 then 1 else 0) < k"
    "(if head_is_system (surface_nodes (rd_projections deps) h) (host_log h) 0 then 1 else 0)
       < keep_from retain (map tn_tokens (tm_nodes m)) 0 (length (tm_nodes m))"
    "surface_nodes (rd_projections deps) h \<noteq> []"
    "s = surface_nodes (rd_projections deps) h ! (if head_is_system (surface_nodes (rd_projections deps) h) (host_log h) 0 then 1 else 0)"
    "t = surface_nodes (rd_projections deps) h ! (k - 1)"
proof -
  let ?P = "rd_projections deps"
  let ?ns = "surface_nodes ?P h"
  let ?first = "if head_is_system ?ns (host_log h) 0 then 1 else 0 :: nat"
  let ?keep = "keep_from retain (map tn_tokens (tm_nodes m)) 0 (length (tm_nodes m))"
  obtain h1 where h1: "surface_get ?P fs_nodes h = (Inr ?ns, h1)" "same_log ?P h h1"
    using surface_get_ok[OF assms(1), of fs_nodes] by auto
  have log: "host_log h1 = host_log h" using h1(2) by (simp add: same_log_def)
  have nodes: "bindS (host_nodes deps) g h = g ?ns h1"
    for g :: "nat list \<Rightarrow> ('w compaction_host, compaction_error, (nat \<times> nat) option) prog"
    by (rule bindS_Inr) (simp add: mapErrS_def h1(1))
  have len: "length ?ns = length (tm_nodes m)" "tm_nodes m \<noteq> []"
    using assms(2) h1(1)
    by (auto simp: select_compactable_range_def Let_def bindS_def mapErrS_def returnS_def throwS_def split: if_splits)
  then have ne: "?ns \<noteq> []" by (metis length_0_conv)
  have head: "system_head (ph_session h1) (?ns ! 0) = None \<longleftrightarrow> \<not> head_is_system ?ns (host_log h) 0"
    using system_head_iff[OF ne, of "ph_session h1"] log by simp
  have run: "(if ?keep \<le> ?first then returnS None
      else bindS (mapErrS FromPairing (back_off ?P ?ns ?first ?keep)) (\<lambda>keep.
        if keep \<le> ?first then returnS None else returnS (Some (?ns ! ?first, ?ns ! (keep - 1))))) h1 = (Inr (Some (s, t)), h')"
    using assms(2) len
    by (simp add: select_compactable_range_def Let_def nodes withS_def head throwS_def del: One_nat_def split: if_splits)
  have small: "?first < ?keep" using run by (auto simp: returnS_def split: if_splits)
  obtain x h2 where x: "back_off ?P ?ns ?first ?keep h1 = (x, h2)" by fastforce
  obtain k where k: "x = Inr k" "h2 = h'" "?first < k" "s = ?ns ! ?first" "t = ?ns ! (k - 1)"
    using run small x by (cases x) (auto simp: bindS_def mapErrS_def returnS_def split: if_splits)
  show ?thesis using that[OF h1(2) len(1) x[unfolded k(1,2)] k(3) small ne k(4,5)] .
qed

text \<open>C19: a range that is chosen is one that the transaction accepts: it starts after the system prompt,
  or at the first node without one, leaves at least one node after it, and the nodes it leaves
  are worth at least retainTokens.\<close>

theorem selected_range_valid:
  fixes h :: "'w compaction_host"
  assumes "pairing_ok (rd_projections deps) h" and "list_all (\<lambda>p. 0 \<le> tn_tokens p) (tm_nodes m)"
    and "select_compactable_range deps m retain h = (Inr (Some (s, t)), h')"
  shows "\<exists>sel h''. validate_surface_region deps s t h' = (Inr sel, h'')
     \<and> sel_start_idx sel = (if head_is_system (surface_nodes (rd_projections deps) h) (host_log h) 0 then 1 else 0)
     \<and> sel_end_idx sel + 1 < length (surface_nodes (rd_projections deps) h)
     \<and> retain \<le> sum_list (map tn_tokens (drop (sel_end_idx sel + 1) (tm_nodes m)))"
proof -
  let ?P = "rd_projections deps"
  let ?ns = "surface_nodes ?P h" and ?look = "nth_opt (host_log h)"
  let ?first = "if head_is_system ?ns (host_log h) 0 then 1 else 0 :: nat"
  let ?tokens = "map tn_tokens (tm_nodes m)"
  let ?keep = "keep_from retain ?tokens 0 (length (tm_nodes m))"
  obtain h1 k where h1: "same_log ?P h h1" "length ?ns = length (tm_nodes m)"
    "back_off ?P ?ns ?first ?keep h1 = (Inr k, h')" "?first < k" "?first < ?keep" "?ns \<noteq> []"
    and st: "s = ?ns ! ?first" "t = ?ns ! (k - 1)"
    using select_steps[OF assms(1,3)] .
  have log1: "host_log h1 = host_log h" "pairing_ok ?P h1" using h1(1) by (simp_all add: same_log_def)
  have pair: "paired ?look ?ns" using back_off_paired[OF log1(2) h1(3,5)] log1(1) by simp
  have keep: "?keep \<le> length ?tokens - 1" "retain \<le> sum_list (drop ?keep ?tokens)"
    using keep_from_spec[of "length ?tokens" ?tokens 0 retain] h1(5) by simp_all
  have "?keep < length (surface_nodes ?P h1)" using keep(1) h1(2,5) log1(1) by simp
  from back_off_spec[OF log1(2) _ this, of ?first]
  have k: "same_log ?P h1 h'" "k \<le> ?keep" "call_count ?look (take k ?ns) = 0"
    using pair h1(3,4) log1(1) by auto
  have log': "host_log h' = host_log h" "pairing_ok ?P h'" using k(1) log1(1) by (simp_all add: same_log_def)
  have last: "k - 1 < length ?ns" "?first \<le> k - 1" "k - 1 + 1 = k" "k < length ?ns"
    using k(2) keep(1) h1(2,4,5) by simp_all
  have valid: "\<exists>h''. validate_surface_region deps (?ns ! ?first) (?ns ! (k - 1)) h'
      = (Inr \<lparr>sel_start = ?ns ! ?first, sel_end = ?ns ! (k - 1), sel_start_idx = ?first, sel_end_idx = k - 1,
             sel_shadowed = take (k - 1 + 1 - ?first) (drop ?first ?ns)\<rparr>, h'') \<and> same_log ?P h' h''"
    by (rule validate_ok[OF log'(2) _ _ last(2,1)])
      (use pair head_balanced[OF h1(6), of "host_log h"] k(3) log'(1) last(3) in simp_all)
  have "sum_list (drop k ?tokens) = sum_list (take (?keep - k) (drop k ?tokens)) + sum_list (drop ?keep ?tokens)"
    using k(2) by (metis append_take_drop_id drop_drop le_add_diff_inverse2 sum_list_append)
  moreover have "0 \<le> sum_list (take (?keep - k) (drop k ?tokens))"
    using assms(2) by (intro sum_list_nonneg) (auto simp: list_all_iff dest!: in_set_takeD in_set_dropD)
  ultimately have "retain \<le> sum_list (map tn_tokens (drop k (tm_nodes m)))"
    using keep(2) by (simp add: drop_map)
  then show ?thesis using valid last(3,4) unfolding st by (elim exE conjE) (intro exI conjI, assumption, simp_all)
qed

section \<open>Retrying ends\<close>

definition retry_progress :: "'w region_dependencies \<Rightarrow> (session_event list \<Rightarrow> 'w \<Rightarrow> nat) \<Rightarrow> bool" where
  \<comment> \<open>the contract of the recovery hook: it answers true only after making progress, which a failing
     summarizer and a start marker do not undo\<close>
  "retry_progress deps pending \<longleftrightarrow>
     (\<forall>input h e h'. rd_summarize deps input h = (Inl e, h') \<longrightarrow>
        pending (host_log h') (ch_world h') \<le> pending (host_log h) (ch_world h))
     \<and> (\<forall>e ns h h'. rd_recover deps e ns h = (Inr True, h') \<longrightarrow>
        pending (host_log h') (ch_world h') < pending (host_log h) (ch_world h))
     \<and> (\<forall>log w n t c s owner. pending (log @ [log_only n t (CompactionStart c s owner)]) w \<le> pending log w)"

lemma same_world:
  fixes h :: "'w compaction_host"
  shows "pairing_host.more h' = pairing_host.more h \<Longrightarrow> ch_world h' = ch_world h"
  by (cases h; cases h') simp

lemma same_pending:
  fixes h :: "'w compaction_host"
  assumes "same_log projections h h'"
  shows "pending (host_log h') (ch_world h') = pending (host_log h) (ch_world h)"
  using assms same_world[of h' h] by (simp add: same_log_def)

lemma retry_decreases:
  fixes h :: "'w compaction_host"
  assumes "services_ok deps" and "retry_progress deps pending" and "pairing_ok (rd_projections deps) h"
    and "retry_preparation deps stability p err h = (Inr p', h')"
  shows "pending (host_log h') (ch_world h') < pending (host_log h) (ch_world h)"
proof -
  let ?P = "rd_projections deps"
  obtain u h1 where h1: "assert_stable deps stability p h = (Inr u, h1)"
    using assms(4) by (auto simp: retry_preparation_def bindS_def split: prod.splits sum.splits)
  have s1: "same_log ?P h h1" by (rule reads.keepsD[OF reads_stable[OF assms(1)] assms(3) h1])
  obtain b h2 where h2: "rd_recover deps err (sel_shadowed p) h1 = (Inr b, h2)"
    using assms(4) h1 by (auto simp: retry_preparation_def bindS_def split: prod.splits sum.splits)
  have b: b using assms(4) h1 h2 by (auto simp: retry_preparation_def bindS_def throwS_def split: if_splits)
  have ok2: "pairing_ok ?P h2"
    by (rule grows.related_ok[OF grows.keepsD[OF services_grow(2)[OF assms(1)] reads.related_ok[OF s1] h2]])
  obtain sel h3 where h3: "validate_surface_region deps (sel_start p) (sel_end p) h2 = (Inr sel, h3)"
      "prepare_compaction deps sel h3 = (Inr p', h')"
    using assms(4) h1 h2 b by (auto simp: retry_preparation_def bindS_def split: prod.splits sum.splits)
  have s3: "same_log ?P h2 h3" by (rule reads.keepsD[OF reads_validate ok2 h3(1)])
  have s4: "same_log ?P h3 h'" by (rule reads.keepsD[OF reads_prepare[OF assms(1)] reads.related_ok[OF s3] h3(2)])
  have "pending (host_log h2) (ch_world h2) < pending (host_log h1) (ch_world h1)"
    using assms(2) h2[unfolded eqTrueI[OF b]] unfolding retry_progress_def by blast
  then show ?thesis
    unfolding same_pending[OF s1, symmetric, of pending] same_pending[OF s4, of pending] same_pending[OF s3, of pending] .
qed

lemma summarize_ends:
  fixes h :: "'w compaction_host"
  assumes "services_ok deps" and "retry_progress deps pending" and "pairing_ok (rd_projections deps) h"
    and "pending (host_log h) (ch_world h) < fuel"
  shows "\<exists>out. summarize_loop deps stability fuel p h = Some out"
  using assms(3,4)
proof (induction fuel arbitrary: p h)
  case (Suc fuel)
  obtain x h1 where x: "rd_summarize deps (pc_input p) h = (x, h1)" by fastforce
  show ?case
  proof (cases "ch_aborted h \<or> (\<exists>y. x = Inr y) \<or> ch_aborted h1")
    case True
    then show ?thesis using x by (auto split: sum.splits)
  next
    case False
    then obtain e where e: "x = Inl e" by (cases x) auto
    have ok1: "pairing_ok (rd_projections deps) h1"
      by (rule grows.related_ok[OF grows.keepsD[OF services_grow(1)[OF assms(1)] Suc.prems(1) x]])
    have le: "pending (host_log h1) (ch_world h1) \<le> pending (host_log h) (ch_world h)"
      using assms(2) x e unfolding retry_progress_def by blast
    obtain y h2 where y: "retry_preparation deps stability p e h1 = (y, h2)" by fastforce
    show ?thesis
    proof (cases y)
      case (Inl e2)
      then show ?thesis using False x e y by simp
    next
      case (Inr p')
      have "pending (host_log h2) (ch_world h2) < fuel"
        using retry_decreases[OF assms(1,2) ok1 y[unfolded Inr]] le Suc.prems(2) by linarith
      moreover have "pairing_ok (rd_projections deps) h2"
        using grows.keepsD[OF grows_retry[OF assms(1)] ok1 y] grows.related_ok by blast
      ultimately show ?thesis using Suc.IH[of h2 p'] False x e y Inr by simp
    qed
  qed
qed simp

text \<open>C22: when the recovery hook keeps its contract, the retry loop ends: with more fuel than the
  progress left to make, the transaction always answers.\<close>

theorem compaction_ends:
  fixes h :: "'w compaction_host"
  assumes "services_ok deps" and "retry_progress deps pending" and "pairing_ok (rd_projections deps) h"
    and "pending (host_log h) (ch_world h) < fuel"
  shows "\<exists>r h'. compact_surface_region deps options cid fuel s t h = Some (r, h')"
proof -
  let ?P = "rd_projections deps"
  obtain x h1 where x: "open_transaction deps options cid s t h = (x, h1)" by fastforce
  note opened = open_spec[OF assms(1,3) x]
  show ?thesis
  proof (cases x)
    case (Inl e)
    then show ?thesis using x by (simp add: compact_surface_region_def)
  next
    case (Inr soe)
    obtain sel owner e where soe: "x = Inr (sel, owner, e)" using Inr by (cases soe) auto
    obtain ha hb where h1: "pairing_ok ?P h1" "host_log h1 = host_log h @ [log_entry deps h (CompactionStart cid (co_source_command_id options) owner)]"
        "same_log ?P h ha" "same_log ?P ha hb" "pairing_host.more h1 = pairing_host.more hb"
      using opened by (auto simp: soe)
    have "pairing_host.more h1 = pairing_host.more h" using h1(3-5) by (simp add: same_log_def)
    then have "ch_world h1 = ch_world h" by (rule same_world)
    moreover have "pending (host_log h1) (ch_world h) \<le> pending (host_log h) (ch_world h)"
      using assms(2) unfolding h1(2) retry_progress_def by blast
    ultimately have small: "pending (host_log h1) (ch_world h1) < fuel" using assms(4) by simp
    obtain y h2 where y: "prepare_compaction deps sel h1 = (y, h2)" by fastforce
    have s2: "same_log ?P h1 h2" by (rule reads.keepsD[OF reads_prepare[OF assms(1)] h1(1) y])
    have "pending (host_log h2) (ch_world h2) < fuel" using small same_pending[OF s2, of pending] by simp
    then have "\<exists>out. summarize_compaction deps (co_stability options) cid (co_source_command_id options) fuel p h2 = Some out" for p
      using summarize_ends[OF assms(1,2) reads.related_ok[OF s2], of fuel "co_stability options" p]
      by (auto simp: summarize_compaction_def)
    note ends = this
    have "\<exists>out. attempt_compaction deps options cid fuel sel owner e h1 = Some out"
    proof (cases y)
      case (Inr p)
      obtain z h3 where "summarize_compaction deps (co_stability options) cid (co_source_command_id options) fuel p h2 = Some (z, h3)"
        using ends[of p] by auto
      then show ?thesis using y Inr by (cases z) (simp_all add: attempt_compaction_def split: prod.split sum.split)
    qed (use y in \<open>simp add: attempt_compaction_def\<close>)
    then show ?thesis using x soe by (auto simp: compact_surface_region_def)
  qed
qed

section \<open>A compaction on a concrete Session\<close>

definition ex_message_event :: "nat \<Rightarrow> event_data \<Rightarrow> session_event" where
  "ex_message_event n d = \<lparr>ev_seq = n, ev_time = 1, ev_data = d, ev_surface_op = Some (JStr ''append''),
     ev_source_event_seqs = None, ev_ignorable = False\<rparr>"

definition ex_turn_log :: "session_event list" where
  \<comment> \<open>a system prompt, a question and its answer in an open turn\<close>
  "ex_turn_log =
     [ex_message_event 0 (SystemMessage 1 1 (create_system_message ''m0'' ''s'')),
      log_only 1 1 (TurnStart 1),
      ex_message_event 2 (UserMessage \<lparr>msg_id = ''m2'', msg_role = User, msg_content = [TextBlock ''hi''],
        msg_source = UserSource, msg_tool_call_id = None, msg_is_error = None\<rparr>),
      ex_message_event 3 (AssistantMessage 1 1 (create_assistant_message ''m3'' [TextBlock ''yes''] ''p'' ''m'' None) [] None False),
      ex_message_event 4 (UserMessage \<lparr>msg_id = ''m4'', msg_role = User, msg_content = [TextBlock ''go''],
        msg_source = UserSource, msg_tool_call_id = None, msg_is_error = None\<rparr>),
      log_only 5 1 (EndSeed False)]"

definition ex_host :: "nat compaction_host" where
  "ex_host = \<lparr>ph_session = projr (new_session [] ''a'' (Some ex_turn_log) None Snapshot None 5), ph_cache = None,
     ch_aborted = False, ch_world = 1\<rparr>"

definition ex_deps :: "nat region_dependencies" where
  \<comment> \<open>a meter of 100 tokens a node, and a summarizer that fails until one recovery\<close>
  "ex_deps = \<lparr>rd_projections = [], rd_clock = (\<lambda>_. 7), rd_fresh_id = (\<lambda>_. ''x''), rd_error_chain = (\<lambda>_. ''error''),
     rd_estimate_message = (\<lambda>_. 10),
     rd_measure = bindS (mapErrS FromSession (surface_get [] fs_nodes)) (\<lambda>ns. returnS
       \<lparr>tm_log_revision = 5, tm_baseline = NoBaseline, tm_surface_delta_tokens = 300, tm_total_tokens = 300,
        tm_surface_tokens = 300, tm_nodes = map (\<lambda>n. \<lparr>tn_seq = n, tn_tokens = 100, tn_heuristic_tokens = 90\<rparr>) ns\<rparr>),
     rd_summarize = (\<lambda>_. withS (\<lambda>h. if 0 < ch_world h then throwS (FromService ''image'') else returnS
       \<lparr>sr_summary = [TextBlock ''done''], sr_provider = ''p'', sr_model = ''m'', sr_max_tokens = None, sr_usage = None,
        sr_raw_output = None, sr_llm_stream_call = False\<rparr>)),
     rd_recover = (\<lambda>_ _. withS (\<lambda>h. if 0 < ch_world h
       then bindS (modifyS (\<lambda>h. h\<lparr>ch_world := ch_world h - 1\<rparr>)) (\<lambda>_. returnS True) else returnS False))\<rparr>"

definition ex_options :: "nat compaction_options" where
  "ex_options = \<lparr>co_manual = False, co_stability = SelectedSpan, co_flush = None, co_source_command_id = None\<rparr>"

lemma ex_compaction_run:
  "(case compact_surface_region ex_deps ex_options ''c'' 3 2 3 ex_host of
      Some (Inr res, h') \<Rightarrow> (cr_start_seq res, cr_end_seq res, fs_nodes (log_surface [] (host_log h'))) = (6, 9, [0, 8, 4])
    | _ \<Rightarrow> False)"
  by code_simp

lemma seeded_host:
  assumes "new_session [] ''a'' (Some es) None Snapshot None 5 = Inr s"
  shows "pairing_ok [] \<lparr>ph_session = s, ph_cache = None, ch_aborted = False, ch_world = w\<rparr>"
  using message_projections.reach_ok[OF no_projections reach.created[OF assms]] no_projections
  by (simp add: pairing_ok_def session_history.cache_ok_def)

lemma case_result:
  "(case x of Some (Inr a, b) \<Rightarrow> P a b | _ \<Rightarrow> False) \<Longrightarrow> \<exists>a b. x = Some (Inr a, b) \<and> P a b"
  "(case y of (Inr a, b) \<Rightarrow> Q a b | _ \<Rightarrow> False) \<Longrightarrow> \<exists>a b. y = (Inr a, b) \<and> Q a b"
  by (auto split: option.splits prod.splits sum.splits)

lemma ex_host_ok: "pairing_ok [] ex_host"
proof -
  have "(case new_session [] ''a'' (Some ex_turn_log) None Snapshot None 5 of Inr _ \<Rightarrow> True | Inl _ \<Rightarrow> False)"
    by code_simp
  then obtain s where "new_session [] ''a'' (Some ex_turn_log) None Snapshot None 5 = Inr s" by (auto split: sum.splits)
  then show ?thesis using seeded_host by (simp add: ex_host_def)
qed

lemma grows_modify_world: "grows.keeps projections (modifyS (\<lambda>h. h\<lparr>ch_world := f (ch_world h)\<rparr>))"
  by (rule grows.keepsI) (auto simp: modifyS_def marker_free_def pairing_ok_def)

lemma ex_services: "services_ok ex_deps" "rd_projections ex_deps = []"
proof -
  show "rd_projections ex_deps = []" by (simp add: ex_deps_def)
  have "reads.keeps [] (rd_measure ex_deps)"
    unfolding ex_deps_def region_dependencies.simps by (intro reads_rules)
  moreover have "grows.keeps [] (rd_summarize ex_deps input)" for input
    unfolding ex_deps_def region_dependencies.simps by (intro grows.keeps_rules)
  moreover have "grows.keeps [] (rd_recover ex_deps e ns)" for e ns
    unfolding ex_deps_def region_dependencies.simps by (intro grows.keeps_rules grows_modify_world)
  ultimately show "services_ok ex_deps"
    using no_projections by (simp add: services_ok_def compaction_free_def \<open>rd_projections ex_deps = []\<close>)
qed


theorem compaction_ends_witness:
  "\<exists>r h'. compact_surface_region ex_deps ex_options ''c'' 3 2 3 ex_host = Some (r, h')"
proof (rule compaction_ends[OF ex_services(1), where pending = "\<lambda>_ w. w"])
  show "retry_progress ex_deps (\<lambda>_ w. w)"
    unfolding retry_progress_def ex_deps_def region_dependencies.simps
    by (auto simp: withS_def throwS_def returnS_def bindS_def modifyS_def split: if_splits)
  show "pairing_ok (rd_projections ex_deps) ex_host" using ex_host_ok by (simp add: ex_services(2))
  show "ch_world ex_host < 3" by (simp add: ex_host_def)
qed

definition ex_prices :: token_measurement where
  "ex_prices = \<lparr>tm_log_revision = 5, tm_baseline = NoBaseline, tm_surface_delta_tokens = 400, tm_total_tokens = 400,
        tm_surface_tokens = 400, tm_nodes = map (\<lambda>n. \<lparr>tn_seq = n, tn_tokens = 100, tn_heuristic_tokens = 90\<rparr>) [0, 2, 3, 4]\<rparr>"

lemma ex_select: "(case select_compactable_range ex_deps ex_prices 50 ex_host of (Inr st, _) \<Rightarrow> st = Some (2, 3) | _ \<Rightarrow> False)"
  by code_simp

theorem selected_range_valid_witness:
  "\<exists>h' sel h''. select_compactable_range ex_deps ex_prices 50 ex_host = (Inr (Some (2, 3)), h')
     \<and> validate_surface_region ex_deps 2 3 h' = (Inr sel, h'')
     \<and> 50 \<le> sum_list (map tn_tokens (drop (sel_end_idx sel + 1) (tm_nodes ex_prices)))"
proof -
  obtain h' where run: "select_compactable_range ex_deps ex_prices 50 ex_host = (Inr (Some (2, 3)), h')"
    using case_result(2)[OF ex_select] by auto
  have prices: "list_all (\<lambda>p. 0 \<le> tn_tokens p) (tm_nodes ex_prices)" by (simp add: ex_prices_def)
  have "pairing_ok (rd_projections ex_deps) ex_host" using ex_host_ok by (simp add: ex_services(2))
  from selected_range_valid[OF this prices run] run show ?thesis by blast
qed

definition ex_summarized :: summarized_compaction where
  "ex_summarized = \<lparr>sel_start = 2, sel_end = 3, sel_start_idx = 1, sel_end_idx = 2, sel_shadowed = [2, 3],
     pc_measurement = ex_prices, pc_selected_nodes = [], pc_shadowed_token_count = 180, pc_shadowed_route_token_count = 200,
     pc_input = \<lparr>si_tools = None, si_messages = []\<rparr>,
     sc_result = \<lparr>sr_summary = [TextBlock ''done''], sr_provider = ''p'', sr_model = ''m'', sr_max_tokens = None, sr_usage = None,
        sr_raw_output = None, sr_llm_stream_call = False\<rparr>,
     sc_checkpoint_message = \<lparr>msg_id = ''x'', msg_role = User, msg_content = frame_summary [TextBlock ''done''],
        msg_source = compact_checkpoint_source ''c'' None, msg_tool_call_id = None, msg_is_error = None\<rparr>\<rparr>"

definition ex_locked_log :: "session_event list" where
  "ex_locked_log = take 5 ex_turn_log @ [log_only 5 1 (CompactionStart ''c'' None (Some 1)), log_only 6 1 (EndSeed False)]"

lemma ex_locked_session:
  "\<exists>s. new_session [] ''a'' (Some ex_locked_log) None Snapshot None 5 = Inr s \<and> ss_log s = ex_locked_log"
proof -
  have "(case new_session [] ''a'' (Some ex_locked_log) None Snapshot None 5 of Inr s \<Rightarrow> ss_log s = ex_locked_log | Inl _ \<Rightarrow> False)"
    by code_simp
  then show ?thesis by (auto split: sum.splits)
qed


end
