(* ===== verification/Pruner.thy ===== *)
theory Pruner imports Compaction begin

text \<open>
  Model-free pruning of tool results (\<open>packages/compaction/compaction-tool-result-pruner/src\<close>):
  the resolved budgets, the content of one result with its middle removed, and the pass over the
  current surface of a Session, which appends a \<open>compaction/prune\<close> price and a replacement for
  every result over budget. A character of a string stands for a code point. Budgets are exact
  integers (a JavaScript number is one up to \<open>2 ^ 53\<close>).
\<close>

section \<open>Budgets\<close>

record prune_config =
  pr_threshold :: nat
  pr_head :: nat
  pr_tail :: nat

datatype prune_error =
    UnknownPruneKey string
  | NotPositiveInteger string
  | NotNonNegativeInteger string
  | BudgetsTooLarge nat
  | SpanNotFound
  | NotSmaller
  | NotDerived nat
  | PruneRejected session_error

definition prune_marker :: string where
  "prune_marker = [CHR 0x0A, CHR 0x0A] @ ''[... tool result middle pruned ...]'' @ [CHR 0x0A, CHR 0x0A]"

definition prune_config_keys :: "string list" where
  "prune_config_keys = [''thresholdChars'', ''headChars'', ''tailChars'']"

definition code_point_length :: "string \<Rightarrow> nat" where
  "code_point_length = length"

definition config_or :: "json \<Rightarrow> string \<Rightarrow> json \<Rightarrow> json" where
  \<comment> \<open>\<open>config[key] ?? d\<close>\<close>
  "config_or config k d = (case fld config k of None \<Rightarrow> d | Some JNull \<Rightarrow> d | Some v \<Rightarrow> v)"

definition config_positive_integer :: "string \<Rightarrow> json \<Rightarrow> prune_error + nat" where
  "config_positive_integer k v = (case v of JInt n \<Rightarrow> if n \<le> 0 then Inl (NotPositiveInteger k) else Inr (nat n)
     | _ \<Rightarrow> Inl (NotPositiveInteger k))"

definition config_non_negative_integer :: "string \<Rightarrow> json \<Rightarrow> prune_error + nat" where
  "config_non_negative_integer k v = (case v of JInt n \<Rightarrow> if n < 0 then Inl (NotNonNegativeInteger k) else Inr (nat n)
     | JNegZero \<Rightarrow> Inr 0
     | _ \<Rightarrow> Inl (NotNonNegativeInteger k))"

definition resolve_prune_config :: "json \<Rightarrow> prune_error + prune_config" where
  "resolve_prune_config config =
     (case List.find (\<lambda>k. k \<notin> set prune_config_keys) (obj_keys config) of
        Some k \<Rightarrow> Inl (UnknownPruneKey k)
      | None \<Rightarrow>
          bindE (config_positive_integer ''thresholdChars'' (config_or config ''thresholdChars'' (JInt 8192))) (\<lambda>threshold.
          bindE (config_non_negative_integer ''headChars'' (config_or config ''headChars'' (JInt 4096))) (\<lambda>headChars.
          bindE (config_non_negative_integer ''tailChars'' (config_or config ''tailChars'' (JInt 1024))) (\<lambda>tailChars.
            let emitted = headChars + code_point_length prune_marker + tailChars
            in if threshold < emitted then Inl (BudgetsTooLarge emitted)
               else Inr \<lparr>pr_threshold = threshold, pr_head = headChars, pr_tail = tailChars\<rparr>))))"

section \<open>Pruning one result\<close>

definition measure_content :: "content_block list \<Rightarrow> nat" where
  "measure_content content =
     foldl (\<lambda>chars b. case b of TextBlock t \<Rightarrow> chars + code_point_length t | _ \<Rightarrow> chars) 0 content"

record prune_loop =
  pl_pruned :: "content_block list"
  pl_consumed :: nat
  pl_marked :: bool

definition prune_block :: "nat \<Rightarrow> nat \<Rightarrow> prune_loop \<Rightarrow> content_block \<Rightarrow> prune_loop" where
  \<comment> \<open>one turn of the loop, with \<open>removedStart\<close> and \<open>removedEnd\<close>\<close>
  "prune_block removedStart removedEnd st b =
     (case b of
        TextBlock points \<Rightarrow>
          let blockStart = pl_consumed st;
              blockEnd = blockStart + length points;
              headEnd = min (length points) (removedStart - blockStart);
              tailStart = min (length points) (removedEnd - blockStart);
              intersects = blockStart < removedEnd \<and> removedStart < blockEnd;
              marker = (if intersects \<and> \<not> pl_marked st then prune_marker else []);
              t = take headEnd points @ marker @ drop tailStart points
          in \<lparr>pl_pruned = (if t = [] then pl_pruned st else pl_pruned st @ [TextBlock t]),
              pl_consumed = blockEnd, pl_marked = (pl_marked st \<or> marker \<noteq> [])\<rparr>
      | _ \<Rightarrow> st\<lparr>pl_pruned := pl_pruned st @ [b]\<rparr>)"

definition prune_content :: "prune_config \<Rightarrow> content_block list \<Rightarrow> prune_error + content_block list option" where
  "prune_content config content =
     (let totalChars = measure_content content
      in if totalChars \<le> pr_threshold config then Inr None
         else let st = foldl (prune_block (pr_head config) (totalChars - pr_tail config))
                         \<lparr>pl_pruned = [], pl_consumed = 0, pl_marked = False\<rparr> content
              in if \<not> pl_marked st then Inl SpanNotFound
                 else let charsAfter = measure_content (pl_pruned st)
                      in if pr_threshold config < charsAfter \<or> totalChars \<le> charsAfter then Inl NotSmaller
                         else Inr (Some (pl_pruned st)))"

section \<open>What the pruned content keeps\<close>

fun text_of :: "content_block list \<Rightarrow> string" where
  "text_of [] = []"
| "text_of (TextBlock t # bs) = t @ text_of bs"
| "text_of (_ # bs) = text_of bs"

fun is_text :: "content_block \<Rightarrow> bool" where
  "is_text (TextBlock _) = True"
| "is_text _ = False"

definition valid_budgets :: "prune_config \<Rightarrow> bool" where
  "valid_budgets config \<longleftrightarrow> pr_head config + length prune_marker + pr_tail config \<le> pr_threshold config"

lemma text_of_append [simp]: "text_of (bs @ cs) = text_of bs @ text_of cs"
  by (induction bs rule: text_of.induct) simp_all

lemma measure_content_text: "measure_content content = length (text_of content)"
  by (induction content rule: rev_induct) (auto simp: measure_content_def code_point_length_def split: content_block.split)

lemma prune_marker_nonempty [simp]: "prune_marker \<noteq> []"
  by (simp add: prune_marker_def)

lemma resolve_valid: "resolve_prune_config config = Inr c \<Longrightarrow> valid_budgets c"
  by (auto simp: resolve_prune_config_def Let_def valid_budgets_def code_point_length_def
      split: option.splits if_splits)

definition loop_ok :: "nat \<Rightarrow> nat \<Rightarrow> content_block list \<Rightarrow> prune_loop \<Rightarrow> bool" where
  \<comment> \<open>the state after the blocks \<open>bs\<close>\<close>
  "loop_ok s t bs st \<longleftrightarrow> pl_consumed st = length (text_of bs)
     \<and> pl_marked st = (s < length (text_of bs))
     \<and> text_of (pl_pruned st) = take s (text_of bs) @ (if s < length (text_of bs) then prune_marker else []) @ drop t (text_of bs)
     \<and> filter (\<lambda>b. \<not> is_text b) (pl_pruned st) = filter (\<lambda>b. \<not> is_text b) bs
     \<and> TextBlock [] \<notin> set (pl_pruned st)"

lemma prune_block_ok:
  assumes "s < t" and "loop_ok s t bs st"
  shows "loop_ok s t (bs @ [b]) (prune_block s t st b)"
proof (cases b)
  case (TextBlock p)
  have new: "text_of (pl_pruned (prune_block s t st b)) = text_of (pl_pruned st)
      @ take (min (length p) (s - pl_consumed st)) p
      @ (if pl_consumed st < t \<and> s < pl_consumed st + length p \<and> \<not> pl_marked st then prune_marker else [])
      @ drop (min (length p) (t - pl_consumed st)) p"
    by (simp add: prune_block_def TextBlock Let_def)
  consider "s < length (text_of bs)" | "length (text_of bs) \<le> s" by linarith
  then have "text_of (pl_pruned (prune_block s t st b))
      = take s (text_of bs @ p) @ (if s < length (text_of bs @ p) then prune_marker else []) @ drop t (text_of bs @ p)"
    unfolding new using assms by cases (auto simp: loop_ok_def min_def)
  then show ?thesis using assms by (auto simp: loop_ok_def prune_block_def TextBlock Let_def)
qed (use assms(2) in \<open>auto simp: loop_ok_def prune_block_def\<close>)

lemma prune_loop_ok:
  assumes "s < t"
  shows "loop_ok s t bs (foldl (prune_block s t) \<lparr>pl_pruned = [], pl_consumed = 0, pl_marked = False\<rparr> bs)"
proof (induction bs rule: rev_induct)
  case Nil
  then show ?case by (simp add: loop_ok_def)
next
  case (snoc b bs)
  then show ?case using prune_block_ok[OF assms] by simp
qed

lemma prune_content_spec:
  assumes "valid_budgets config"
  shows "case prune_content config content of
      Inl _ \<Rightarrow> False
    | Inr None \<Rightarrow> length (text_of content) \<le> pr_threshold config
    | Inr (Some bs) \<Rightarrow> pr_threshold config < length (text_of content)
        \<and> text_of bs = take (pr_head config) (text_of content) @ prune_marker
            @ drop (length (text_of content) - pr_tail config) (text_of content)
        \<and> filter (\<lambda>b. \<not> is_text b) bs = filter (\<lambda>b. \<not> is_text b) content
        \<and> TextBlock [] \<notin> set bs
        \<and> length (text_of bs) \<le> pr_threshold config"
proof (cases "length (text_of content) \<le> pr_threshold config")
  case True
  then show ?thesis by (simp add: prune_content_def measure_content_text)
next
  case False
  let ?T = "text_of content"
  have v: "pr_head config + length prune_marker + pr_tail config \<le> pr_threshold config"
    using assms by (simp add: valid_budgets_def)
  have "0 < length prune_marker" by simp
  then have "pr_head config < length ?T - pr_tail config" using v False by linarith
  from prune_loop_ok[OF this, of content] show ?thesis
    using v False \<open>0 < length prune_marker\<close>
    by (simp add: prune_content_def measure_content_text Let_def loop_ok_def)
qed

text \<open>C21: with budgets that the resolver accepts, pruning never hits one of its internal errors: text
  within the threshold is left alone, and longer text keeps its first headChars and last
  tailChars characters around one marker, every other block in its order, no empty text
  block, and fits the threshold.\<close>

theorem prune_content_correct:
  assumes "resolve_prune_config raw = Inr config"
  shows "case prune_content config content of
      Inl _ \<Rightarrow> False
    | Inr None \<Rightarrow> length (text_of content) \<le> pr_threshold config
    | Inr (Some bs) \<Rightarrow> pr_threshold config < length (text_of content)
        \<and> text_of bs = take (pr_head config) (text_of content) @ prune_marker
            @ drop (length (text_of content) - pr_tail config) (text_of content)
        \<and> filter (\<lambda>b. \<not> is_text b) bs = filter (\<lambda>b. \<not> is_text b) content
        \<and> TextBlock [] \<notin> set bs
        \<and> length (text_of bs) \<le> pr_threshold config"
  by (rule prune_content_spec[OF resolve_valid[OF assms]])

theorem prune_content_correct_witness:
  "resolve_prune_config (JObj [(''thresholdChars'', JInt 60), (''headChars'', JInt 3), (''tailChars'', JInt 2)])
      = Inr \<lparr>pr_threshold = 60, pr_head = 3, pr_tail = 2\<rparr>
   \<and> (case prune_content \<lparr>pr_threshold = 60, pr_head = 3, pr_tail = 2\<rparr>
          [TextBlock ''abcd'', FileBlock JNull, TextBlock (replicate 60 CHR ''x'' @ ''yz'')] of
        Inr (Some bs) \<Rightarrow> text_of bs = ''abc'' @ prune_marker @ ''yz'' \<and> length (text_of bs) \<le> 60
      | _ \<Rightarrow> False)"
proof -
  let ?raw = "JObj [(''thresholdChars'', JInt 60), (''headChars'', JInt 3), (''tailChars'', JInt 2)]"
  let ?bs = "[TextBlock ''abcd'', FileBlock JNull, TextBlock (replicate 60 CHR ''x'' @ ''yz'')]"
  have raw: "resolve_prune_config ?raw = Inr \<lparr>pr_threshold = 60, pr_head = 3, pr_tail = 2\<rparr>" by code_simp
  have long: "prune_content \<lparr>pr_threshold = 60, pr_head = 3, pr_tail = 2\<rparr> ?bs \<noteq> Inr None" by code_simp
  have "text_of ?bs = ''abcd'' @ replicate 60 CHR ''x'' @ ''yz''" by simp
  with prune_content_correct[OF raw, of ?bs] raw long show ?thesis
    by (auto split: sum.splits option.splits)
qed

section \<open>Pruning the surface of a Session\<close>

record pruned_entry =
  pe_original_seq :: nat
  pe_replacement_seq :: nat
  pe_call_id :: "string option"
  pe_chars_before :: nat
  pe_chars_after :: nat

record prune_result =
  prr_pruned :: "pruned_entry list"
  prr_chars_removed :: int

fun with_message :: "event_data \<Rightarrow> message \<Rightarrow> event_data" where
  \<comment> \<open>\<open>{ ...event.data, message }\<close> of a tool result\<close>
  "with_message (ToolResult t s _ er mt) m = ToolResult t s m er mt"
| "with_message d m = d"

definition result_call_id :: "event_data \<Rightarrow> string option" where
  "result_call_id d = (case d of
     ToolResult _ _ m _ _ \<Rightarrow> (case msg_source m of ToolSource c \<Rightarrow> Some c | _ \<Rightarrow> None)
   | _ \<Rightarrow> None)"

definition prune_append :: "projection list \<Rightarrow> (nat \<Rightarrow> int) \<Rightarrow> event_data \<Rightarrow> json option \<Rightarrow> json option
    \<Rightarrow> ('x pairing_host_scheme, prune_error, session_event) prog" where
  "prune_append projections clock d op sources h =
     (case append_event projections False (clock (length (host_log h))) d op sources (ph_session h) of
        Inl e \<Rightarrow> (Inl (PruneRejected e), h)
      | Inr (e, s') \<Rightarrow> (Inr e, h\<lparr>ph_session := s'\<rparr>))"

definition prune_candidates :: "projection list \<Rightarrow> ('x pairing_host_scheme, prune_error, (nat \<times> session_event) list) prog" where
  "prune_candidates projections =
     bindS (mapErrS PruneRejected (surface_get projections fs_nodes)) (\<lambda>ns. withS (\<lambda>h.
       returnS (List.map_filter (\<lambda>n. case event_at (ph_session h) n of
           Some e \<Rightarrow> if is_tool_result (ev_data e) then Some (n, e) else None
         | None \<Rightarrow> None) ns)))"

definition prune_one :: "projection list \<Rightarrow> (nat \<Rightarrow> int) \<Rightarrow> (message \<Rightarrow> int) \<Rightarrow> prune_config \<Rightarrow> nat \<times> session_event
    \<Rightarrow> ('x pairing_host_scheme, prune_error, pruned_entry option) prog" where
  \<comment> \<open>one turn of the second loop; None is \<open>continue\<close>. A tool result always derives to a message.\<close>
  "prune_one projections clock estimate config = (\<lambda>(n, e).
     bindS (mapErrS PruneRejected (surface_get projections (\<lambda>st. derive_event_message e (fs_projected_messages st)))) (\<lambda>m.
       case m of
         None \<Rightarrow> throwS (NotDerived n)
       | Some original \<Rightarrow>
           (case prune_content config (msg_content original) of
              Inl err \<Rightarrow> throwS err
            | Inr None \<Rightarrow> returnS None
            | Inr (Some content) \<Rightarrow>
                bindS (prune_append projections clock (CompactionPrune (n, n) [n] (estimate original)) None None) (\<lambda>_.
                bindS (prune_append projections clock (with_message (ev_data e) (original\<lparr>msg_content := content\<rparr>))
                         (Some (replace_json n n)) (Some (JArr [seq_json n]))) (\<lambda>replacement.
                  returnS (Some \<lparr>pe_original_seq = n, pe_replacement_seq = ev_seq replacement,
                     pe_call_id = result_call_id (ev_data e),
                     pe_chars_before = measure_content (msg_content original),
                     pe_chars_after = measure_content content\<rparr>))))))"

primrec prune_all :: "projection list \<Rightarrow> (nat \<Rightarrow> int) \<Rightarrow> (message \<Rightarrow> int) \<Rightarrow> prune_config \<Rightarrow> (nat \<times> session_event) list
    \<Rightarrow> prune_result \<Rightarrow> ('x pairing_host_scheme, prune_error, prune_result) prog" where
  "prune_all projections clock estimate config [] acc = returnS acc"
| "prune_all projections clock estimate config (c # cs) acc =
     bindS (prune_one projections clock estimate config c) (\<lambda>entry.
       prune_all projections clock estimate config cs (case entry of
           None \<Rightarrow> acc
         | Some en \<Rightarrow> \<lparr>prr_pruned = prr_pruned acc @ [en],
             prr_chars_removed = prr_chars_removed acc + (int (pe_chars_before en) - int (pe_chars_after en))\<rparr>))"

definition prune_session :: "projection list \<Rightarrow> (nat \<Rightarrow> int) \<Rightarrow> (message \<Rightarrow> int) \<Rightarrow> prune_config
    \<Rightarrow> ('x pairing_host_scheme, prune_error, prune_result) prog" where
  "prune_session projections clock estimate config =
     bindS (prune_candidates projections) (\<lambda>cs.
       prune_all projections clock estimate config cs \<lparr>prr_pruned = [], prr_chars_removed = 0\<rparr>)"

section \<open>Projections of current nodes\<close>

text \<open>A projection that answers only for current nodes, as \<open>image/offload\<close> does.\<close>

locale node_projections = message_projections +
  assumes current_only: "p \<in> set projections \<Longrightarrow> mp_project p e nodes es 0 messages = Inr ms \<Longrightarrow> set (map fst ms) \<subseteq> set nodes"
begin

lemma projected_below:
  assumes "fold_surface_state projections es = Inr (st, rs)"
  shows "list_all (\<lambda>(n, m). n < length es) (fs_projected_messages st)"
  using assms
proof (induction es arbitrary: st rs rule: rev_induct)
  case Nil
  then show ?case by (auto simp: fold_surface_state_def create_fold_state_def)
next
  case (snoc e es)
  obtain st0 rs0 plan where 0: "fold_surface_state projections es = Inr (st0, rs0)"
    and p: "plan_surface_event projections st0 e (length es) es 0 = Inr plan"
    and st: "st = fst (apply_surface_plan st0 plan)"
    using fold_snocE[OF snoc.prems] .
  have old: "list_all (\<lambda>(n, m). n < length (es @ [e])) (fs_projected_messages st0)"
    using snoc.IH[OF 0] by (auto simp: list_all_iff less_SucI)
  show ?case
  proof (cases plan)
    case (ProjectPlan pid ms)
    obtain q where q: "List.find (\<lambda>p. mp_type p = event_type (ev_data e)) projections = Some q"
        "mp_project q e (fs_nodes st0) es 0 (fs_projected_messages st0) = Inr ms"
      using p ProjectPlan by (auto simp: plan_surface_event_def split: if_splits option.splits sum.splits surface_op.splits prod.splits)
    have "set (map fst ms) \<subseteq> set (fs_nodes st0)"
      using current_only[OF _ q(2)] q(1) by (auto simp: find_Some_iff in_set_conv_nth)
    then have "list_all (\<lambda>(n, m). n < length (es @ [e])) ms"
      using fold_nodes_below[OF 0] by (force simp: nodes_below_def list_all_iff)
    then have "list_all (\<lambda>(n, m). n < length (es @ [e])) (foldl (\<lambda>acc (n, m). AList.update n m acc) acc ms)"
      if "list_all (\<lambda>(n, m). n < length (es @ [e])) acc" for acc
      using that
    proof (induction ms arbitrary: acc)
      case (Cons nm ms)
      have "list_all (\<lambda>(n, m). n < length (es @ [e])) (AList.update (fst nm) (snd nm) acc)"
        using Cons.prems by (induction acc) (auto split: prod.splits)
      then show ?case using Cons.IH Cons.prems(1) by (cases nm) simp
    qed simp
    then show ?thesis using old ProjectPlan by (simp add: st)
  qed (use old in \<open>simp_all add: st\<close>)
qed

end

lemma image_project_current:
  assumes "image_offload_project nodes es base messages e = Inr ms"
  shows "set (map fst ms) \<subseteq> set nodes"
proof -
  have target: "\<exists>n m. n \<in> set nodes \<and> acc' = AList.update n m acc"
    if "project_target nodes es base messages acc t = Inr acc'" for acc acc' t
    using that by (auto simp: project_target_def Let_def split: option.splits json.splits if_splits)
  have step: "set (map fst acc') \<subseteq> set nodes"
    if "set (map fst acc) \<subseteq> set nodes" "project_target nodes es base messages acc t = Inr acc'" for acc acc' t
    using target[OF that(2)] that(1) by (auto dest!: subsetD[OF set_update_subset])
  have "set (map fst acc') \<subseteq> set nodes"
    if "foldE (project_target nodes es base messages) acc ts = Inr acc'" "set (map fst acc) \<subseteq> set nodes" for acc acc' ts
    using that
  proof (induction ts arbitrary: acc)
    case (Cons t ts)
    then obtain a where a: "project_target nodes es base messages acc t = Inr a" "foldE (project_target nodes es base messages) a ts = Inr acc'"
      by auto
    show ?case using Cons.IH[OF a(2) step[OF Cons.prems(2) a(1)]] .
  qed simp
  then show ?thesis using assms
    by (auto simp: image_offload_project_def split: event_data.splits option.splits json.splits if_splits)
qed

interpretation image_node_projection: node_projections "[image_offload_projection k]" for k
  by (intro node_projections.intro image_projections)
    (use image_project_current in \<open>auto simp: node_projections_axioms_def image_offload_projection_def\<close>)

section \<open>One replacement\<close>

lemma replace_planE:
  assumes "message_projections projections" and "ev_surface_op e = Some (replace_json s t)" and "is_surface_eligible_type (ev_data e)"
    and "plan_surface_event projections st e n es 0 = Inr plan"
  obtains i j sh where "replacement_range (fs_nodes st) s t = Inr (i, j, sh)"
    "plan = ReplacePlan \<lparr>rp_seq = ev_seq e, rp_start = s, rp_end = t, rp_shadowed = sh\<rparr> i j"
proof -
  have "event_type (ev_data e) \<in> set core_event_types"
    using surface_event_types_iff[OF assms(3)] by (simp add: core_event_types_def)
  then have none: "List.find (\<lambda>p. mp_type p = event_type (ev_data e)) projections = None"
    by (rule message_projections.core_not_projected[OF assms(1)])
  obtain op where op: "validate_surface_metadata e = Inr op" using assms(4) by (auto simp: plan_surface_event_def split: if_splits)
  have "op = Some (Replace s t)"
    using metadata_op[OF op] assms(2,3)
    by (auto simp: surface_op_of_def replace_json_def split: if_splits)
  then show ?thesis using assms(4) op none that
    by (auto simp: plan_surface_event_def split: if_splits)
qed

lemma append_planE:
  assumes "message_projections projections" and "session_ok projections s"
    and "append_event projections False now d op sources s = Inr (e, s')"
  obtains plan where "plan_surface_event projections (log_surface projections (ss_log s)) e (length (ss_log s)) (ss_log s) 0 = Inr plan"
    "ev_data e = d" "ev_surface_op e = op" "ev_seq e = length (ss_log s)" "session_ok projections s'" "ss_log s' = ss_log s @ [e]"
    "log_surface projections (ss_log s @ [e]) = fst (apply_surface_plan (log_surface projections (ss_log s)) plan)"
proof -
  obtain rs where f: "fold_surface_state projections (ss_log s) = Inr (log_surface projections (ss_log s), rs)"
    by (rule session_fold[OF assms(1,2)])
  have s': "session_ok projections s'" "ss_log s' = ss_log s @ [e]"
    using message_projections.session_ok_append[OF assms(1,2,3)] by simp_all
  have e: "ev_data e = d" "ev_surface_op e = op" "ev_seq e = length (ss_log s)"
    using assms(3) by (auto simp: append_event_def Let_def split: if_splits sum.splits)
  obtain acc where "fold_surface_state projections (ss_log s @ [e]) = Inr acc"
    using message_projections.session_ok_fold[OF assms(1) s'(1)] s'(2) by auto
  then obtain st1 rs1 where f1: "fold_surface_state projections (ss_log s @ [e]) = Inr (st1, rs1)" by (cases acc) auto
  then have ls: "log_surface projections (ss_log s @ [e]) = st1" by (simp add: log_surface_def)
  obtain st0 rs0 plan where p: "fold_surface_state projections (ss_log s) = Inr (st0, rs0)"
      "plan_surface_event projections st0 e (length (ss_log s)) (ss_log s) 0 = Inr plan" "st1 = fst (apply_surface_plan st0 plan)"
    using message_projections.fold_snocE[OF assms(1) f1] by metis
  then have "st0 = log_surface projections (ss_log s)" using f by simp
  then show ?thesis using that[of plan] p s' e ls by simp
qed

lemma set_replaced:
  assumes "distinct ns" and "i < length ns"
  shows "set (to_spliced i 1 [n] ns) = insert n (set ns - {ns ! i})"
proof -
  have "ns = take i ns @ ns ! i # drop (Suc i) ns" using assms(2) by (rule id_take_nth_drop)
  then have "set ns = set (take i ns) \<union> {ns ! i} \<union> set (drop (Suc i) ns)" "ns ! i \<notin> set (take i ns) \<union> set (drop (Suc i) ns)"
    using assms(1) by (metis Un_insert_right inf_sup_aci(5) list.set(2) set_append sup_bot.right_neutral) (metis assms(1) distinct.simps(2) distinct_append disjoint_insert(1) Un_iff \<open>ns = _\<close> list.set_intros(1) disjoint_iff)
  then show ?thesis by (auto simp: to_spliced_def)
qed

section \<open>The pass over the surface\<close>

definition within :: "projection list \<Rightarrow> prune_config \<Rightarrow> session_event list \<Rightarrow> nat \<Rightarrow> bool" where
  \<comment> \<open>a node that is a tool result derives to text within the threshold\<close>
  "within projections config es n = (case nth_opt es n of
     None \<Rightarrow> True
   | Some e \<Rightarrow> (case derive_event_message e (fs_projected_messages (log_surface projections es)) of
        Some m \<Rightarrow> is_tool_result (ev_data e) \<longrightarrow> length (text_of (msg_content m)) \<le> pr_threshold config
      | None \<Rightarrow> True))"

lemma tool_result_derives: "is_tool_result (ev_data e) \<Longrightarrow> derive_event_message e pm \<noteq> None"
  by (cases "ev_data e") (auto simp: derive_event_message_def split: option.split)

lemma prune_content_cases:
  assumes "valid_budgets config"
  shows "prune_content config content = Inr None \<and> length (text_of content) \<le> pr_threshold config
    \<or> (\<exists>bs. prune_content config content = Inr (Some bs) \<and> length (text_of bs) \<le> pr_threshold config)"
  using prune_content_spec[OF assms, of content] by (auto split: sum.splits option.splits)

lemma within_append:
  assumes "n < length es" and "fs_projected_messages (log_surface projections (es @ xs)) = fs_projected_messages (log_surface projections es)"
  shows "within projections config (es @ xs) n = within projections config es n"
  using assms by (simp add: within_def nth_opt_def nth_append)

lemma prune_replacement:
  assumes "node_projections projections" and "pairing_ok projections h" and "n \<in> set (surface_nodes projections h)"
    and "is_tool_result d" and "prune_append projections clock (with_message d m) (Some (replace_json n n)) sources h = (r, h')"
    and "length (text_of (msg_content m)) \<le> pr_threshold config"
  shows "case r of
      Inl err \<Rightarrow> (\<exists>s. err = PruneRejected s) \<and> h' = h
    | Inr e \<Rightarrow> pairing_ok projections h' \<and> host_log h' = host_log h @ [e]
        \<and> fs_projected_messages (log_surface projections (host_log h')) = fs_projected_messages (log_surface projections (host_log h))
        \<and> set (surface_nodes projections h') = insert (length (host_log h)) (set (surface_nodes projections h) - {n})
        \<and> within projections config (host_log h') (length (host_log h))"
proof -
  let ?ns = "surface_nodes projections h" and ?n' = "length (host_log h)"
  have np: "message_projections projections" using assms(1) by (simp add: node_projections_def)
  have s: "session_ok projections (ph_session h)" using assms(2) by (simp add: pairing_ok_def)
  show ?thesis
  proof (cases "append_event projections False (clock ?n') (with_message d m) (Some (replace_json n n)) sources (ph_session h)")
    case (Inl err)
    then show ?thesis using assms(5) by (auto simp: prune_append_def)
  next
    case (Inr es)
    obtain e s' where es: "es = (e, s')" by fastforce
    obtain plan where plan: "plan_surface_event projections (log_surface projections (host_log h)) e ?n' (host_log h) 0 = Inr plan"
      "ev_data e = with_message d m" "ev_surface_op e = Some (replace_json n n)" "ev_seq e = ?n'" "session_ok projections s'"
      "ss_log s' = host_log h @ [e]"
      "log_surface projections (host_log h @ [e]) = fst (apply_surface_plan (log_surface projections (host_log h)) plan)"
      using append_planE[OF np s Inr[unfolded es]] .
    have tool: "is_tool_result (ev_data e)" "is_surface_eligible_type (ev_data e)"
      using assms(4) by (cases d; simp add: plan(2))+
    obtain i j sh where range: "replacement_range ?ns n n = Inr (i, j, sh)"
      and rp: "plan = ReplacePlan \<lparr>rp_seq = ev_seq e, rp_start = n, rp_end = n, rp_shadowed = sh\<rparr> i j"
      using replace_planE[OF np plan(3) tool(2) plan(1)] .
    obtain rs where f: "fold_surface_state projections (host_log h) = Inr (log_surface projections (host_log h), rs)"
      by (rule session_fold[OF np s])
    have di: "distinct ?ns" using message_projections.fold_nodes_events(1)[OF np f] .
    note r = replacement_range_Some[OF range]
    have "i = j" using r(1,2,4,5) di nth_eq_iff_index_eq[OF di, of i j] by simp
    then have nodes: "set (fs_nodes (log_surface projections (host_log h @ [e]))) = insert ?n' (set ?ns - {n})"
      using set_replaced[OF di r(2), of ?n'] r(5) by (simp add: plan(7) rp plan(4))
    have pm: "fs_projected_messages (log_surface projections (host_log h @ [e])) = fs_projected_messages (log_surface projections (host_log h))"
      by (simp add: plan(7) rp)
    have "list_all (\<lambda>(k, _). k < ?n') (fs_projected_messages (log_surface projections (host_log h)))"
      using node_projections.projected_below[OF assms(1) f] .
    then have fresh: "map_of (fs_projected_messages (log_surface projections (host_log h))) ?n' = None"
      by (force simp: map_of_eq_None_iff list_all_iff)
    have "derive_event_message e (fs_projected_messages (log_surface projections (host_log h))) = Some m"
      using fresh tool(1) plan(2,4) assms(4) by (cases d) (simp_all add: derive_event_message_def)
    then have "within projections config (host_log h @ [e]) ?n'"
      using assms(6) by (simp add: within_def nth_opt_def pm)
    then show ?thesis using assms(5) Inr es nodes pm pairing_ok_grow[OF assms(2) plan(5,6)] plan(6)
      by (auto simp: prune_append_def)
  qed
qed

lemma prune_price:
  assumes "compaction_free projections" and "pairing_ok projections h"
  obtains e h' where "prune_append projections clock (CompactionPrune r ns k) None None h = (Inr e, h')"
    "pairing_ok projections h'" "host_log h' = host_log h @ [e]"
    "log_surface projections (host_log h') = log_surface projections (host_log h)"
proof -
  let ?d = "CompactionPrune r ns k"
  have m: "message_projections projections" and s: "session_ok projections (ph_session h)"
    using assms by (simp_all add: compaction_free_def pairing_ok_def)
  have rec: "compaction_record ?d" by (simp add: compaction_record_def)
  obtain s' where s': "append_event projections False (clock (length (host_log h))) ?d None None (ph_session h)
        = Inr (log_only (length (host_log h)) (clock (length (host_log h))) ?d, s')"
      "session_ok projections s'" "ss_log s' = host_log h @ [log_only (length (host_log h)) (clock (length (host_log h))) ?d]"
    using message_projections.append_log_only[OF m s compaction_record_log_only[OF assms(1) rec]] by blast
  show ?thesis
    by (rule that[of _ "h\<lparr>ph_session := s'\<rparr>"])
      (simp_all add: prune_append_def s' pairing_ok_grow[OF assms(2) s'(2,3)] surface_after_record[OF assms(1) s rec])
qed

definition left_over :: "projection list \<Rightarrow> prune_config \<Rightarrow> 'x pairing_host_scheme \<Rightarrow> nat set" where
  \<comment> \<open>the nodes still over the threshold\<close>
  "left_over projections config h = {n \<in> set (surface_nodes projections h). \<not> within projections config (host_log h) n}"

definition candidate :: "projection list \<Rightarrow> 'x pairing_host_scheme \<Rightarrow> nat \<times> session_event \<Rightarrow> bool" where
  "candidate projections h c \<longleftrightarrow> fst c \<in> set (surface_nodes projections h) \<and> nth_opt (host_log h) (fst c) = Some (snd c)
     \<and> is_tool_result (ev_data (snd c))"

definition pruned_to :: "projection list \<Rightarrow> prune_config \<Rightarrow> nat \<Rightarrow> 'x pairing_host_scheme \<Rightarrow> 'x pairing_host_scheme \<Rightarrow> bool" where
  \<comment> \<open>the node \<open>n\<close> is no longer over, and nothing else changed for the worse\<close>
  "pruned_to projections config n h h' \<longleftrightarrow> pairing_ok projections h' \<and> (\<exists>xs. host_log h' = host_log h @ xs)
     \<and> left_over projections config h' \<subseteq> left_over projections config h - {n}
     \<and> set (surface_nodes projections h) - {n} \<subseteq> set (surface_nodes projections h')"

lemma prune_one_spec:
  assumes "node_projections projections" and "compaction_free projections" and "valid_budgets config"
    and "pairing_ok projections h" and "candidate projections h (n, e)"
    and "prune_one projections clock estimate config (n, e) h = (r, h')"
  shows "case r of Inl err \<Rightarrow> \<exists>s. err = PruneRejected s | Inr _ \<Rightarrow> pruned_to projections config n h h'"
proof -
  let ?derive = "\<lambda>st. derive_event_message e (fs_projected_messages st)"
  have c: "n \<in> set (surface_nodes projections h)" "nth_opt (host_log h) n = Some e" "is_tool_result (ev_data e)"
    using assms(5) by (simp_all add: candidate_def)
  obtain h1 where h1: "surface_get projections ?derive h = (Inr (?derive (log_surface projections (host_log h))), h1)" "same_log projections h h1"
    using surface_get_ok[OF assms(4), of ?derive] by auto
  have log1: "host_log h1 = host_log h" and ok1: "pairing_ok projections h1" using h1(2) by (simp_all add: same_log_def)
  obtain m where m: "?derive (log_surface projections (host_log h)) = Some m" using tool_result_derives[OF c(3)] by fastforce
  have run: "prune_one projections clock estimate config (n, e) h = (case prune_content config (msg_content m) of
      Inl err \<Rightarrow> throwS err
    | Inr None \<Rightarrow> returnS None
    | Inr (Some content) \<Rightarrow>
        bindS (prune_append projections clock (CompactionPrune (n, n) [n] (estimate m)) None None) (\<lambda>_.
        bindS (prune_append projections clock (with_message (ev_data e) (m\<lparr>msg_content := content\<rparr>))
                 (Some (replace_json n n)) (Some (JArr [seq_json n]))) (\<lambda>replacement.
          returnS (Some \<lparr>pe_original_seq = n, pe_replacement_seq = ev_seq replacement,
             pe_call_id = result_call_id (ev_data e),
             pe_chars_before = measure_content (msg_content m),
             pe_chars_after = measure_content content\<rparr>)))) h1"
    using h1(1) m by (simp add: prune_one_def bindS_def mapErrS_def)
  from prune_content_cases[OF assms(3), of "msg_content m"] show ?thesis
  proof (elim disjE exE conjE)
    assume p: "prune_content config (msg_content m) = Inr None" "length (text_of (msg_content m)) \<le> pr_threshold config"
    then have "within projections config (host_log h) n" using c(2) m by (simp add: within_def)
    then have "pruned_to projections config n h h1" using ok1 log1 by (auto simp: pruned_to_def left_over_def)
    then show ?thesis using run assms(6) p(1) by (simp add: returnS_def)
  next
    fix bs assume p: "prune_content config (msg_content m) = Inr (Some bs)" "length (text_of bs) \<le> pr_threshold config"
    obtain price h2 where h2: "prune_append projections clock (CompactionPrune (n, n) [n] (estimate m)) None None h1 = (Inr price, h2)"
        "pairing_ok projections h2" "host_log h2 = host_log h @ [price]"
        "log_surface projections (host_log h2) = log_surface projections (host_log h)"
      using prune_price[OF assms(2) ok1, of clock "(n, n)" "[n]" "estimate m"] log1 by metis
    obtain x h3 where x: "prune_append projections clock (with_message (ev_data e) (m\<lparr>msg_content := bs\<rparr>))
        (Some (replace_json n n)) (Some (JArr [seq_json n])) h2 = (x, h3)" by fastforce
    have n2: "n \<in> set (surface_nodes projections h2)" using c(1) h2(4) by simp
    note rep = prune_replacement[OF assms(1) h2(2) n2 c(3) x, of config]
    show ?thesis
    proof (cases x)
      case (Inl err)
      then show ?thesis using rep p run assms(6) h2(1) x by (auto simp: bindS_def)
    next
      case (Inr e')
      have r3: "pairing_ok projections h3" "host_log h3 = host_log h2 @ [e']"
          "fs_projected_messages (log_surface projections (host_log h3)) = fs_projected_messages (log_surface projections (host_log h2))"
          "set (surface_nodes projections h3) = insert (length (host_log h2)) (set (surface_nodes projections h2) - {n})"
          "within projections config (host_log h3) (length (host_log h2))"
        using rep[simplified, OF p(2)] unfolding Inr sum.case by blast+
      have log3: "host_log h3 = host_log h @ [price, e']" using r3(2) h2(3) by simp
      have old: "within projections config (host_log h3) k = within projections config (host_log h) k"
        if "k \<in> set (surface_nodes projections h)" for k
        using within_append[of k "host_log h" projections "[price, e']" config] node_event(1)[OF assms(4) that] r3(3) h2(4) log3 by simp
      have "pruned_to projections config n h h3"
        using r3(1,4,5) old log3 h2(4) by (auto simp: pruned_to_def left_over_def)
      moreover have "h' = h3" "\<exists>en. r = Inr (Some en)"
        using run assms(6) p(1) h2(1) x Inr by (auto simp: bindS_def returnS_def)
      ultimately show ?thesis by auto
    qed
  qed
qed

lemma candidate_kept:
  assumes "pruned_to projections config n h h'" and "pairing_ok projections h" and "candidate projections h c" and "fst c \<noteq> n"
  shows "candidate projections h' c"
proof -
  have "fst c < length (host_log h)" using node_event(1)[OF assms(2)] assms(3) by (simp add: candidate_def)
  then show ?thesis using assms(1,3,4) by (auto simp: candidate_def pruned_to_def nth_opt_def nth_append)
qed

lemma prune_all_spec:
  fixes h :: "'x pairing_host_scheme"
  assumes "node_projections projections" and "compaction_free projections" and "valid_budgets config"
    and "pairing_ok projections h" and "list_all (candidate projections h) cs" and "distinct (map fst cs)"
    and "left_over projections config h \<subseteq> fst ` set cs"
    and "prune_all projections clock estimate config cs acc h = (r, h')"
  shows "case r of Inl err \<Rightarrow> \<exists>s. err = PruneRejected s
    | Inr _ \<Rightarrow> pairing_ok projections h' \<and> (\<exists>xs. host_log h' = host_log h @ xs) \<and> left_over projections config h' = {}"
  using assms(4-)
proof (induction cs arbitrary: h acc)
  case Nil
  then show ?case by (auto simp: returnS_def)
next
  case (Cons c cs)
  obtain n e where c: "c = (n, e)" by fastforce
  obtain x h1 where x: "prune_one projections clock estimate config (n, e) h = (x, h1)" by fastforce
  have "candidate projections h (n, e)" using Cons.prems(2) c by simp
  note one = prune_one_spec[OF assms(1-3) Cons.prems(1) this x]
  show ?case
  proof (cases x)
    case (Inl err)
    then show ?thesis using one Cons.prems(5) x c by (auto simp: bindS_def)
  next
    case (Inr entry)
    then have to: "pruned_to projections config n h h1" using one by simp
    then have ok1: "pairing_ok projections h1" "left_over projections config h1 \<subseteq> fst ` set cs"
      using Cons.prems(4) c by (auto simp: pruned_to_def)
    have "list_all (candidate projections h1) cs"
      using Cons.prems(2,3) candidate_kept[OF to Cons.prems(1)] c by (auto simp: list_all_iff)
    moreover obtain acc' where "prune_all projections clock estimate config cs acc' h1 = (r, h')"
      using Cons.prems(5) x Inr c by (auto simp: bindS_def)
    ultimately have "case r of Inl err \<Rightarrow> \<exists>s. err = PruneRejected s
      | Inr _ \<Rightarrow> pairing_ok projections h' \<and> (\<exists>xs. host_log h' = host_log h1 @ xs) \<and> left_over projections config h' = {}"
      using Cons.IH[OF ok1(1) _ _ ok1(2)] Cons.prems(3) by simp
    then show ?thesis using to by (auto simp: pruned_to_def split: sum.splits)
  qed
qed

lemma distinct_picked:
  "distinct ns \<Longrightarrow> distinct (map fst (List.map_filter
     (\<lambda>n. case f n of Some e \<Rightarrow> if P e then Some (n, e) else None | None \<Rightarrow> None) ns))"
  by (induction ns) (auto simp: List.map_filter_simps split: option.splits if_splits)

text \<open>C20: a pass over the surface that is not stopped by the Session rejecting a replacement, which is
  the only way it can fail, leaves no tool result over the threshold.\<close>

theorem prune_session_complete:
  fixes h :: "'x pairing_host_scheme"
  assumes "node_projections projections" and "compaction_free projections" and "resolve_prune_config raw = Inr config"
    and "pairing_ok projections h" and "prune_session projections clock estimate config h = (r, h')"
  shows "case r of Inl err \<Rightarrow> \<exists>s. err = PruneRejected s
    | Inr _ \<Rightarrow> pairing_ok projections h' \<and> (\<exists>xs. host_log h' = host_log h @ xs)
        \<and> list_all (within projections config (host_log h')) (surface_nodes projections h')"
proof -
  obtain h1 where h1: "surface_get projections fs_nodes h = (Inr (surface_nodes projections h), h1)" "same_log projections h h1"
    using surface_get_ok[OF assms(4), of fs_nodes] by auto
  have log1: "host_log h1 = host_log h" and ok1: "pairing_ok projections h1" using h1(2) by (simp_all add: same_log_def)
  let ?pick = "\<lambda>n. case nth_opt (host_log h) n of Some e \<Rightarrow> if is_tool_result (ev_data e) then Some (n, e) else None | None \<Rightarrow> None"
  define cs where "cs = List.map_filter ?pick (surface_nodes projections h)"
  have run: "prune_all projections clock estimate config cs \<lparr>prr_pruned = [], prr_chars_removed = 0\<rparr> h1 = (r, h')"
    using assms(5) h1(1) by (simp add: prune_session_def prune_candidates_def bindS_def mapErrS_def withS_def returnS_def
        event_at_def log1 cs_def)
  have cand: "list_all (candidate projections h1) cs"
    by (auto simp: list_all_iff cs_def candidate_def log1 split: option.splits if_splits)
  have np: "message_projections projections" using assms(1) by (simp add: node_projections_def)
  have "session_ok projections (ph_session h)" using assms(4) by (simp add: pairing_ok_def)
  then obtain rs where "fold_surface_state projections (host_log h) = Inr (log_surface projections (host_log h), rs)"
    by (rule session_fold[OF np])
  then have "distinct (surface_nodes projections h)" using message_projections.fold_nodes_events(1)[OF np] by blast
  then have "distinct (map fst cs)" unfolding cs_def by (rule distinct_picked)
  moreover have "left_over projections config h1 \<subseteq> fst ` set cs"
    by (force simp: left_over_def cs_def log1 within_def split: option.splits)
  ultimately show ?thesis
    using prune_all_spec[OF assms(1,2) resolve_valid[OF assms(3)] ok1 cand _ _ run] log1
    by (auto simp: left_over_def list_all_iff split: sum.splits)
qed

definition ex_result_log :: "session_event list" where
  "ex_result_log =
     [ex_message_event 0 (AssistantMessage 1 1 (create_assistant_message ''m0'' [ToolCallBlock ''c'' ''t'' ''a''] ''p'' ''m'' None) [] None False),
      ex_message_event 1 (ToolResult 1 1 (create_tool_result_message ''m1'' ''c'' [TextBlock (replicate 70 CHR ''x'')] False) None None),
      log_only 2 1 (EndSeed False)]"

definition ex_budgets :: json where
  "ex_budgets = JObj [(''thresholdChars'', JInt 60), (''headChars'', JInt 3), (''tailChars'', JInt 2)]"

definition ex_result_host :: "nat compaction_host" where
  "ex_result_host = \<lparr>ph_session = projr (new_session [] ''a'' (Some ex_result_log) None Snapshot None 5), ph_cache = None,
     ch_aborted = False, ch_world = 0\<rparr>"

lemma ex_result_ok: "pairing_ok [] ex_result_host"
proof -
  have "(case new_session [] ''a'' (Some ex_result_log) None Snapshot None 5 of Inr _ \<Rightarrow> True | Inl _ \<Rightarrow> False)"
    by code_simp
  then obtain s where "new_session [] ''a'' (Some ex_result_log) None Snapshot None 5 = Inr s" by (auto split: sum.splits)
  then show ?thesis using seeded_host by (simp add: ex_result_host_def)
qed

lemma ex_prune_run:
  "case prune_session [] (\<lambda>_. 7) (\<lambda>_. 10) \<lparr>pr_threshold = 60, pr_head = 3, pr_tail = 2\<rparr> ex_result_host of
     (Inr res, h) \<Rightarrow> map pe_replacement_seq (prr_pruned res) = [4] \<and> surface_nodes [] h = [0, 4]
   | _ \<Rightarrow> False"
  by code_simp

theorem prune_session_complete_witness:
  "\<exists>res h. prune_session [] (\<lambda>_. 7) (\<lambda>_. 10) \<lparr>pr_threshold = 60, pr_head = 3, pr_tail = 2\<rparr> ex_result_host = (Inr res, h)
     \<and> surface_nodes [] h = [0, 4] \<and> within [] \<lparr>pr_threshold = 60, pr_head = 3, pr_tail = 2\<rparr> (host_log h) 4"
proof -
  obtain res h where run: "prune_session [] (\<lambda>_. 7) (\<lambda>_. 10) \<lparr>pr_threshold = 60, pr_head = 3, pr_tail = 2\<rparr> ex_result_host = (Inr res, h)"
    and nodes: "surface_nodes [] h = [0, 4]"
    using case_result(2)[OF ex_prune_run] by blast
  have np: "node_projections []" by (intro node_projections.intro no_projections) (simp add: node_projections_axioms_def)
  have free: "compaction_free []" using no_projections by (simp add: compaction_free_def)
  have raw: "resolve_prune_config ex_budgets = Inr \<lparr>pr_threshold = 60, pr_head = 3, pr_tail = 2\<rparr>" by code_simp
  from prune_session_complete[OF np free raw ex_result_ok run] nodes run show ?thesis by simp
qed

end
