(* ===== verification/Spec2Isabelle.thy ===== *)
theory Spec2Isabelle imports SessionLog Surface ImageOffload Repair SeqRanges AssistantStream Projections Inbox ToolCalls GoalService Pruner begin

text \<open>
  Root theory.
\<close>

end
